(* ===== verification/Kernel_Prelude.thy ===== *)
theory Kernel_Prelude
  imports Main "HOL-Library.Word" "HOL-Library.Multiset"
begin

text \<open>
  Shared vocabulary of the development: the machine types of the ARMv7 build (32-bit
  \<^verbatim>\<open>unsigned long\<close>, 32-bit \<^verbatim>\<open>phys_addr_t\<close>), the errno values, the alignment
  macros of \<^verbatim>\<open>include/linux/kernel.h\<close>, array helpers for loops that write
  \<^verbatim>\<open>dst[k] = ...\<close> for \<^verbatim>\<open>k = 0 .. n-1\<close>, and the generic lemmas on
  lists and words that the component theories use.
\<close>

unbundle bit_operations_syntax

named_theorems bitmap_simps \<open>bit-level characterisation of the bitmap operations\<close>
named_theorems memblock_simps \<open>effect of the memblock primitives on the live regions\<close>

section \<open>Machine types\<close>

type_synonym u8 = "8 word"
type_synonym u16 = "16 word"
type_synonym u32 = "32 word"
type_synonym u64 = "64 word"

section \<open>Error numbers\<close>

text \<open>The errno values the modelled functions return, negated at the point of return.\<close>

definition EINTR :: int where "EINTR = 4"
definition E2BIG :: int where "E2BIG = 7"
definition ENOMEM :: int where "ENOMEM = 12"
definition EFAULT :: int where "EFAULT = 14"
definition EBUSY :: int where "EBUSY = 16"
definition EINVAL :: int where "EINVAL = 22"
definition ERANGE :: int where "ERANGE = 34"
definition EOVERFLOW :: int where "EOVERFLOW = 75"

lemmas errno_defs = EINTR_def E2BIG_def ENOMEM_def EFAULT_def EBUSY_def EINVAL_def ERANGE_def EOVERFLOW_def

section \<open>Alignment macros\<close>

text \<open>\<^verbatim>\<open>__ALIGN_MASK\<close>, \<^verbatim>\<open>ALIGN\<close>, \<^verbatim>\<open>round_up\<close> and \<^verbatim>\<open>round_down\<close> on
  32-bit operands, wrap-around included.\<close>

definition ALIGN_MASK :: "u32 \<Rightarrow> u32 \<Rightarrow> u32" where
  "ALIGN_MASK x m = (x + m) AND NOT m"

definition ALIGN :: "u32 \<Rightarrow> u32 \<Rightarrow> u32" where
  "ALIGN x a = ALIGN_MASK x (a - 1)"

text \<open>\<^verbatim>\<open>is_power_of_2\<close>, \<^verbatim>\<open>include/linux/log2.h\<close>.\<close>

definition is_power_of_2 :: "u32 \<Rightarrow> bool" where
  "is_power_of_2 n \<longleftrightarrow> n \<noteq> 0 \<and> n AND (n - 1) = 0"

definition round_mask :: "u32 \<Rightarrow> u32" where
  "round_mask y = y - 1"

definition round_up :: "u32 \<Rightarrow> u32 \<Rightarrow> u32" where
  "round_up x y = ((x - 1) OR round_mask y) + 1"

definition round_down :: "u32 \<Rightarrow> u32 \<Rightarrow> u32" where
  "round_down x y = x AND NOT (round_mask y)"

definition DIV_ROUND_UP :: "nat \<Rightarrow> nat \<Rightarrow> nat" where
  "DIV_ROUND_UP n d = (n + d - 1) div d"

section \<open>Loops that write an array\<close>

text \<open>\<open>for_upd n f d\<close> is \<^verbatim>\<open>for (k = 0; k < n; k++) d[k] = f(k)\<close>, where the
  right-hand side does not read \<open>d\<close>.\<close>

definition for_upd :: "nat \<Rightarrow> (nat \<Rightarrow> 'a) \<Rightarrow> 'a list \<Rightarrow> 'a list" where
  "for_upd n f d = fold (\<lambda>k d. d[k := f k]) [0..<n] d"

lemma for_upd_0 [simp]: "for_upd 0 f d = d"
  by (simp add: for_upd_def)

lemma for_upd_Suc: "for_upd (Suc n) f d = (for_upd n f d)[n := f n]"
  by (simp add: for_upd_def)

lemma length_for_upd [simp]: "length (for_upd n f d) = length d"
  by (induction n) (simp_all add: for_upd_Suc)

lemma nth_for_upd:
  "i < length d \<Longrightarrow> for_upd n f d ! i = (if i < n then f i else d ! i)"
  by (induction n) (auto simp: for_upd_Suc less_Suc_eq)

section \<open>Words and arithmetic\<close>

lemma nat_div_mod_32E:
  fixes n :: nat obtains q r where "n = 32 * q + r" "r < 32"
proof (rule that)
  show "n = 32 * (n div 32) + n mod 32" by simp
qed simp

lemma block_32:
  "j < 32 \<Longrightarrow> (32 * q + j) div 32 = (q :: nat)" "j < 32 \<Longrightarrow> (32 * q + j) mod 32 = (j :: nat)"
  by simp_all

lemma word_not_zero_iff_bit: "(w :: 'a::len word) \<noteq> 0 \<longleftrightarrow> (\<exists>n < LENGTH('a). bit w n)"
  by (metis bit_0_eq bit_imp_le_length bit_word_eqI bot_apply bot_bool_def)

lemma word_eq_zero_iff_bit: "(w :: 'a::len word) = 0 \<longleftrightarrow> (\<forall>n < LENGTH('a). \<not> bit w n)"
  using word_not_zero_iff_bit by blast

lemma unat_of_nat_32: "n < 2 ^ 32 \<Longrightarrow> unat (of_nat n :: u32) = n"
  by (simp add: unsigned_of_nat take_bit_nat_eq_self)

lemma unat_add_32: "unat a + unat b < 2 ^ 32 \<Longrightarrow> unat (a + b :: u32) = unat a + unat b"
  using unat_add_lem [of a b] by simp

lemma unat_less_32: "unat (a :: u32) < 2 ^ 32"
  using unsigned_less [of a] by simp

lemma and_not_mask_eq: "x AND NOT (mask k) = x - take_bit k (x :: u32)"
proof -
  have "x AND NOT (mask k) = push_bit k (drop_bit k x)"
    by (rule bit_eqI) (auto simp: bit_and_iff bit_not_iff bit_mask_iff bit_push_bit_iff bit_drop_bit_eq)
  then show ?thesis by (metis add_diff_cancel_right' bits_ident)
qed

lemma unat_and_not_mask: "unat (x AND NOT (mask k) :: u32) = unat x - unat x mod 2 ^ k"
proof -
  have t: "unat (take_bit k x) = unat x mod 2 ^ k"
    unfolding unsigned_take_bit_eq by (simp add: take_bit_eq_mod)
  then have "take_bit k x \<le> x" by (simp add: word_le_nat_alt)
  then show ?thesis by (simp add: and_not_mask_eq unat_sub t)
qed

text \<open>Rounding up to a power of two, without wrap-around: the least multiple at or above.\<close>

lemma unat_ALIGN_MASK:
  assumes "unat x + 2 ^ k \<le> 2 ^ 32"
  defines "r \<equiv> unat (ALIGN_MASK x (mask k))"
  shows "unat x \<le> r \<and> r < unat x + 2 ^ k \<and> 2 ^ k dvd r"
proof -
  have k: "k \<le> 32"
  proof (rule ccontr)
    assume "\<not> k \<le> 32"
    then have "(2 :: nat) ^ 32 < 2 ^ k" by (intro power_strict_increasing) auto
    with assms show False by simp
  qed
  have m: "unat (mask k :: u32) = 2 ^ k - 1"
  proof -
    have "unat (mask k :: u32) = mask k"
      by (rule bit_eqI) (use k in \<open>auto simp: bit_unsigned_iff bit_mask_iff\<close>)
    then show ?thesis by (simp add: mask_eq_exp_minus_1)
  qed
  have s: "unat (x + mask k) = unat x + 2 ^ k - 1"
  proof -
    have "unat x + unat (mask k :: u32) < 2 ^ LENGTH(32)" using assms m by simp
    then show ?thesis using m by (simp add: unat_add_lem [THEN iffD1])
  qed
  let ?y = "unat x + 2 ^ k - 1"
  have r: "r = ?y - ?y mod 2 ^ k" by (simp add: r_def ALIGN_MASK_def unat_and_not_mask s)
  have "?y mod 2 ^ k < 2 ^ k" by simp
  moreover have "?y mod 2 ^ k \<le> ?y" by (rule mod_less_eq_dividend)
  moreover have "2 ^ k dvd r" unfolding r by (rule dvd_minus_mod)
  moreover have "(0::nat) < 2 ^ k" by simp
  ultimately show ?thesis using r by linarith
qed

lemma dvd_between:
  fixes r :: nat
  assumes "d dvd r" "d dvd s" "x \<le> s" "r < x + d"
  shows "r \<le> s"
proof (rule ccontr)
  assume "\<not> r \<le> s"
  then obtain n where "r = s + n" "0 < n" using less_imp_add_positive [of s r] by auto
  with assms(1,2) have "d dvd n" by (simp add: dvd_add_right_iff)
  with \<open>0 < n\<close> have "d \<le> n" by (rule dvd_imp_le [rotated])
  with assms \<open>r = s + n\<close> show False by simp
qed

lemma list_ex_window: "list_ex (\<lambda>i. P (s + i)) [0..<n] \<longleftrightarrow> (\<exists>q. s \<le> q \<and> q < s + n \<and> P q)"
proof
  assume "\<exists>q. s \<le> q \<and> q < s + n \<and> P q"
  then obtain q where "s \<le> q" "q < s + n" "P q" by blast
  then show "list_ex (\<lambda>i. P (s + i)) [0..<n]" by (auto simp: list_ex_iff intro!: bexI [of _ "q - s"])
next
  assume "list_ex (\<lambda>i. P (s + i)) [0..<n]"
  then obtain i where "i < n" "P (s + i)" by (auto simp: list_ex_iff)
  then show "\<exists>q. s \<le> q \<and> q < s + n \<and> P q" by (intro exI [of _ "s + i"]) simp
qed

lemma ex_block_32: "(\<exists>i. P (i :: nat)) \<longleftrightarrow> (\<exists>q j. j < 32 \<and> P (32 * q + j))"
  by (metis nat_div_mod_32E)

lemma exp_minus_one_mask: "(2 :: u32) ^ n - 1 = mask n"
  by (simp add: mask_eq_exp_minus_1)

lemma is_power_of_2_exp: "n < 32 \<Longrightarrow> is_power_of_2 (2 ^ n)"
proof -
  assume "n < 32"
  have "(2 :: u32) ^ n AND mask n = 0"
    by (rule bit_eqI) (auto simp: bit_and_iff bit_exp_iff bit_mask_iff)
  moreover have "bit ((2 :: u32) ^ n) n" using \<open>n < 32\<close> by (simp add: bit_exp_iff)
  then have "(2 :: u32) ^ n \<noteq> 0" by (metis bit_0_eq bot_apply bot_bool_def)
  ultimately show ?thesis by (simp add: is_power_of_2_def exp_minus_one_mask)
qed

lemma unat_and_mask: "unat (x AND mask n :: u32) = unat x mod 2 ^ n"
  unfolding take_bit_eq_mask [symmetric] unsigned_take_bit_eq by (simp add: take_bit_eq_mod)

lemma unat_exp_32: "n < 32 \<Longrightarrow> unat ((2 :: u32) ^ n) = 2 ^ n"
proof -
  assume n: "n < 32"
  then have "(2 :: nat) ^ n < 2 ^ 32" by (intro power_strict_increasing) auto
  then show ?thesis using unat_of_nat_32 [of "2 ^ n"] by simp
qed

lemma sint_small: "unat (w :: u32) < 2 ^ 31 \<Longrightarrow> sint w = int (unat w)"
proof -
  assume "unat w < 2 ^ 31"
  then have "int (unat w) < int (2 ^ 31)" by (simp only: of_nat_less_iff)
  moreover have "- (2 ^ 31) \<le> int (unat w)" by (rule order_trans [of _ 0]) simp_all
  ultimately have "signed_take_bit 31 (int (unat w)) = int (unat w)"
    by (intro signed_take_bit_int_eq_self) simp_all
  then show ?thesis by (simp add: sint_uint)
qed

lemma unat_drop_bit_32: "unat (drop_bit k (x :: u32)) = unat x div 2 ^ k"
  by (subst unat_drop_bit_eq) (rule drop_bit_eq_div)

lemma unat_push_bit_32: "unat x * 2 ^ k < 2 ^ 32 \<Longrightarrow> unat (push_bit k (x :: u32)) = unat x * 2 ^ k"
proof -
  assume a: "unat x * 2 ^ k < 2 ^ 32"
  have "push_bit k x = of_nat (unat x * 2 ^ k)" by (simp add: push_bit_eq_mult)
  then show ?thesis using unat_of_nat_32 [OF a] by simp
qed

lemma unat_add_mod:
  assumes "k \<le> 32"
  shows "unat (a + b :: u32) mod 2 ^ k = (unat a + unat b) mod 2 ^ k"
proof -
  have "unat (a + b) = (unat a + unat b) mod 2 ^ 32" using unat_word_ariths(1) [of a b] by simp
  moreover have "(2 :: nat) ^ k dvd 2 ^ 32" using assms by (rule le_imp_power_dvd)
  ultimately show ?thesis by (simp add: mod_mod_cancel)
qed

lemma mod_add_inj: "(a + i) mod s = (a + j) mod s \<Longrightarrow> i < s \<Longrightarrow> j < s \<Longrightarrow> i = (j :: nat)"
proof (induction i j rule: linorder_wlog)
  case (le i j)
  have "s dvd (a + j) - (a + i)" using le mod_eq_dvd_iff_nat [of "a + i" "a + j" s] by simp
  then have "s dvd j - i" by simp
  then show ?case using le dvd_imp_le [of s "j - i"] by (cases "i = j") auto
qed (metis)

lemma unat_mult_32: "unat a * unat b < 2 ^ 32 \<Longrightarrow> unat (a * b :: u32) = unat a * unat b"
  using unat_mult_lem [of a b] by simp

lemma unat_mask_32: "k < 32 \<Longrightarrow> unat (mask k :: u32) = 2 ^ k - 1"
proof -
  assume k: "k < 32"
  have "(1 :: u32) \<le> 2 ^ k" using k by (simp add: word_le_nat_alt unat_exp_32)
  then have "unat (2 ^ k - 1 :: u32) = 2 ^ k - 1" using k by (simp add: unat_sub unat_exp_32)
  then show ?thesis by (simp add: mask_eq_exp_minus_1)
qed

lemma unat_ucast_8: "unat (ucast (a :: u8) :: u32) = unat a"
proof -
  have "unat a < 2 ^ 8" using unsigned_less [of a] by simp
  then have "unat a < 2 ^ 32" by simp
  then show ?thesis by (simp add: unsigned_ucast_eq take_bit_nat_eq_self)
qed

lemma unat_div_round_up:
  fixes x e :: u32
  assumes "e \<noteq> 0" "unat x + unat e \<le> 2 ^ 32"
  shows "unat ((x + e - 1) div e) = (unat x + unat e - 1) div unat e"
proof -
  have "unat e \<noteq> 0" using assms(1) by (simp add: unat_eq_zero)
  then have "1 \<le> e" by (simp add: word_le_nat_alt)
  then have "unat (e - 1) = unat e - 1" by (simp add: unat_sub)
  then have "unat (x + (e - 1)) = unat x + unat e - 1" using assms \<open>unat e \<noteq> 0\<close> by (simp add: unat_add_32)
  then show ?thesis by (simp add: unat_div_distrib add_diff_eq)
qed

lemma mod_ring:
  fixes a j s :: nat
  assumes "j \<le> s" "0 < s"
  shows "(a + j) mod s = (if a mod s + j < s then a mod s + j else a mod s + j - s)"
proof -
  have o: "a mod s < s" using assms(2) by simp
  have "(a + j) mod s = (a mod s + j) mod s" by (simp add: mod_add_left_eq)
  moreover have "(a mod s + j) mod s = a mod s + j - s" if "\<not> a mod s + j < s"
  proof -
    have "(a mod s + j) mod s = (a mod s + j - s) mod s" using that by (intro le_mod_geq) linarith
    also have "\<dots> = a mod s + j - s" by (rule mod_less) (use o assms(1) that in linarith)
    finally show ?thesis .
  qed
  ultimately show ?thesis by simp
qed

end
