(* ===== verification/Bit_Ops.thy ===== *)
theory Bit_Ops
  imports Kernel_Prelude
begin

text \<open>
  Single-word and single-bit primitives: the mask macros of \<^verbatim>\<open>include/linux/bitops.h\<close> and
  \<^verbatim>\<open>include/linux/bitmap.h\<close>, the bit accessors of
  \<^verbatim>\<open>include/asm-generic/bitops/non-atomic.h\<close>, and the first/last set bit functions of
  \<^verbatim>\<open>arch/arm/include/asm/bitops.h\<close>.
  A bitmap is the list of its 32-bit words; bit numbers and word indices are naturals.
\<close>

type_synonym bitmap = "u32 list"

section \<open>Masks\<close>

definition BIT_MASK :: "nat \<Rightarrow> u32" where
  "BIT_MASK nr = push_bit (nr mod 32) 1"

definition BIT_WORD :: "nat \<Rightarrow> nat" where
  "BIT_WORD nr = nr div 32"

definition BITS_TO_LONGS :: "nat \<Rightarrow> nat" where
  "BITS_TO_LONGS nr = DIV_ROUND_UP nr (8 * 4)"

text \<open>\<^verbatim>\<open>~0UL << (start & 31)\<close> and \<^verbatim>\<open>~0UL >> (-nbits & 31)\<close>.\<close>

definition BITMAP_FIRST_WORD_MASK :: "nat \<Rightarrow> u32" where
  "BITMAP_FIRST_WORD_MASK start = push_bit (start mod 32) (- 1)"

definition BITMAP_LAST_WORD_MASK :: "nat \<Rightarrow> u32" where
  "BITMAP_LAST_WORD_MASK nbits = drop_bit (nat (- int nbits mod 32)) (- 1)"

section \<open>Bit accessors\<close>

definition set_bit_at :: "nat \<Rightarrow> bitmap \<Rightarrow> bitmap" where
  "set_bit_at nr addr = addr[BIT_WORD nr := addr ! BIT_WORD nr OR BIT_MASK nr]"

definition clear_bit_at :: "nat \<Rightarrow> bitmap \<Rightarrow> bitmap" where
  "clear_bit_at nr addr = addr[BIT_WORD nr := addr ! BIT_WORD nr AND NOT (BIT_MASK nr)]"

definition change_bit_at :: "nat \<Rightarrow> bitmap \<Rightarrow> bitmap" where
  "change_bit_at nr addr = addr[BIT_WORD nr := addr ! BIT_WORD nr XOR BIT_MASK nr]"

definition test_and_set_bit :: "nat \<Rightarrow> bitmap \<Rightarrow> bool \<times> bitmap" where
  "test_and_set_bit nr addr =
     (let m = BIT_MASK nr; old = addr ! BIT_WORD nr
      in (old AND m \<noteq> 0, addr[BIT_WORD nr := old OR m]))"

definition test_and_clear_bit :: "nat \<Rightarrow> bitmap \<Rightarrow> bool \<times> bitmap" where
  "test_and_clear_bit nr addr =
     (let m = BIT_MASK nr; old = addr ! BIT_WORD nr
      in (old AND m \<noteq> 0, addr[BIT_WORD nr := old AND NOT m]))"

definition test_and_change_bit :: "nat \<Rightarrow> bitmap \<Rightarrow> bool \<times> bitmap" where
  "test_and_change_bit nr addr =
     (let m = BIT_MASK nr; old = addr ! BIT_WORD nr
      in (old AND m \<noteq> 0, addr[BIT_WORD nr := old XOR m]))"

definition test_bit_at :: "nat \<Rightarrow> bitmap \<Rightarrow> bool" where
  "test_bit_at nr addr \<longleftrightarrow> (1 :: u32) AND drop_bit (nr mod 32) (addr ! BIT_WORD nr) \<noteq> 0"

section \<open>First and last set bit\<close>

text \<open>One stage of \<^verbatim>\<open>constant_fls\<close>: if none of the masked top bits is set, shift them out
  and lower \<open>r\<close> by the same amount.\<close>

fun fls_stage :: "nat \<Rightarrow> u32 \<Rightarrow> u32 \<times> nat \<Rightarrow> u32 \<times> nat" where
  "fls_stage k m (x, r) = (if x AND m = 0 then (push_bit k x, r - k) else (x, r))"

definition fls :: "u32 \<Rightarrow> nat" where
  "fls x =
     (if x = 0 then 0
      else snd (fls_stage 1 0x80000000 (fls_stage 2 0xc0000000 (fls_stage 4 0xf0000000
             (fls_stage 8 0xff000000 (fls_stage 16 0xffff0000 (x, 32)))))))"

definition fls' :: "u32 \<Rightarrow> nat" where
  "fls' x = fls x - 1"

definition ffs :: "u32 \<Rightarrow> nat" where
  "ffs x = fls (x AND - x)"

definition ffs' :: "u32 \<Rightarrow> nat" where
  "ffs' x = ffs x - 1"

definition ffz :: "u32 \<Rightarrow> nat" where
  "ffz x = ffs' (NOT x)"

section \<open>Lemmas: masks and accessors\<close>

lemma bit_BIT_MASK: "bit (BIT_MASK nr) n \<longleftrightarrow> n = nr mod 32"
  by (auto simp: BIT_MASK_def bit_exp_iff)

lemma bit_FIRST_WORD_MASK: "bit (BITMAP_FIRST_WORD_MASK start) n \<longleftrightarrow> start mod 32 \<le> n \<and> n < 32"
  by (auto simp: BITMAP_FIRST_WORD_MASK_def bit_not_iff bit_mask_iff)

lemma neg_mod_32: "nat (- int n mod 32) = (if n mod 32 = 0 then 0 else 32 - n mod 32)"
proof -
  obtain q r where n: "n = 32 * q + r" "r < 32" by (rule nat_div_mod_32E)
  have "- int n mod 32 = (if r = 0 then 0 else 32 - int r)"
  proof (cases "r = 0")
    case False
    have "- int n = 32 * (- int q - 1) + (32 - int r)" using n by simp
    also have "\<dots> mod 32 = (32 - int r) mod 32" by (rule mod_mult_self4)
    also have "\<dots> = 32 - int r" using False n by (intro mod_pos_pos_trivial) auto
    finally show ?thesis using False by simp
  qed (use n in simp)
  then show ?thesis using n by auto
qed

lemma bit_LAST_WORD_MASK:
  "bit (BITMAP_LAST_WORD_MASK nbits) n \<longleftrightarrow> n < (if nbits mod 32 = 0 then 32 else nbits mod 32)"
  unfolding BITMAP_LAST_WORD_MASK_def neg_mod_32
  by (auto simp: bit_mask_iff)

lemma BITS_TO_LONGS_eq: "BITS_TO_LONGS n = n div 32 + (if n mod 32 = 0 then 0 else 1)"
proof -
  obtain q r where "n = 32 * q + r" "r < 32" by (rule nat_div_mod_32E)
  then have "(n + 31) div 32 = n div 32 + (if n mod 32 = 0 then 0 else 1)"
    by (cases "r = 0") (auto intro: div_nat_eqI)
  then show ?thesis by (simp add: BITS_TO_LONGS_def DIV_ROUND_UP_def)
qed

lemma test_bit_at_iff: "test_bit_at nr addr \<longleftrightarrow> bit (addr ! (nr div 32)) (nr mod 32)"
  by (simp add: test_bit_at_def BIT_WORD_def and.commute [of 1] and_one_eq bit_iff_odd_drop_bit
      mod_2_eq_odd)

section \<open>Lemmas: first and last set bit\<close>

lemma bit_top_masks:
  "bit (0xffff0000 :: u32) n \<longleftrightarrow> 32 - 16 \<le> n \<and> n < 32"
  "bit (0xff000000 :: u32) n \<longleftrightarrow> 32 - 8 \<le> n \<and> n < 32"
  "bit (0xf0000000 :: u32) n \<longleftrightarrow> 32 - 4 \<le> n \<and> n < 32"
  "bit (0xc0000000 :: u32) n \<longleftrightarrow> 32 - 2 \<le> n \<and> n < 32"
  "bit (0x80000000 :: u32) n \<longleftrightarrow> 32 - 1 \<le> n \<and> n < 32"
proof -
  have eq: "(0xffff0000 :: u32) = push_bit (32 - 16) (- 1)"
    "(0xff000000 :: u32) = push_bit (32 - 8) (- 1)" "(0xf0000000 :: u32) = push_bit (32 - 4) (- 1)"
    "(0xc0000000 :: u32) = push_bit (32 - 2) (- 1)" "(0x80000000 :: u32) = push_bit (32 - 1) (- 1)"
    by (simp_all add: push_bit_eq_mult)
  have gen: "bit (push_bit k (- 1) :: u32) n \<longleftrightarrow> k \<le> n \<and> n < 32" for k
    by (auto simp: bit_not_iff bit_mask_iff)
  show "bit (0xffff0000 :: u32) n \<longleftrightarrow> 32 - 16 \<le> n \<and> n < 32" unfolding eq by (rule gen)
  show "bit (0xff000000 :: u32) n \<longleftrightarrow> 32 - 8 \<le> n \<and> n < 32" unfolding eq by (rule gen)
  show "bit (0xf0000000 :: u32) n \<longleftrightarrow> 32 - 4 \<le> n \<and> n < 32" unfolding eq by (rule gen)
  show "bit (0xc0000000 :: u32) n \<longleftrightarrow> 32 - 2 \<le> n \<and> n < 32" unfolding eq by (rule gen)
  show "bit (0x80000000 :: u32) n \<longleftrightarrow> 32 - 1 \<le> n \<and> n < 32" unfolding eq by (rule gen)
qed

lemma fls_stage_window:
  assumes top: "bit x h" "\<forall>n. bit x n \<longrightarrow> n \<le> h"
    and "r \<le> 32" "k \<le> r" "h < r"
    and m: "\<And>n. bit m n \<longleftrightarrow> 32 - k \<le> n \<and> n < 32"
  shows "fls_stage k m (push_bit (32 - r) x, r) =
     (push_bit (32 - (if h < r - k then r - k else r)) x, if h < r - k then r - k else r)"
proof -
  have "push_bit (32 - r) x AND m = 0 \<longleftrightarrow> h < r - k"
  proof
    assume "push_bit (32 - r) x AND m = 0"
    then have "\<not> bit (push_bit (32 - r) x AND m) (h + (32 - r))" by simp
    then show "h < r - k" using assms by (auto simp: bit_simps m)
  next
    assume "h < r - k"
    show "push_bit (32 - r) x AND m = 0"
    proof (rule bit_word_eqI)
      fix n
      assume "n < LENGTH(32)"
      have "\<not> bit x (n - (32 - r))" if "32 - k \<le> n"
      proof
        assume "bit x (n - (32 - r))"
        then have "n - (32 - r) \<le> h" using top by simp
        with that \<open>h < r - k\<close> \<open>r \<le> 32\<close> \<open>k \<le> r\<close> show False by linarith
      qed
      then show "bit (push_bit (32 - r) x AND m) n \<longleftrightarrow> bit 0 n" by (auto simp: bit_simps m)
    qed
  qed
  moreover have "32 - (r - k) = k + (32 - r)" using assms by simp
  ultimately show ?thesis by simp
qed

lemma highest_bitE:
  assumes "(x :: u32) \<noteq> 0"
  obtains h where "h < 32" "bit x h" "\<forall>n. bit x n \<longrightarrow> n \<le> h"
proof
  let ?S = "{n. n < 32 \<and> bit x n}"
  have fin: "finite ?S" by simp
  have ne: "?S \<noteq> {}" using assms word_not_zero_iff_bit [of x] by auto
  show "Max ?S < 32" "bit x (Max ?S)" using Max_in [OF fin ne] by auto
  show "\<forall>n. bit x n \<longrightarrow> n \<le> Max ?S"
    using Max_ge [OF fin] bit_imp_le_length [of x] by auto
qed

lemma fls_eq:
  assumes "bit x h" "\<forall>n. bit x n \<longrightarrow> n \<le> h"
  shows "fls x = Suc h"
proof -
  have h: "h < 32" using bit_imp_le_length [OF assms(1)] by simp
  have "x \<noteq> 0" using assms(1) by auto
  note st = fls_stage_window [OF assms]
  define r1 r2 r3 r4 where "r1 = (if h < 32 - 16 then 32 - 16 else (32::nat))"
    and "r2 = (if h < r1 - 8 then r1 - 8 else r1)"
    and "r3 = (if h < r2 - 4 then r2 - 4 else r2)"
    and "r4 = (if h < r3 - 2 then r3 - 2 else r3)"
  have w1: "h < r1" "r1 \<le> 32" "r1 \<le> h + 16" "16 \<le> r1" using h by (auto simp: r1_def)
  have w2: "h < r2" "r2 \<le> 32" "r2 \<le> h + 8" "8 \<le> r2" using w1 by (auto simp: r2_def)
  have w3: "h < r3" "r3 \<le> 32" "r3 \<le> h + 4" "4 \<le> r3" using w2 by (auto simp: r3_def)
  have w4: "h < r4" "r4 \<le> 32" "r4 \<le> h + 2" "2 \<le> r4" using w3 by (auto simp: r4_def)
  have "fls_stage 16 0xffff0000 (x, 32) = (push_bit (32 - r1) x, r1)"
    using st [OF _ _ _ bit_top_masks(1), of 32] h unfolding r1_def by (simp del: fls_stage.simps)
  moreover have "fls_stage 8 0xff000000 (push_bit (32 - r1) x, r1) = (push_bit (32 - r2) x, r2)"
    using st [OF _ _ _ bit_top_masks(2), of r1] w1 unfolding r2_def by (simp del: fls_stage.simps)
  moreover have "fls_stage 4 0xf0000000 (push_bit (32 - r2) x, r2) = (push_bit (32 - r3) x, r3)"
    using st [OF _ _ _ bit_top_masks(3), of r2] w2 unfolding r3_def by (simp del: fls_stage.simps)
  moreover have "fls_stage 2 0xc0000000 (push_bit (32 - r3) x, r3) = (push_bit (32 - r4) x, r4)"
    using st [OF _ _ _ bit_top_masks(4), of r3] w3 unfolding r4_def by (simp del: fls_stage.simps)
  moreover have "snd (fls_stage 1 0x80000000 (push_bit (32 - r4) x, r4)) = Suc h"
    using st [OF _ _ _ bit_top_masks(5), of r4] w4 by (auto simp del: fls_stage.simps)
  ultimately show ?thesis using \<open>x \<noteq> 0\<close> by (simp add: fls_def del: fls_stage.simps)
qed

lemma odd_and_uminus: "odd y \<Longrightarrow> y AND - y = 1" for y :: u32
proof (rule bit_word_eqI)
  fix n
  assume "odd y" and n: "n < LENGTH(32)"
  then have "bit (1 + (y - 1)) n \<longleftrightarrow> bit (y - 1) n \<or> n = 0"
    by (intro even_bit_succ_iff) simp
  then have "bit y n \<longleftrightarrow> bit (y - 1) n \<or> n = 0" by simp
  moreover have "bit (- y) n \<longleftrightarrow> \<not> bit (y - 1) n"
    using n by (simp add: minus_eq_not_minus_1 bit_not_iff)
  moreover have "\<not> bit (y - 1) 0" "bit y 0" using \<open>odd y\<close> by (simp_all add: bit_0)
  ultimately show "bit (y AND - y) n \<longleftrightarrow> bit 1 n"
    by (auto simp: bit_and_iff bit_1_iff)
qed

lemma and_uminus_lowest:
  assumes "bit x l" "\<forall>n<l. \<not> bit x n"
  shows "(x :: u32) AND - x = push_bit l 1"
proof -
  define y where "y = drop_bit l x"
  have x: "x = push_bit l y"
  proof (rule bit_word_eqI)
    show "bit x n \<longleftrightarrow> bit (push_bit l y) n" if "n < LENGTH(32)" for n
      using assms(2) that by (cases "n < l") (auto simp: y_def bit_push_bit_iff bit_drop_bit_eq)
  qed
  have "odd y" using assms(1) by (simp add: y_def bit_iff_odd_drop_bit)
  have "- x = push_bit l (- y)" by (simp add: x push_bit_minus)
  then have "x AND - x = push_bit l (y AND - y)" using x by (metis push_bit_and)
  with odd_and_uminus [OF \<open>odd y\<close>] show ?thesis by (simp only:)
qed

lemma lowest_bitE:
  assumes "(x :: u32) \<noteq> 0"
  obtains l where "l < 32" "bit x l" "\<forall>n<l. \<not> bit x n"
proof -
  obtain k where "bit x k" using assms word_not_zero_iff_bit [of x] by auto
  then have *: "bit x (LEAST n. bit x n)" "\<forall>n<(LEAST n. bit x n). \<not> bit x n"
    by (auto intro: LeastI dest: not_less_Least)
  show ?thesis using that [OF _ *] bit_imp_le_length [OF *(1)] by simp
qed

lemma ffs_eq:
  assumes "bit x l" "\<forall>n<l. \<not> bit x n"
  shows "ffs x = Suc l"
proof -
  have "l < 32" using bit_imp_le_length [OF assms(1)] by simp
  then have "bit (push_bit l 1 :: u32) n \<longleftrightarrow> n = l" for n
    by (auto simp: bit_exp_iff)
  then show ?thesis
    unfolding ffs_def and_uminus_lowest [OF assms] by (intro fls_eq) simp_all
qed

lemma ffs'_eq: "bit x l \<Longrightarrow> \<forall>n<l. \<not> bit x n \<Longrightarrow> ffs' x = l"
  by (simp add: ffs'_def ffs_eq)

lemma fls'_eq: "bit x h \<Longrightarrow> \<forall>n. bit x n \<longrightarrow> n \<le> h \<Longrightarrow> fls' x = h"
  by (simp add: fls'_def fls_eq)

lemma bit_ffs': "x \<noteq> 0 \<Longrightarrow> bit x (ffs' x) \<and> ffs' x < 32 \<and> (\<forall>n<ffs' x. \<not> bit x n)"
  by (erule lowest_bitE) (simp add: ffs'_eq)

lemma bit_fls': "x \<noteq> 0 \<Longrightarrow> bit x (fls' x) \<and> fls' x < 32 \<and> (\<forall>n. bit x n \<longrightarrow> n \<le> fls' x)"
  by (erule highest_bitE) (simp add: fls'_eq)

lemma bit_ffz:
  assumes "x \<noteq> - 1"
  shows "\<not> bit x (ffz x) \<and> ffz x < 32 \<and> (\<forall>n<ffz x. bit x n)"
proof -
  have "NOT x \<noteq> 0" using assms by (metis bit.compl_zero bit.double_compl)
  from bit_ffs' [OF this] show ?thesis by (auto simp: ffz_def bit_not_iff)
qed

section \<open>Lemmas: bit accessors\<close>

lemma div_mod_32_eq: "i = j \<longleftrightarrow> i div 32 = j div 32 \<and> i mod 32 = j mod (32::nat)"
  by (metis div_mult_mod_eq)

lemma length_set_bit_at [simp]: "length (set_bit_at nr m) = length m"
  by (simp add: set_bit_at_def)

lemma length_clear_bit_at [simp]: "length (clear_bit_at nr m) = length m"
  by (simp add: clear_bit_at_def)

lemma test_bit_at_update:
  "nr < 32 * length m \<Longrightarrow>
   test_bit_at i (m[nr div 32 := w]) \<longleftrightarrow> (if i div 32 = nr div 32 then bit w (i mod 32) else test_bit_at i m)"
  by (simp add: test_bit_at_iff nth_list_update)

lemma test_set_bit_at [bitmap_simps]:
  assumes "nr < 32 * length m"
  shows "test_bit_at i (set_bit_at nr m) \<longleftrightarrow> i = nr \<or> test_bit_at i m"
  unfolding set_bit_at_def BIT_WORD_def test_bit_at_update [OF assms] bit_or_iff bit_BIT_MASK
    test_bit_at_iff [of i m]
  by (metis div_mod_32_eq)

lemma test_clear_bit_at [bitmap_simps]:
  assumes "nr < 32 * length m"
  shows "test_bit_at i (clear_bit_at nr m) \<longleftrightarrow> i \<noteq> nr \<and> test_bit_at i m"
  unfolding clear_bit_at_def BIT_WORD_def test_bit_at_update [OF assms] bit_and_iff bit_not_iff
    bit_BIT_MASK test_bit_at_iff [of i m]
  by (metis div_mod_32_eq bit_imp_possible_bit)

lemma test_change_bit_at [bitmap_simps]:
  assumes "nr < 32 * length m"
  shows "test_bit_at i (change_bit_at nr m) \<longleftrightarrow> (i = nr) \<noteq> test_bit_at i m"
  unfolding change_bit_at_def BIT_WORD_def test_bit_at_update [OF assms] bit_xor_iff
    bit_BIT_MASK test_bit_at_iff [of i m]
  by (metis div_mod_32_eq)

lemma and_BIT_MASK_nonzero: "w AND BIT_MASK nr \<noteq> 0 \<longleftrightarrow> bit w (nr mod 32)"
  by (auto simp: word_not_zero_iff_bit bit_simps bit_BIT_MASK)

lemma test_and_ops:
  "test_and_set_bit nr m = (test_bit_at nr m, set_bit_at nr m)"
  "test_and_clear_bit nr m = (test_bit_at nr m, clear_bit_at nr m)"
  "test_and_change_bit nr m = (test_bit_at nr m, change_bit_at nr m)"
  by (simp_all add: test_and_set_bit_def test_and_clear_bit_def test_and_change_bit_def Let_def
      set_bit_at_def clear_bit_at_def change_bit_at_def test_bit_at_iff BIT_WORD_def
      and_BIT_MASK_nonzero)
end
