(* ===== verification/Hamming_Weight.thy ===== *)
theory Hamming_Weight
  imports Bit_Ops
begin

text \<open>
  The population count of \<^verbatim>\<open>lib/hweight.c\<close>: the shift-and-mask routines that add
  neighbouring 1-, 2-, 4- and 8-bit fields of the word. A word is read as its list of base
  \<open>2^k\<close> digits; each stage adds the digits in pairs, and so keeps their sum.
\<close>

section \<open>Hamming weight\<close>

definition sw_hweight32 :: "u32 \<Rightarrow> u32" where
  "sw_hweight32 w =
     (let res = w - (drop_bit 1 w AND 0x55555555);
          res = (res AND 0x33333333) + (drop_bit 2 res AND 0x33333333);
          res = (res + drop_bit 4 res) AND 0x0F0F0F0F;
          res = res + drop_bit 8 res
      in (res + drop_bit 16 res) AND 0x000000FF)"

definition sw_hweight16 :: "u32 \<Rightarrow> u32" where
  "sw_hweight16 w =
     (let res = w - (drop_bit 1 w AND 0x5555);
          res = (res AND 0x3333) + (drop_bit 2 res AND 0x3333);
          res = (res + drop_bit 4 res) AND 0x0F0F
      in (res + drop_bit 8 res) AND 0x00FF)"

definition sw_hweight8 :: "u32 \<Rightarrow> u32" where
  "sw_hweight8 w =
     (let res = w - (drop_bit 1 w AND 0x55);
          res = (res AND 0x33) + (drop_bit 2 res AND 0x33)
      in (res + drop_bit 4 res) AND 0x0F)"

definition sw_hweight64 :: "u64 \<Rightarrow> u32" where
  "sw_hweight64 w = sw_hweight32 (ucast (drop_bit 32 w)) + sw_hweight32 (ucast w)"

definition hweight_long :: "u32 \<Rightarrow> nat" where
  "hweight_long w = unat (sw_hweight32 w)"

section \<open>Fields of a word as digits\<close>

primrec digits_val :: "nat \<Rightarrow> nat list \<Rightarrow> nat" where
  "digits_val B [] = 0"
| "digits_val B (d # ds) = d + B * digits_val B ds"

fun pair_sums :: "nat list \<Rightarrow> nat list" where
  "pair_sums (a # b # ds) = (a + b) # pair_sums ds"
| "pair_sums ds = ds"

fun evens :: "nat list \<Rightarrow> nat list" where
  "evens (a # b # ds) = a # evens ds"
| "evens ds = ds"

lemma and_split_low:
  fixes a b c d :: nat
  assumes "a < 2 ^ k" "c < 2 ^ k"
  shows "(a + 2 ^ k * b) AND (c + 2 ^ k * d) = (a AND c) + 2 ^ k * (b AND d)"
proof -
  have t: "take_bit k (x + 2 ^ k * y) = x" "drop_bit k (x + 2 ^ k * y) = y" if "x < 2 ^ k" for x y :: nat
    using that by (simp_all add: take_bit_eq_mod drop_bit_eq_div)
  let ?x = "(a + 2 ^ k * b) AND (c + 2 ^ k * d)"
  have "take_bit k ?x = a AND c" "drop_bit k ?x = b AND d"
    using assms by (simp_all add: t)
  then show ?thesis using bits_ident [of k ?x] by (simp add: push_bit_eq_mult algebra_simps)
qed

lemma digits_val_less: "\<forall>d\<in>set ds. d < B \<Longrightarrow> digits_val B ds < B ^ length ds"
proof (induction ds)
  case (Cons d ds)
  then have "digits_val B ds + 1 \<le> B ^ length ds" by simp
  then have "B * (digits_val B ds + 1) \<le> B * B ^ length ds" by (rule mult_le_mono2)
  moreover have "d < B" using Cons.prems by simp
  ultimately show ?case by simp
qed simp

lemma two_power_double: "(2 :: nat) ^ (2 * k) = 2 ^ k * 2 ^ k"
  by (simp add: mult_2 power_add)

lemma digits_val_and_evens:
  assumes "\<forall>d\<in>set ds. d < 2 ^ k" "even (length ds)"
  shows "digits_val (2 ^ k) ds AND digits_val (2 ^ (2 * k)) (replicate (length ds div 2) (2 ^ k - 1)) =
    digits_val (2 ^ (2 * k)) (evens ds)"
  using assms
proof (induction ds rule: evens.induct)
  case (1 a b ds)
  have two_k: "digits_val (2 ^ k) (a # b # ds) = (a + 2 ^ k * b) + 2 ^ (2 * k) * digits_val (2 ^ k) ds"
    unfolding two_power_double by (simp add: algebra_simps)
  have m: "(2 :: nat) ^ k - 1 < 2 ^ (2 * k)"
    by (metis diff_less less_le_trans less_numeral_extra(1) mult_2 one_le_power one_less_numeral_iff
        power_increasing semiring_norm(76) le_add1 zero_less_numeral zero_less_power less_imp_le)
  have ab: "a + 2 ^ k * b < 2 ^ (2 * k)"
  proof -
    have "a + 2 ^ k * b < 2 ^ k + 2 ^ k * b" using "1.prems" by simp
    also have "\<dots> = 2 ^ k * (b + 1)" by simp
    also have "\<dots> \<le> 2 ^ k * 2 ^ k" using "1.prems" by (intro mult_le_mono2) simp
    finally show ?thesis by (simp only: two_power_double)
  qed
  have lo: "(a + 2 ^ k * b) AND (2 ^ k - 1) = a"
  proof -
    have "(a + 2 ^ k * b) AND mask k = (a + 2 ^ k * b) mod 2 ^ k"
      by (simp only: take_bit_eq_mask [symmetric] take_bit_eq_mod)
    then show ?thesis using "1.prems" by (simp add: mask_eq_exp_minus_1)
  qed
  have "digits_val (2 ^ k) (a # b # ds) AND
      digits_val (2 ^ (2 * k)) (replicate (length (a # b # ds) div 2) (2 ^ k - 1)) =
    ((a + 2 ^ k * b) + 2 ^ (2 * k) * digits_val (2 ^ k) ds) AND
      ((2 ^ k - 1) + 2 ^ (2 * k) * digits_val (2 ^ (2 * k)) (replicate (length ds div 2) (2 ^ k - 1)))"
    by (subst two_k) simp
  also have "\<dots> = a + 2 ^ (2 * k) * digits_val (2 ^ (2 * k)) (evens ds)"
    unfolding and_split_low [OF ab m] lo using "1.IH" "1.prems" by simp
  finally show ?case by simp
qed simp_all

lemma digits_val_tl: "0 < B \<Longrightarrow> \<forall>d\<in>set ds. d < B \<Longrightarrow> digits_val B ds div B = digits_val B (tl ds)"
  by (cases ds) auto

lemma digits_val_snoc_0: "digits_val B (ds @ [0]) = digits_val B ds"
  by (induction ds) auto

lemma digits_val_odds_Cons:
  "digits_val B (evens (tl (a # b # ds) @ [0])) = b + B * digits_val B (evens (tl ds @ [0]))"
  by (cases ds) auto

lemma digits_val_evens_odds:
  "even (length ds) \<Longrightarrow>
   digits_val (B * B) (evens ds) + B * digits_val (B * B) (evens (tl ds @ [0])) = digits_val B ds"
proof (induction ds rule: evens.induct)
  case (1 a b ds)
  with digits_val_odds_Cons [of "B * B" a b ds] show ?case
    by (simp add: algebra_simps flip: distrib_left)
qed simp_all

lemma digits_val_pair_sums:
  "even (length ds) \<Longrightarrow>
   digits_val B (evens ds) + digits_val B (evens (tl ds @ [0])) = digits_val B (pair_sums ds)"
proof (induction ds rule: evens.induct)
  case (1 a b ds)
  with digits_val_odds_Cons [of B a b ds] show ?case
    by (simp add: algebra_simps flip: distrib_left)
qed simp_all

lemma evens_shift_add:
  "even (length ds) \<Longrightarrow> evens (map2 (+) ds (tl ds @ [0])) = pair_sums ds"
proof (induction ds rule: evens.induct)
  case (1 a b ds)
  then show ?case by (cases ds) auto
qed simp_all

lemma digits_val_add:
  "length xs = length ys \<Longrightarrow> digits_val B xs + digits_val B ys = digits_val B (map2 (+) xs ys)"
  by (induction xs ys rule: list_induct2) (auto simp: algebra_simps simp flip: distrib_left)

lemma sum_list_pair_sums: "sum_list (pair_sums ds) = sum_list ds"
  by (induction ds rule: pair_sums.induct) auto

lemma length_pair_sums: "even (length ds) \<Longrightarrow> length (pair_sums ds) = length ds div 2"
  by (induction ds rule: pair_sums.induct) auto

lemma pair_sums_bound: "\<forall>d\<in>set ds. d \<le> n \<Longrightarrow> \<forall>d\<in>set (pair_sums ds). d \<le> 2 * n"
  by (induction ds rule: pair_sums.induct) auto

text \<open>One stage: with base-\<open>2^k\<close> digits, adding neighbouring fields gives the pairwise sums
  as base-\<open>4^k\<close> digits.\<close>

lemma field_add:
  assumes "\<forall>d\<in>set ds. d < 2 ^ k" "even (length ds)"
    and M: "M = digits_val (2 ^ (2 * k)) (replicate (length ds div 2) (2 ^ k - 1))"
    and x: "x = digits_val (2 ^ k) ds"
  shows "(x AND M) + (x div 2 ^ k AND M) = digits_val (2 ^ (2 * k)) (pair_sums ds)"
    and "x = (x AND M) + 2 ^ k * (x div 2 ^ k AND M)"
proof -
  have lo: "x AND M = digits_val (2 ^ (2 * k)) (evens ds)"
    unfolding M x by (rule digits_val_and_evens [OF assms(1,2)])
  have hi: "x div 2 ^ k AND M = digits_val (2 ^ (2 * k)) (evens (tl ds @ [0]))"
  proof (cases ds)
    case Nil
    then show ?thesis by (simp add: x)
  next
    case (Cons d ds')
    have "x div 2 ^ k = digits_val (2 ^ k) (tl ds @ [0])"
      using assms(1) by (simp add: x digits_val_tl digits_val_snoc_0)
    moreover have "length (tl ds @ [0]) = length ds" using Cons by simp
    ultimately show ?thesis
      using digits_val_and_evens [of "tl ds @ [0]" k] assms(1,2) Cons unfolding M by simp
  qed
  show "(x AND M) + (x div 2 ^ k AND M) = digits_val (2 ^ (2 * k)) (pair_sums ds)"
    unfolding lo hi by (rule digits_val_pair_sums [OF assms(2)])
  show "x = (x AND M) + 2 ^ k * (x div 2 ^ k AND M)"
    unfolding lo hi two_power_double digits_val_evens_odds [OF assms(2)] by (rule x)
qed

lemma field_add_late:
  assumes "\<forall>d\<in>set ds. 2 * d < 2 ^ k" "even (length ds)" "ds \<noteq> []"
    and M: "M = digits_val (2 ^ (2 * k)) (replicate (length ds div 2) (2 ^ k - 1))"
    and x: "x = digits_val (2 ^ k) ds"
  shows "(x + x div 2 ^ k) AND M = digits_val (2 ^ (2 * k)) (pair_sums ds)"
proof -
  have d: "\<forall>d\<in>set ds. d < 2 ^ k" using assms(1) by auto
  have len: "length ds = length (tl ds @ [0])" using assms(3) by simp
  have "x + x div 2 ^ k = digits_val (2 ^ k) (map2 (+) ds (tl ds @ [0]))"
    using d by (simp add: x digits_val_tl digits_val_snoc_0 digits_val_add [OF len, symmetric])
  moreover have "\<forall>d\<in>set (map2 (+) ds (tl ds @ [0])). d < 2 ^ k"
  proof
    fix e assume "e \<in> set (map2 (+) ds (tl ds @ [0]))"
    then obtain a b where ab: "(a, b) \<in> set (zip ds (tl ds @ [0]))" and e: "e = a + b" by auto
    have "a \<in> set ds" "b \<in> insert 0 (set ds)"
      using set_zip_leftD [OF ab] set_zip_rightD [OF ab] list.set_sel(2) [OF assms(3)] by auto
    then have "2 * a < 2 ^ k" "2 * b < 2 ^ k" using assms(1) by auto
    with e show "e < 2 ^ k" by linarith
  qed
  moreover have "length (map2 (+) ds (tl ds @ [0])) = length ds" using assms(3) by simp
  ultimately show ?thesis
    using digits_val_and_evens [of "map2 (+) ds (tl ds @ [0])" k] assms(2)
    unfolding M by (simp add: evens_shift_add del: length_map length_zip)
qed

lemma unat_and_le: "unat (x AND c) \<le> unat (c :: u32)"
  using word_and_le1 [of x c] by (simp add: word_le_nat_alt)

lemma unat_sw_hweight32:
  "unat (sw_hweight32 w) = 
    (let x1 = unat w - (unat w div 2 AND 0x55555555);
         x2 = (x1 AND 0x33333333) + (x1 div 4 AND 0x33333333);
         x3 = (x2 + x2 div 16) AND 0x0F0F0F0F;
         x4 = x3 + x3 div 256
     in (x4 + x4 div 65536) mod 256)"
proof -
  define y1 where "y1 = w - (drop_bit 1 w AND 0x55555555)"
  define y2 where "y2 = (y1 AND 0x33333333) + (drop_bit 2 y1 AND 0x33333333)"
  define y3 where "y3 = (y2 + drop_bit 4 y2) AND 0x0F0F0F0F"
  define y4 where "y4 = y3 + drop_bit 8 y3"
  have d: "unat (drop_bit n x) = unat x div 2 ^ n" for n and x :: u32
    by (subst unat_drop_bit_eq) (rule drop_bit_eq_div)
  have a: "unat (x AND y) = unat x AND unat y" for x y :: u32
    by (rule unsigned_and_eq)
  have add: "unat (x + y) = unat x + unat y" if "unat x + unat y < 4294967296" for x y :: u32
    using that by (simp add: unat_word_ariths)
  have le: "drop_bit 1 w AND 0x55555555 \<le> w"
  proof -
    have "drop_bit 1 w AND 0x55555555 \<le> drop_bit 1 w" by (rule word_and_le2)
    also have "\<dots> \<le> w" by (simp add: word_le_nat_alt d)
    finally show ?thesis .
  qed
  have 1: "unat y1 = unat w - (unat w div 2 AND 0x55555555)"
    using unat_sub [OF le] by (simp add: y1_def a d)
  have "unat (y1 AND 0x33333333) \<le> 0x33333333" "unat (drop_bit 2 y1 AND 0x33333333) \<le> 0x33333333"
    using unat_and_le [of y1 "0x33333333"] unat_and_le [of "drop_bit 2 y1" "0x33333333"] by simp_all
  then have 2: "unat y2 = (unat y1 AND 0x33333333) + (unat y1 div 4 AND 0x33333333)" "unat y2 \<le> 0x66666666"
    using add [of "y1 AND 0x33333333" "drop_bit 2 y1 AND 0x33333333"] by (simp_all add: y2_def a d)
  have "unat y2 div 16 \<le> 0x66666666" using 2(2) by linarith
  then have 3: "unat y3 = (unat y2 + unat y2 div 16) AND 0x0F0F0F0F"
    using add [of y2 "drop_bit 4 y2"] 2(2) by (simp add: y3_def a d)
  have "unat y3 \<le> 0x0F0F0F0F" using unat_and_le [of _ "0x0F0F0F0F"] by (simp add: y3_def)
  moreover from this have "unat y3 div 256 \<le> 0x0F0F0F0F" by linarith
  ultimately have 4: "unat y4 = unat y3 + unat y3 div 256" "unat y4 \<le> 0x1E1E1E1E"
    using add [of y3 "drop_bit 8 y3"] by (simp_all add: y4_def d)
  have "unat y4 div 65536 \<le> 0x1E1E1E1E" using 4(2) by linarith
  then have "unat (y4 + drop_bit 16 y4) = unat y4 + unat y4 div 65536"
    using add [of y4 "drop_bit 16 y4"] 4(2) by (simp add: d)
  moreover have "unat (z AND 0xFF) = unat z mod 256" for z :: u32
  proof -
    have "(0xFF :: nat) = mask 8" by (simp add: mask_eq_exp_minus_1)
    then have "unat z AND 0xFF = take_bit 8 (unat z)" by (simp only: take_bit_eq_mask)
    then show ?thesis by (simp add: a take_bit_eq_mod)
  qed
  ultimately have 5: "unat ((y4 + drop_bit 16 y4) AND 0xFF) = (unat y4 + unat y4 div 65536) mod 256"
    by simp
  have "sw_hweight32 w = (y4 + drop_bit 16 y4) AND 0xFF"
    by (simp only: sw_hweight32_def Let_def y1_def y2_def y3_def y4_def)
  then show ?thesis unfolding Let_def 5 4 3 2 1 by (simp only: 5 4 3 2 1)
qed

lemma byte_sums:
  fixes e0 e1 e2 e3 :: nat
  assumes "e0 \<le> 8" "e1 \<le> 8" "e2 \<le> 8" "e3 \<le> 8"
    and x: "x = e0 + 256 * e1 + 65536 * e2 + 16777216 * e3"
  shows "(x + x div 256 + (x + x div 256) div 65536) mod 256 = e0 + e1 + e2 + e3"
proof -
  have 1: "x div 256 = e1 + 256 * e2 + 65536 * e3" using assms by linarith
  have 2: "(x + x div 256) div 65536 = e2 + 256 * e3 + e3" unfolding 1 using assms by linarith
  have "x + x div 256 + y =
      (e0 + e1 + e2 + e3) + 256 * (e1 + 256 * e2 + 65536 * e3 + e2 + 256 * e3 + e3)"
    if "y = e2 + 256 * e3 + e3" for y
    by (simp only: 1 that) (simp add: x)
  from this [OF 2] show ?thesis using assms(1-4) by (simp only: mod_mult_self2) simp
qed

lemma sw_hweight32_card: "unat (sw_hweight32 w) = card {n. n < 32 \<and> bit w n}"
proof -
  define bs where "bs = map (\<lambda>n. of_bool (bit w n) :: nat) [0..<32]"
  define cs where "cs = pair_sums bs"
  define ds where "ds = pair_sums cs"
  define es where "es = pair_sums ds"
  have len: "length bs = 32" "length cs = 16" "length ds = 8" "length es = 4"
    by (simp_all add: bs_def cs_def ds_def es_def length_pair_sums)
  have b1: "\<forall>d\<in>set bs. d \<le> 1" by (auto simp: bs_def)
  have c2: "\<forall>d\<in>set cs. d \<le> 2" using pair_sums_bound [OF b1] by (simp add: cs_def)
  have d4: "\<forall>d\<in>set ds. d \<le> 4" using pair_sums_bound [OF c2] by (simp add: ds_def)
  have e8: "\<forall>d\<in>set es. d \<le> 8" using pair_sums_bound [OF d4] by (simp add: es_def)
  have sum: "sum_list es = card {n. n < 32 \<and> bit w n}"
  proof -
    have "sum_list es = sum_list bs" by (simp add: es_def ds_def cs_def sum_list_pair_sums)
    also have "\<dots> = (\<Sum>n<32. of_bool (bit w n))"
      by (simp add: bs_def interv_sum_list_conv_sum_set_nat atLeast0LessThan del: upt_conv_Cons)
    also have "\<dots> = card ({..<32} \<inter> {n. bit w n})" by (subst sum_of_bool_eq) simp_all
    also have "{..<32} \<inter> {n. bit w n} = {n. n < 32 \<and> bit w n}" by auto
    finally show ?thesis .
  qed
  define x0 where "x0 = unat w"
  define x1 where "x1 = x0 - (x0 div 2 AND 0x55555555)"
  define x2 where "x2 = (x1 AND 0x33333333) + (x1 div 4 AND 0x33333333)"
  define x3 where "x3 = (x2 + x2 div 16) AND 0x0F0F0F0F"
  have reps: "replicate 16 x = [x, x, x, x, x, x, x, x, x, x, x, x, x, x, x, x]"
    "replicate 8 x = [x, x, x, x, x, x, x, x]"
    "replicate 4 x = [x, x, x, x]" for x :: nat
    by (simp_all add: numeral_eq_Suc)
  have M: "(0x55555555 :: nat) = digits_val (2 ^ (2 * 1)) (replicate (length bs div 2) (2 ^ 1 - 1))"
    "(0x33333333 :: nat) = digits_val (2 ^ (2 * 2)) (replicate (length cs div 2) (2 ^ 2 - 1))"
    "(0x0F0F0F0F :: nat) = digits_val (2 ^ (2 * 4)) (replicate (length ds div 2) (2 ^ 4 - 1))"
    by (simp_all add: len reps)
  have x0: "x0 = digits_val (2 ^ 1) bs"
  proof -
    have "digits_val 2 (map of_bool ps) = horner_sum of_bool 2 ps" for ps
      by (induction ps) auto
    moreover have "bit w = bit (unat w)" by (rule ext) (simp add: bit_unsigned_iff)
    moreover have "unat w < 2 ^ LENGTH(32)" by (rule unsigned_less)
    then have "take_bit 32 (unat w) = unat w" by (simp add: take_bit_eq_mod)
    moreover have "bs = map of_bool (map (bit w) [0..<32])" by (simp add: bs_def o_def)
    ultimately show ?thesis by (simp add: x0_def horner_sum_bit_eq_take_bit del: map_map)
  qed
  have x1: "x1 = digits_val (2 ^ 2) cs"
  proof -
    have "\<forall>d\<in>set bs. d < 2 ^ 1" using b1 by auto
    from field_add [OF this _ M(1) x0] len show ?thesis by (simp add: x1_def cs_def)
  qed
  have x2: "x2 = digits_val (2 ^ 4) ds"
    using field_add(1) [OF _ _ M(2) x1] c2 len by (force simp: x2_def ds_def)
  have x3: "x3 = digits_val (2 ^ 8) es"
    using field_add_late [OF _ _ _ M(3) x2] d4 len by (force simp: x3_def es_def)
  obtain e0 e1 e2 e3 where es: "es = [e0, e1, e2, e3]"
    using len(4) by (auto simp: length_Suc_conv numeral_eq_Suc)
  have "unat (sw_hweight32 w) = (x3 + x3 div 256 + (x3 + x3 div 256) div 65536) mod 256"
    unfolding unat_sw_hweight32 Let_def x3_def x2_def x1_def x0_def by (rule refl)
  also have "\<dots> = e0 + e1 + e2 + e3"
    by (rule byte_sums) (use e8 x3 in \<open>simp_all add: es\<close>)
  finally show ?thesis using sum by (simp add: es)
qed

lemma hweight_long_card: "hweight_long w = card {n. n < 32 \<and> bit w n}"
  by (simp add: hweight_long_def sw_hweight32_card)

lemma hweight_long_le: "hweight_long w \<le> 32"
proof -
  have "card {n. n < 32 \<and> bit w n} \<le> card {..<32::nat}" by (rule card_mono) auto
  then show ?thesis by (simp add: hweight_long_card)
qed

lemma sw_hweight64_card: "unat (sw_hweight64 w) = card {n. n < 64 \<and> bit w n}"
proof -
  define hi :: u32 where "hi = ucast (drop_bit 32 w)"
  define lo :: u32 where "lo = ucast w"
  have le: "unat (sw_hweight32 x) \<le> 32" for x using hweight_long_le by (simp add: hweight_long_def)
  have "unat (sw_hweight64 w) = unat (sw_hweight32 hi) + unat (sw_hweight32 lo)"
    using le [of hi] le [of lo]
    by (simp add: sw_hweight64_def hi_def lo_def unat_word_ariths)
  also have "\<dots> = card {n. n < 32 \<and> bit w (n + 32)} + card {n. n < 32 \<and> bit w n}"
    by (simp add: sw_hweight32_card hi_def lo_def bit_ucast_iff bit_drop_bit_eq add.commute cong: conj_cong)
  also have "card {n. n < 32 \<and> bit w (n + 32)} = card ((\<lambda>n. n + 32) ` {n. n < 32 \<and> bit w (n + 32)})"
    by (simp add: card_image)
  also have "(\<lambda>n. n + 32) ` {n. n < 32 \<and> bit w (n + 32)} = {n. 32 \<le> n \<and> n < 64 \<and> bit w n}"
  proof (intro equalityI subsetI)
    fix n assume "n \<in> {n. 32 \<le> n \<and> n < 64 \<and> bit w n}"
    then show "n \<in> (\<lambda>n. n + 32) ` {n. n < 32 \<and> bit w (n + 32)}"
      by (intro image_eqI [of _ _ "n - 32"]) auto
  qed auto
  also have "card \<dots> + card {n. n < 32 \<and> bit w n} =
      card ({n. 32 \<le> n \<and> n < 64 \<and> bit w n} \<union> {n. n < 32 \<and> bit w n})"
    by (subst card_Un_disjoint) auto
  also have "{n. 32 \<le> n \<and> n < 64 \<and> bit w n} \<union> {n. n < 32 \<and> bit w n} = {n. n < 64 \<and> bit w n}"
    by auto
  finally show ?thesis .
qed

section \<open>Properties\<close>

text \<open>C40: the carry-save adder tree of \<^verbatim>\<open>__sw_hweight32\<close> counts the set bits of its
  argument, and \<^verbatim>\<open>__sw_hweight64\<close>, which adds the two halves, counts those of a 64-bit word.\<close>

theorem sw_hweight_counts:
  "unat (sw_hweight32 w) = card {n. n < 32 \<and> bit w n} \<and>
   unat (sw_hweight64 v) = card {n. n < 64 \<and> bit v n}"
  by (simp add: sw_hweight32_card sw_hweight64_card)

end
