(* ===== verification/Find_Bit.thy ===== *)
theory Find_Bit
  imports Hamming_Weight
begin

text \<open>
  Bit search, \<^verbatim>\<open>lib/find_bit.c\<close>: the next, first and last set or clear bit of a bitmap.
  Every search is shown equal to \<open>next_index\<close> (or to its mirror image), the least index
  of a half-open interval that satisfies a predicate, or the end of the interval.
\<close>

section \<open>Bit search\<close>

function find_next_bit_loop :: "bitmap \<Rightarrow> nat \<Rightarrow> u32 \<Rightarrow> nat \<Rightarrow> u32 \<Rightarrow> nat" where
  "find_next_bit_loop addr nbits invert start tmp =
     (if tmp = 0
      then (if start + 32 \<ge> nbits then nbits
            else find_next_bit_loop addr nbits invert (start + 32) (addr ! ((start + 32) div 32) XOR invert))
      else min (start + ffs' tmp) nbits)"
  by pat_completeness auto
termination by (relation "measure (\<lambda>(addr, nbits, invert, start, tmp). nbits - start)") auto

declare find_next_bit_loop.simps [simp del]

definition find_next_bit_generic :: "bitmap \<Rightarrow> nat \<Rightarrow> nat \<Rightarrow> u32 \<Rightarrow> nat" where
  "find_next_bit_generic addr nbits start invert =
     (if nbits = 0 \<or> start \<ge> nbits then nbits
      else find_next_bit_loop addr nbits invert (start - start mod 32)
             ((addr ! (start div 32) XOR invert) AND BITMAP_FIRST_WORD_MASK start))"

definition find_next_bit :: "bitmap \<Rightarrow> nat \<Rightarrow> nat \<Rightarrow> nat" where
  "find_next_bit addr sz offset = find_next_bit_generic addr sz offset 0"

definition find_next_zero_bit :: "bitmap \<Rightarrow> nat \<Rightarrow> nat \<Rightarrow> nat" where
  "find_next_zero_bit addr sz offset = find_next_bit_generic addr sz offset (- 1)"

function find_first_loop :: "(u32 \<Rightarrow> bool) \<Rightarrow> (u32 \<Rightarrow> nat) \<Rightarrow> bitmap \<Rightarrow> nat \<Rightarrow> nat \<Rightarrow> nat" where
  "find_first_loop hit pos addr sz idx =
     (if idx * 32 < sz
      then (if hit (addr ! idx) then min (idx * 32 + pos (addr ! idx)) sz
            else find_first_loop hit pos addr sz (Suc idx))
      else sz)"
  by pat_completeness auto
termination by (relation "measure (\<lambda>(hit, pos, addr, sz, idx). sz - idx * 32)") auto

declare find_first_loop.simps [simp del]

definition find_first_bit :: "bitmap \<Rightarrow> nat \<Rightarrow> nat" where
  "find_first_bit addr sz = find_first_loop (\<lambda>w. w \<noteq> 0) ffs' addr sz 0"

definition find_first_zero_bit :: "bitmap \<Rightarrow> nat \<Rightarrow> nat" where
  "find_first_zero_bit addr sz = find_first_loop (\<lambda>w. w \<noteq> - 1) ffz addr sz 0"

text \<open>The \<^verbatim>\<open>do { ... } while (idx--)\<close> of \<^verbatim>\<open>find_last_bit\<close>, from word \<open>idx\<close> down
  to word 0.\<close>

fun find_last_loop :: "bitmap \<Rightarrow> nat \<Rightarrow> nat \<Rightarrow> u32 \<Rightarrow> nat" where
  "find_last_loop addr sz 0 val =
     (let val = val AND addr ! 0 in if val \<noteq> 0 then 0 * 32 + fls' val else sz)"
| "find_last_loop addr sz (Suc idx) val =
     (let val = val AND addr ! Suc idx
      in if val \<noteq> 0 then Suc idx * 32 + fls' val else find_last_loop addr sz idx (- 1))"

definition find_last_bit :: "bitmap \<Rightarrow> nat \<Rightarrow> nat" where
  "find_last_bit addr sz =
     (if sz \<noteq> 0 then find_last_loop addr sz ((sz - 1) div 32) (BITMAP_LAST_WORD_MASK sz)
      else sz)"

section \<open>The least index of an interval with a property\<close>

definition next_index :: "(nat \<Rightarrow> bool) \<Rightarrow> nat \<Rightarrow> nat \<Rightarrow> nat" where
  "next_index P s n = (case find P [s..<n] of None \<Rightarrow> n | Some i \<Rightarrow> i)"

lemma next_indexI:
  assumes "s \<le> r" "r \<le> n" "\<forall>i. s \<le> i \<and> i < r \<longrightarrow> \<not> P i" "r < n \<Longrightarrow> P r"
  shows "next_index P s n = r"
proof (cases "r < n")
  case True
  have "find P [s..<n] = Some r"
    unfolding find_Some_iff using assms True
    by (intro exI [of _ "r - s"]) auto
  then show ?thesis by (simp add: next_index_def)
next
  case False
  then have "find P [s..<n] = None" using assms by (auto simp: find_None_iff)
  then show ?thesis using False assms(2) by (simp add: next_index_def)
qed

lemma next_index_cases:
  assumes "s \<le> n"
  obtains (found) "s \<le> next_index P s n" "next_index P s n < n" "P (next_index P s n)"
      "\<forall>i. s \<le> i \<and> i < next_index P s n \<longrightarrow> \<not> P i"
    | (none) "next_index P s n = n" "\<forall>i. s \<le> i \<and> i < n \<longrightarrow> \<not> P i"
proof (cases "\<exists>i. s \<le> i \<and> i < n \<and> P i")
  case True
  let ?r = "LEAST i. s \<le> i \<and> i < n \<and> P i"
  have r: "s \<le> ?r \<and> ?r < n \<and> P ?r" using True by (rule LeastI_ex)
  have "\<not> P i" if "s \<le> i" "i < ?r" for i using not_less_Least [OF that(2)] that r by auto
  then have "next_index P s n = ?r" using r by (intro next_indexI) auto
  then show ?thesis using r \<open>\<And>i. _ \<Longrightarrow> _ \<Longrightarrow> \<not> P i\<close> by (intro found) auto
next
  case False
  then have "next_index P s n = n" using assms by (intro next_indexI) auto
  then show ?thesis using False by (intro none) auto
qed

lemma next_index_skip:
  assumes "s \<le> t" "t \<le> n" "\<forall>i. s \<le> i \<and> i < t \<longrightarrow> \<not> P i"
  shows "next_index P s n = next_index P t n"
  using assms(2)
proof (cases rule: next_index_cases [where P = P])
  case found
  then have "\<forall>i. s \<le> i \<and> i < next_index P t n \<longrightarrow> \<not> P i" using assms(3) by (metis not_less)
  then show ?thesis using assms found by (intro next_indexI) auto
next
  case none
  then have "\<forall>i. s \<le> i \<and> i < n \<longrightarrow> \<not> P i" using assms(3) by (metis not_less)
  then show ?thesis using assms none by (intro next_indexI) auto
qed

lemma next_index_le: "s \<le> n \<Longrightarrow> next_index P s n \<le> n"
  by (erule next_index_cases [where P = P]) auto

lemma next_index_ge: "s \<le> n \<Longrightarrow> s \<le> next_index P s n"
  by (rule next_index_cases [where P = P and s = s and n = n]) auto

lemma next_index_empty: "n \<le> s \<Longrightarrow> next_index P s n = n"
  by (simp add: next_index_def)

lemma next_index_cong: "(\<And>i. s \<le> i \<Longrightarrow> i < n \<Longrightarrow> P i = Q i) \<Longrightarrow> next_index P s n = next_index Q s n"
proof -
  assume "\<And>i. s \<le> i \<Longrightarrow> i < n \<Longrightarrow> P i = Q i"
  then have "find P [s..<n] = find Q [s..<n]" by (intro find_cong) auto
  then show ?thesis by (simp add: next_index_def)
qed

section \<open>The searches find the least index\<close>

text \<open>The bits of one word, from bit \<open>a\<close> on, decide the search inside that word.\<close>

lemma next_index_word:
  assumes tmp: "\<forall>j<32. bit tmp j \<longleftrightarrow> a \<le> j \<and> P (32 * q + j)" and a: "a \<le> 32" "32 * q + a \<le> n"
  shows "(tmp :: u32) \<noteq> 0 \<Longrightarrow> next_index P (32 * q + a) n = min (32 * q + ffs' tmp) n"
    "tmp = 0 \<Longrightarrow> 32 * q + 32 \<ge> n \<Longrightarrow> next_index P (32 * q + a) n = n"
    "tmp = 0 \<Longrightarrow> 32 * q + 32 \<le> n \<Longrightarrow> next_index P (32 * q + a) n = next_index P (32 * q + 32) n"
proof -
  have word: "\<not> P i" if "32 * q + a \<le> i" "i < 32 * q + k" "k \<le> 32" "\<forall>j<k. \<not> bit tmp j" for i k
  proof -
    have "i = 32 * q + (i - 32 * q)" "i - 32 * q < k" "a \<le> i - 32 * q" using that by auto
    with tmp that(3,4) show ?thesis by (metis order_less_le_trans)
  qed
  show "next_index P (32 * q + a) n = min (32 * q + ffs' tmp) n" if "tmp \<noteq> 0"
  proof (rule next_indexI)
    have f: "bit tmp (ffs' tmp)" "ffs' tmp < 32" "\<forall>n<ffs' tmp. \<not> bit tmp n"
      using bit_ffs' [OF that] by auto
    then have fa: "a \<le> ffs' tmp" "P (32 * q + ffs' tmp)" using tmp by auto
    show "32 * q + a \<le> min (32 * q + ffs' tmp) n" using a fa by simp
    show "\<forall>i. 32 * q + a \<le> i \<and> i < min (32 * q + ffs' tmp) n \<longrightarrow> \<not> P i"
      using word [where k = "ffs' tmp"] f by auto
    show "P (min (32 * q + ffs' tmp) n)" if "min (32 * q + ffs' tmp) n < n"
      using that fa by (simp add: min_def split: if_splits)
  qed simp
  show "next_index P (32 * q + a) n = n" if "tmp = 0" "32 * q + 32 \<ge> n"
    using that a word [where k = 32] by (intro next_indexI) auto
  show "next_index P (32 * q + a) n = next_index P (32 * q + 32) n" if "tmp = 0" "32 * q + 32 \<le> n"
    using that a word [where k = 32] by (intro next_index_skip) auto
qed

lemma find_next_bit_loop_eq:
  assumes "\<forall>j<32. bit tmp j \<longleftrightarrow> a \<le> j \<and> bit (addr ! q XOR invert) j" "a < 32" "32 * q + a < nbits"
  shows "find_next_bit_loop addr nbits invert (32 * q) tmp =
    next_index (\<lambda>i. bit (addr ! (i div 32) XOR invert) (i mod 32)) (32 * q + a) nbits"
  using assms
proof (induction "nbits - 32 * q" arbitrary: q tmp a rule: less_induct)
  case less
  let ?P = "\<lambda>i. bit (addr ! (i div 32) XOR invert) (i mod 32)"
  have tmp: "\<forall>j<32. bit tmp j \<longleftrightarrow> a \<le> j \<and> ?P (32 * q + j)" using less.prems(1) by simp
  have a: "a \<le> 32" "32 * q + a \<le> nbits" using less.prems by simp_all
  note word = next_index_word [OF tmp a]
  show ?case
  proof (cases "tmp = 0")
    case False
    then show ?thesis using word(1) by (simp add: find_next_bit_loop.simps [of _ _ _ _ tmp])
  next
    case True
    show ?thesis
    proof (cases "32 * q + 32 \<ge> nbits")
      case True
      then show ?thesis using \<open>tmp = 0\<close> word(2) by (subst find_next_bit_loop.simps) simp
    next
      case False
      let ?w = "addr ! Suc q XOR invert"
      have s: "32 * q + 32 = 32 * Suc q" by simp
      have "find_next_bit_loop addr nbits invert (32 * q) tmp =
          find_next_bit_loop addr nbits invert (32 * Suc q) ?w"
        using False \<open>tmp = 0\<close> by (subst find_next_bit_loop.simps) (simp add: s del: mult_Suc_right)
      also have "\<dots> = next_index ?P (32 * Suc q + 0) nbits"
        using False by (intro less.hyps) simp_all
      finally show ?thesis using word(3) \<open>tmp = 0\<close> False by (simp add: add.commute)
    qed
  qed
qed

lemma find_next_bit_generic_eq:
  assumes "start \<le> nbits"
  shows "find_next_bit_generic addr nbits start invert =
    next_index (\<lambda>i. bit (addr ! (i div 32) XOR invert) (i mod 32)) start nbits"
proof (cases "start = nbits")
  case True
  then show ?thesis by (simp add: find_next_bit_generic_def next_index_def)
next
  case False
  obtain q a where s: "start = 32 * q + a" "a < 32" by (rule nat_div_mod_32E)
  then have d: "start div 32 = q" "start mod 32 = a" "start - start mod 32 = 32 * q" by simp_all
  have "find_next_bit_loop addr nbits invert (32 * q)
      ((addr ! q XOR invert) AND BITMAP_FIRST_WORD_MASK start) =
    next_index (\<lambda>i. bit (addr ! (i div 32) XOR invert) (i mod 32)) (32 * q + a) nbits"
    using s False assms d by (intro find_next_bit_loop_eq) (auto simp: bit_and_iff bit_FIRST_WORD_MASK)
  then show ?thesis using False assms d s(1) by (simp add: find_next_bit_generic_def)
qed

lemma find_next_bit_eq:
  "offset \<le> sz \<Longrightarrow> find_next_bit addr sz offset = next_index (\<lambda>i. test_bit_at i addr) offset sz"
  by (simp add: find_next_bit_def find_next_bit_generic_eq test_bit_at_iff)

lemma find_next_zero_bit_eq:
  "offset \<le> sz \<Longrightarrow> find_next_zero_bit addr sz offset = next_index (\<lambda>i. \<not> test_bit_at i addr) offset sz"
  by (simp add: find_next_zero_bit_def find_next_bit_generic_eq test_bit_at_iff bit_not_iff)

lemma find_next_beyond:
  "sz \<le> offset \<Longrightarrow> find_next_bit addr sz offset = sz"
  "sz \<le> offset \<Longrightarrow> find_next_zero_bit addr sz offset = sz"
  by (simp_all add: find_next_bit_def find_next_zero_bit_def find_next_bit_generic_def)

lemma find_first_loop_eq:
  "find_first_loop (\<lambda>w. f w \<noteq> 0) (\<lambda>w. ffs' (f w)) addr sz idx =
    next_index (\<lambda>i. bit (f (addr ! (i div 32))) (i mod 32)) (32 * idx) sz"
proof (induction "sz - 32 * idx" arbitrary: idx rule: less_induct)
  case less
  let ?P = "\<lambda>i. bit (f (addr ! (i div 32))) (i mod 32)"
  show ?case
  proof (cases "32 * idx < sz")
    case False
    then show ?thesis by (subst find_first_loop.simps) (simp add: next_index_empty)
  next
    case True
    have tmp: "\<forall>j<32. bit (f (addr ! idx)) j \<longleftrightarrow> 0 \<le> j \<and> ?P (32 * idx + j)" by simp
    note word = next_index_word [OF tmp, of sz]
    have s: "32 * idx + 32 = 32 * Suc idx" by simp
    have rec: "find_first_loop (\<lambda>w. f w \<noteq> 0) (\<lambda>w. ffs' (f w)) addr sz (Suc idx) =
        next_index ?P (32 * Suc idx) sz" using True by (intro less) simp
    then have "find_first_loop (\<lambda>w. f w \<noteq> 0) (\<lambda>w. ffs' (f w)) addr sz (Suc idx) =
        next_index ?P (32 * idx) sz" if "f (addr ! idx) = 0"
      using word(2,3) that True unfolding s [symmetric]
      by (cases "32 * idx + 32 \<le> sz") (simp_all add: next_index_empty)
    then show ?thesis using True word(1)
      by (subst find_first_loop.simps) (simp add: mult.commute)
  qed
qed

lemma find_first_bit_eq: "find_first_bit addr sz = next_index (\<lambda>i. test_bit_at i addr) 0 sz"
  using find_first_loop_eq [of "\<lambda>w. w" addr sz 0] by (simp add: find_first_bit_def test_bit_at_iff)

lemma find_first_zero_bit_eq:
  "find_first_zero_bit addr sz = next_index (\<lambda>i. \<not> test_bit_at i addr) 0 sz"
proof -
  have "NOT w \<noteq> 0 \<longleftrightarrow> w \<noteq> - 1" for w :: u32 using bit.compl_eq_compl_iff [of w "- 1"] by simp
  then have "(\<lambda>w :: u32. w \<noteq> - 1) = (\<lambda>w. NOT w \<noteq> 0)" by simp
  moreover have "ffz = (\<lambda>w. ffs' (NOT w))" by (simp add: ffz_def fun_eq_iff)
  ultimately show ?thesis
    using find_first_loop_eq [of "\<lambda>w. NOT w" addr sz 0]
    by (simp add: find_first_zero_bit_def test_bit_at_iff bit_not_iff)
qed

lemma last_index_word:
  fixes v :: u32
  assumes v: "\<forall>j<32. bit v j \<longleftrightarrow> j < e \<and> P (32 * q + j)" and e: "e \<le> 32"
  shows "v \<noteq> 0 \<Longrightarrow> fls' v < e \<and> P (32 * q + fls' v) \<and>
      (\<forall>i. 32 * q + fls' v < i \<and> i < 32 * q + e \<longrightarrow> \<not> P i)"
    "v = 0 \<Longrightarrow> \<forall>i. 32 * q \<le> i \<and> i < 32 * q + e \<longrightarrow> \<not> P i"
proof -
  have word: "bit v (i - 32 * q)" if "32 * q \<le> i" "i < 32 * q + e" "P i" for i
  proof -
    have "32 * q + (i - 32 * q) = i" "i - 32 * q < e" "i - 32 * q < 32" using that e by auto
    with v that show ?thesis by metis
  qed
  show "\<forall>i. 32 * q \<le> i \<and> i < 32 * q + e \<longrightarrow> \<not> P i" if "v = 0" using word that by auto
  show "fls' v < e \<and> P (32 * q + fls' v) \<and> (\<forall>i. 32 * q + fls' v < i \<and> i < 32 * q + e \<longrightarrow> \<not> P i)"
    if "v \<noteq> 0"
  proof (intro conjI allI impI notI)
    have f: "bit v (fls' v)" "fls' v < 32" "\<forall>n. bit v n \<longrightarrow> n \<le> fls' v" using bit_fls' [OF that] by auto
    with v show "fls' v < e" "P (32 * q + fls' v)" by blast+
    fix i assume i: "32 * q + fls' v < i \<and> i < 32 * q + e" and "P i"
    then have "i - 32 * q \<le> fls' v" using f(3) word [of i] by simp
    then show False using i by linarith
  qed
qed

lemma find_last_loop_eq:
  fixes val :: u32 and addr :: bitmap and sz idx :: nat
  assumes "\<forall>j<32. bit val j \<longleftrightarrow> j < e" "e \<le> 32"
  defines "P \<equiv> \<lambda>i. bit (addr ! (i div 32)) (i mod 32)" and "r \<equiv> find_last_loop addr sz idx val"
  shows "r < 32 * idx + e \<and> P r \<and> (\<forall>i. r < i \<and> i < 32 * idx + e \<longrightarrow> \<not> P i) \<or>
    r = sz \<and> (\<forall>i. i < 32 * idx + e \<longrightarrow> \<not> P i)"
  using assms(1,2) unfolding r_def
proof (induction idx arbitrary: val e)
  case 0
  have "\<forall>j<32. bit (val AND addr ! 0) j \<longleftrightarrow> j < e \<and> P (32 * 0 + j)"
    using 0 by (simp add: P_def bit_and_iff)
  from last_index_word [OF this 0(2)] show ?case
    by (cases "val AND addr ! 0 = 0") (simp_all add: Let_def)
next
  case (Suc idx)
  have P: "P (32 * q + j) = bit (addr ! q) j" if "j < 32" for q j using that by (simp add: P_def)
  have "\<forall>j<32. bit (val AND addr ! Suc idx) j \<longleftrightarrow> j < e \<and> P (32 * Suc idx + j)"
    using Suc.prems P by (simp add: bit_and_iff del: mult_Suc_right)
  note word = last_index_word [OF this Suc.prems(2)]
  show ?case
  proof (cases "val AND addr ! Suc idx = 0")
    case True
    let ?r = "find_last_loop addr sz idx (- 1)"
    have r: "find_last_loop addr sz (Suc idx) val = ?r" using True by simp
    have IH: "?r < 32 * Suc idx \<and> P ?r \<and> (\<forall>i. ?r < i \<and> i < 32 * Suc idx \<longrightarrow> \<not> P i) \<or>
      ?r = sz \<and> (\<forall>i. i < 32 * Suc idx \<longrightarrow> \<not> P i)"
      using Suc.IH [of "- 1" 32] by (simp add: add.commute)
    from word(2) [OF True] have "\<not> P i" if "32 * Suc idx \<le> i" "i < 32 * Suc idx + e" for i
      using that by blast
    then show ?thesis unfolding r using IH by (metis not_less trans_less_add1)
  next
    case False
    then have r: "find_last_loop addr sz (Suc idx) val = 32 * Suc idx + fls' (val AND addr ! Suc idx)"
      by simp
    show ?thesis unfolding r using word(1) [OF False] by simp
  qed
qed

lemma find_last_bit_cases:
  obtains (found) "find_last_bit addr sz < sz" "test_bit_at (find_last_bit addr sz) addr"
      "\<forall>i. find_last_bit addr sz < i \<and> i < sz \<longrightarrow> \<not> test_bit_at i addr"
    | (none) "find_last_bit addr sz = sz" "\<forall>i. i < sz \<longrightarrow> \<not> test_bit_at i addr"
proof (cases "sz = 0")
  case True
  then show ?thesis using none by (simp add: find_last_bit_def)
next
  case False
  obtain q e where qe: "sz - 1 = 32 * q + e" "e < 32" by (rule nat_div_mod_32E)
  then have sz: "32 * q + Suc e = sz" using False by simp
  have r: "find_last_bit addr sz = find_last_loop addr sz q (BITMAP_LAST_WORD_MASK sz)"
    using False qe by (simp add: find_last_bit_def)
  have "sz mod 32 = (if e = 31 then 0 else Suc e)" using qe(2) unfolding sz [symmetric] by (auto simp: mod_Suc)
  then have "\<forall>j<32. bit (BITMAP_LAST_WORD_MASK sz) j \<longleftrightarrow> j < Suc e"
    using qe(2) by (auto simp: bit_LAST_WORD_MASK)
  from find_last_loop_eq [OF this, of addr sz q] qe(2) found none show ?thesis
    unfolding sz test_bit_at_iff r by auto
qed

section \<open>Properties\<close>

text \<open>\<^verbatim>\<open>find_next_bit\<close> and \<^verbatim>\<open>find_next_zero_bit\<close> return the least set (clear) bit at or
  above the offset, and the size when there is none below it; an offset at or beyond the
  size gives the size.\<close>

theorem find_next_bit_least:
  "find_next_bit addr sz offset = (case find (\<lambda>i. test_bit_at i addr) [offset..<sz] of None \<Rightarrow> sz | Some i \<Rightarrow> i) \<and>
   find_next_zero_bit addr sz offset =
     (case find (\<lambda>i. \<not> test_bit_at i addr) [offset..<sz] of None \<Rightarrow> sz | Some i \<Rightarrow> i)"
  using find_next_bit_eq [of offset sz addr] find_next_zero_bit_eq [of offset sz addr]
    find_next_beyond [of sz offset addr]
  by (cases "offset \<le> sz") (simp_all add: next_index_def)

text \<open>\<^verbatim>\<open>find_last_bit\<close> returns the greatest set bit below the size, and the size itself
  when no bit is set.\<close>

theorem find_last_bit_greatest:
  "find_last_bit addr sz = (if {i. i < sz \<and> test_bit_at i addr} = {} then sz
     else Max {i. i < sz \<and> test_bit_at i addr})"
proof (cases rule: find_last_bit_cases [where addr = addr and sz = sz])
  case found
  then have "Max {i. i < sz \<and> test_bit_at i addr} = find_last_bit addr sz"
    by (intro Max_eqI) (auto simp: not_less [symmetric])
  with found show ?thesis by auto
qed auto

end
