(* ===== verification/Bitmap.thy ===== *)
theory Bitmap
  imports Find_Bit
begin

text \<open>
  The bitmap library: \<^verbatim>\<open>lib/bitmap.c\<close> and the inline helpers of
  \<^verbatim>\<open>include/linux/bitmap.h\<close> (their path for a bit count that is not a compile-time
  constant). A bitmap of \<open>bits\<close> bits is a
  list of at least \<open>BITS_TO_LONGS bits\<close> words; reads and writes of the C code stay
  inside that list, which the lemmas take as the hypothesis \<open>bits \<le> 32 * length m\<close>.
  Bit counts are naturals: the C code's \<^verbatim>\<open>unsigned\<close> counters do not wrap for bitmaps
  that fit the address space. The observation is \<^const>\<open>test_bit_at\<close>.
\<close>

section \<open>Whole-bitmap operations\<close>

text \<open>\<^verbatim>\<open>memset(&d[i], v, n * sizeof(unsigned long))\<close> for a byte-uniform word \<open>v\<close>.\<close>

definition memset_words :: "bitmap \<Rightarrow> nat \<Rightarrow> u32 \<Rightarrow> nat \<Rightarrow> bitmap" where
  "memset_words d i v n = take i d @ replicate n v @ drop (i + n) d"

definition bitmap_zero :: "bitmap \<Rightarrow> nat \<Rightarrow> bitmap" where
  "bitmap_zero dst nbits = memset_words dst 0 0 (BITS_TO_LONGS nbits)"

definition bitmap_fill :: "bitmap \<Rightarrow> nat \<Rightarrow> bitmap" where
  "bitmap_fill dst nbits =
     (let nlongs = BITS_TO_LONGS nbits
      in (memset_words dst 0 (- 1) (nlongs - 1))[nlongs - 1 := BITMAP_LAST_WORD_MASK nbits])"

definition bitmap_copy :: "bitmap \<Rightarrow> bitmap \<Rightarrow> nat \<Rightarrow> bitmap" where
  "bitmap_copy dst src nbits =
     take (BITS_TO_LONGS nbits) src @ drop (BITS_TO_LONGS nbits) dst"

definition bitmap_equal :: "bitmap \<Rightarrow> bitmap \<Rightarrow> nat \<Rightarrow> bool" where
  "bitmap_equal bitmap1 bitmap2 bits =
     (let lim = bits div 32
      in list_all (\<lambda>k. bitmap1 ! k = bitmap2 ! k) [0..<lim] \<and>
         (bits mod 32 \<noteq> 0 \<longrightarrow>
            (bitmap1 ! lim XOR bitmap2 ! lim) AND BITMAP_LAST_WORD_MASK bits = 0))"

definition bitmap_complement :: "bitmap \<Rightarrow> bitmap \<Rightarrow> nat \<Rightarrow> bitmap" where
  "bitmap_complement dst src bits =
     (let lim = bits div 32;
          dst = for_upd lim (\<lambda>k. NOT (src ! k)) dst
      in if bits mod 32 \<noteq> 0 then dst[lim := NOT (src ! lim)] else dst)"

text \<open>Word \<open>k\<close> of a right shift: the top bits come from the word above, and the last word
  of the source is masked to the valid bits.\<close>

definition shift_right_word :: "bitmap \<Rightarrow> nat \<Rightarrow> nat \<Rightarrow> nat \<Rightarrow> u32 \<Rightarrow> nat \<Rightarrow> u32" where
  "shift_right_word src lim off rem m k =
     (let upper = (if rem = 0 \<or> off + k + 1 \<ge> lim then 0
                   else push_bit (32 - rem)
                     (if off + k + 1 = lim - 1 then src ! (off + k + 1) AND m else src ! (off + k + 1)));
          lower = drop_bit rem (if off + k = lim - 1 then src ! (off + k) AND m else src ! (off + k))
      in lower OR upper)"

definition bitmap_shift_right :: "bitmap \<Rightarrow> bitmap \<Rightarrow> nat \<Rightarrow> nat \<Rightarrow> bitmap" where
  "bitmap_shift_right dst src shift nbits =
     (let lim = BITS_TO_LONGS nbits; off = shift div 32; rem = shift mod 32;
          m = BITMAP_LAST_WORD_MASK nbits;
          dst = for_upd (lim - off) (shift_right_word src lim off rem m) dst
      in if off \<noteq> 0 then memset_words dst (lim - off) 0 off else dst)"

text \<open>Word \<open>k + off\<close> of a left shift, from the words \<open>k\<close> and \<open>k - 1\<close> of the source.\<close>

definition shift_left_word :: "bitmap \<Rightarrow> nat \<Rightarrow> nat \<Rightarrow> u32" where
  "shift_left_word src rem k =
     (let lower = (if rem \<noteq> 0 \<and> k > 0 then drop_bit (32 - rem) (src ! (k - 1)) else 0);
          upper = push_bit rem (src ! k)
      in lower OR upper)"

definition bitmap_shift_left :: "bitmap \<Rightarrow> bitmap \<Rightarrow> nat \<Rightarrow> nat \<Rightarrow> bitmap" where
  "bitmap_shift_left dst src shift nbits =
     (let lim = BITS_TO_LONGS nbits; off = shift div 32; rem = shift mod 32;
          dst = fold (\<lambda>k d. d[k + off := shift_left_word src rem k]) (rev [0..<lim - off]) dst
      in if off \<noteq> 0 then memset_words dst 0 0 off else dst)"

text \<open>The same call with \<^verbatim>\<open>dst == src\<close>: each step reads the array it writes.\<close>

definition bitmap_shift_left_inplace :: "bitmap \<Rightarrow> nat \<Rightarrow> nat \<Rightarrow> bitmap" where
  "bitmap_shift_left_inplace bm shift nbits =
     (let lim = BITS_TO_LONGS nbits; off = shift div 32; rem = shift mod 32;
          bm = fold (\<lambda>k d. d[k + off := shift_left_word d rem k]) (rev [0..<lim - off]) bm
      in if off \<noteq> 0 then memset_words bm 0 0 off else bm)"

text \<open>\<^verbatim>\<open>for (k = 0; k < n; k++) result |= (dst[k] = f(k))\<close>.\<close>

definition store_loop :: "nat \<Rightarrow> (nat \<Rightarrow> u32) \<Rightarrow> u32 \<times> bitmap \<Rightarrow> u32 \<times> bitmap" where
  "store_loop n f = fold (\<lambda>k (result, dst). (result OR f k, dst[k := f k])) [0..<n]"

text \<open>The body shared by \<^verbatim>\<open>__bitmap_and\<close> and \<^verbatim>\<open>__bitmap_andnot\<close>: the full words, then
  the last word under \<^verbatim>\<open>BITMAP_LAST_WORD_MASK\<close>; returns whether any stored bit is set.\<close>

definition masked_store :: "nat \<Rightarrow> (nat \<Rightarrow> u32) \<Rightarrow> bitmap \<Rightarrow> bool \<times> bitmap" where
  "masked_store bits f dst =
     (let lim = bits div 32;
          (result, dst) = store_loop lim f (0, dst);
          v = f lim AND BITMAP_LAST_WORD_MASK bits;
          (result, dst) = (if bits mod 32 \<noteq> 0 then (result OR v, dst[lim := v]) else (result, dst))
      in (result \<noteq> 0, dst))"

definition bitmap_and :: "bitmap \<Rightarrow> bitmap \<Rightarrow> bitmap \<Rightarrow> nat \<Rightarrow> bool \<times> bitmap" where
  "bitmap_and dst bitmap1 bitmap2 bits =
     masked_store bits (\<lambda>k. bitmap1 ! k AND bitmap2 ! k) dst"

definition bitmap_or :: "bitmap \<Rightarrow> bitmap \<Rightarrow> bitmap \<Rightarrow> nat \<Rightarrow> bitmap" where
  "bitmap_or dst bitmap1 bitmap2 bits =
     for_upd (BITS_TO_LONGS bits) (\<lambda>k. bitmap1 ! k OR bitmap2 ! k) dst"

definition bitmap_xor :: "bitmap \<Rightarrow> bitmap \<Rightarrow> bitmap \<Rightarrow> nat \<Rightarrow> bitmap" where
  "bitmap_xor dst bitmap1 bitmap2 bits =
     for_upd (BITS_TO_LONGS bits) (\<lambda>k. bitmap1 ! k XOR bitmap2 ! k) dst"

definition bitmap_andnot :: "bitmap \<Rightarrow> bitmap \<Rightarrow> bitmap \<Rightarrow> nat \<Rightarrow> bool \<times> bitmap" where
  "bitmap_andnot dst bitmap1 bitmap2 bits =
     masked_store bits (\<lambda>k. bitmap1 ! k AND NOT (bitmap2 ! k)) dst"

definition bitmap_intersects :: "bitmap \<Rightarrow> bitmap \<Rightarrow> nat \<Rightarrow> bool" where
  "bitmap_intersects bitmap1 bitmap2 bits =
     (let lim = bits div 32
      in list_ex (\<lambda>k. bitmap1 ! k AND bitmap2 ! k \<noteq> 0) [0..<lim] \<or>
         (bits mod 32 \<noteq> 0 \<and> (bitmap1 ! lim AND bitmap2 ! lim) AND BITMAP_LAST_WORD_MASK bits \<noteq> 0))"

definition bitmap_subset :: "bitmap \<Rightarrow> bitmap \<Rightarrow> nat \<Rightarrow> bool" where
  "bitmap_subset bitmap1 bitmap2 bits =
     (let lim = bits div 32
      in \<not> (list_ex (\<lambda>k. bitmap1 ! k AND NOT (bitmap2 ! k) \<noteq> 0) [0..<lim] \<or>
         (bits mod 32 \<noteq> 0 \<and>
            (bitmap1 ! lim AND NOT (bitmap2 ! lim)) AND BITMAP_LAST_WORD_MASK bits \<noteq> 0)))"

definition bitmap_weight :: "bitmap \<Rightarrow> nat \<Rightarrow> nat" where
  "bitmap_weight bitmap bits =
     (let lim = bits div 32;
          w = fold (\<lambda>k w. w + hweight_long (bitmap ! k)) [0..<lim] 0
      in if bits mod 32 \<noteq> 0
         then w + hweight_long (bitmap ! lim AND BITMAP_LAST_WORD_MASK bits) else w)"

section \<open>Setting and clearing a range\<close>

text \<open>The \<^verbatim>\<open>while (len - bits_to_set >= 0)\<close> loop. The argument \<open>b\<close> is
  \<^verbatim>\<open>bits_to_set - 1\<close>, which is never negative in the source; \<open>op w m\<close> is the update of
  one word. The result is the array, the word index and the remaining length and mask.\<close>

function range_loop ::
  "(u32 \<Rightarrow> u32 \<Rightarrow> u32) \<Rightarrow> bitmap \<Rightarrow> nat \<Rightarrow> int \<Rightarrow> nat \<Rightarrow> u32 \<Rightarrow> bitmap \<times> nat \<times> int \<times> u32" where
  "range_loop op bm p len b m =
     (if len - (int b + 1) \<ge> 0
      then range_loop op (bm[p := op (bm ! p) m]) (Suc p) (len - (int b + 1)) 31 (- 1)
      else (bm, p, len, m))"
  by pat_completeness auto
termination by (relation "measure (\<lambda>(op, bm, p, len, b, m). nat len)") auto

declare range_loop.simps [simp del]

definition bitmap_set :: "bitmap \<Rightarrow> nat \<Rightarrow> int \<Rightarrow> bitmap" where
  "bitmap_set bm start len =
     (let sz = nat ((int start + len) mod 2 ^ 32);
          (bm, p, len, m) = range_loop (\<lambda>w m. w OR m) bm (BIT_WORD start) len (31 - start mod 32)
             (BITMAP_FIRST_WORD_MASK start)
      in if len \<noteq> 0 then bm[p := bm ! p OR (m AND BITMAP_LAST_WORD_MASK sz)] else bm)"

definition bitmap_clear :: "bitmap \<Rightarrow> nat \<Rightarrow> int \<Rightarrow> bitmap" where
  "bitmap_clear bm start len =
     (let sz = nat ((int start + len) mod 2 ^ 32);
          (bm, p, len, m) = range_loop (\<lambda>w m. w AND NOT m) bm (BIT_WORD start) len (31 - start mod 32)
             (BITMAP_FIRST_WORD_MASK start)
      in if len \<noteq> 0 then bm[p := bm ! p AND NOT (m AND BITMAP_LAST_WORD_MASK sz)] else bm)"

section \<open>Emptiness\<close>

definition bitmap_empty :: "bitmap \<Rightarrow> nat \<Rightarrow> bool" where
  "bitmap_empty src nbits \<longleftrightarrow> find_first_bit src nbits = nbits"

definition bitmap_full :: "bitmap \<Rightarrow> nat \<Rightarrow> bool" where
  "bitmap_full src nbits \<longleftrightarrow> find_first_zero_bit src nbits = nbits"

section \<open>Bit positions and words\<close>

lemma all_bits_split:
  fixes bits :: nat
  shows "(\<forall>i<bits. P (i div 32) (i mod 32)) \<longleftrightarrow>
     (\<forall>k<bits div 32. \<forall>j<32. P k j) \<and> (bits mod 32 \<noteq> 0 \<longrightarrow> (\<forall>j<bits mod 32. P (bits div 32) j))"
  (is "?L \<longleftrightarrow> ?R")
proof
  assume L: ?L
  show ?R
  proof (intro conjI allI impI)
    fix k j :: nat
    assume "k < bits div 32" "j < 32"
    then have "32 * k + j < bits" by linarith
    with L have "P ((32 * k + j) div 32) ((32 * k + j) mod 32)" by blast
    with \<open>j < 32\<close> show "P k j" by simp
  next
    fix j :: nat
    assume j: "j < bits mod 32"
    have "32 * (bits div 32) + j < bits" using j by (metis add_less_cancel_left mult_div_mod_eq)
    with L have "P ((32 * (bits div 32) + j) div 32) ((32 * (bits div 32) + j) mod 32)" by blast
    moreover have "j < 32" using j by (meson less_trans mod_less_divisor zero_less_numeral)
    ultimately show "P (bits div 32) j" by simp
  qed
next
  assume R: ?R
  show ?L
  proof (intro allI impI)
    fix i assume "i < bits"
    show "P (i div 32) (i mod 32)"
    proof (cases "i div 32 < bits div 32")
      case True
      with R show ?thesis by simp
    next
      case False
      with \<open>i < bits\<close> have eq: "i div 32 = bits div 32" by (simp add: div_le_mono le_antisym)
      with \<open>i < bits\<close> have "i mod 32 < bits mod 32"
        by (metis add_less_cancel_left mult_div_mod_eq)
      with R eq show ?thesis by auto
    qed
  qed
qed

lemma ex_bits_split:
  fixes bits :: nat
  shows "(\<exists>i<bits. P (i div 32) (i mod 32)) \<longleftrightarrow>
     (\<exists>k<bits div 32. \<exists>j<32. P k j) \<or> (bits mod 32 \<noteq> 0 \<and> (\<exists>j<bits mod 32. P (bits div 32) j))"
  using all_bits_split [of bits "\<lambda>k j. \<not> P k j"] by blast

lemma and_LAST_WORD_MASK_zero:
  assumes "bits mod 32 \<noteq> 0"
  shows "w AND BITMAP_LAST_WORD_MASK bits = 0 \<longleftrightarrow> (\<forall>j<bits mod 32. \<not> bit w j)"
proof -
  have "j < 32" if "j < bits mod 32" for j
    using that by (rule less_trans) simp
  then show ?thesis
    using assms by (auto simp: word_eq_zero_iff_bit bit_and_iff bit_LAST_WORD_MASK)
qed

lemma less_div_cases:
  fixes bits :: nat
  assumes "i < bits"
  obtains "i div 32 < bits div 32" | "i div 32 = bits div 32" "i mod 32 < bits mod 32" "bits mod 32 \<noteq> 0"
proof (cases "i div 32 < bits div 32")
  case False
  with assms have eq: "i div 32 = bits div 32" by (simp add: div_le_mono le_antisym)
  with assms have "i mod 32 < bits mod 32" by (metis add_less_cancel_left mult_div_mod_eq)
  with eq that(2) show ?thesis by simp
qed (rule that)

lemma div_less_length: "i < bits \<Longrightarrow> bits \<le> 32 * length (m :: 'a list) \<Longrightarrow> i div 32 < length m"
  by linarith

lemma div_less_BITS_TO_LONGS: "i < bits \<Longrightarrow> i div 32 < BITS_TO_LONGS bits"
  by (erule less_div_cases) (auto simp: BITS_TO_LONGS_eq)

lemma BITS_TO_LONGS_le_length: "bits \<le> 32 * length (m :: 'a list) \<Longrightarrow> BITS_TO_LONGS bits \<le> length m"
  using less_mult_imp_div_less [of "bits + 31" "Suc (length m)" 32]
  by (simp add: BITS_TO_LONGS_def DIV_ROUND_UP_def)

lemma test_bit_at_for_upd:
  "i div 32 < length d \<Longrightarrow>
   test_bit_at i (for_upd n f d) \<longleftrightarrow> (if i div 32 < n then bit (f (i div 32)) (i mod 32) else test_bit_at i d)"
  by (simp add: test_bit_at_iff nth_for_upd)

lemma test_bit_at_upd_word:
  "i div 32 < length d \<Longrightarrow>
   test_bit_at i (d[k := w]) \<longleftrightarrow> (if i div 32 = k then bit w (i mod 32) else test_bit_at i d)"
  by (auto simp: test_bit_at_iff nth_list_update)

lemma length_memset_words [simp]: "i + n \<le> length d \<Longrightarrow> length (memset_words d i v n) = length d"
  by (simp add: memset_words_def)

lemma nth_memset_words:
  "i + n \<le> length d \<Longrightarrow> j < length d \<Longrightarrow>
   memset_words d i v n ! j = (if i \<le> j \<and> j < i + n then v else d ! j)"
  by (auto simp: memset_words_def nth_append min_def)

section \<open>Comparisons\<close>

lemma bitmap_equal_iff:
  "bitmap_equal b1 b2 bits \<longleftrightarrow> (\<forall>i<bits. test_bit_at i b1 = test_bit_at i b2)"
proof -
  have w: "b1 ! k = b2 ! k \<longleftrightarrow> (\<forall>j<32. bit (b1 ! k) j = bit (b2 ! k) j)" for k
    by (auto intro!: bit_word_eqI)
  have m: "(x XOR y) AND BITMAP_LAST_WORD_MASK bits = 0 \<longleftrightarrow> (\<forall>j<bits mod 32. bit x j = bit y j)"
    if "0 < bits mod 32" for x y
    using that by (simp add: and_LAST_WORD_MASK_zero bit_xor_iff)
  show ?thesis
    unfolding bitmap_equal_def Let_def test_bit_at_iff
      all_bits_split [of bits "\<lambda>k j. bit (b1 ! k) j = bit (b2 ! k) j"]
    by (cases "bits mod 32 = 0") (auto simp: list_all_iff w m)
qed

lemma bitmap_intersects_iff:
  "bitmap_intersects b1 b2 bits \<longleftrightarrow> (\<exists>i<bits. test_bit_at i b1 \<and> test_bit_at i b2)"
proof -
  have w: "b1 ! k AND b2 ! k \<noteq> 0 \<longleftrightarrow> (\<exists>j<32. bit (b1 ! k) j \<and> bit (b2 ! k) j)" for k
    by (simp add: word_not_zero_iff_bit bit_and_iff)
  have m: "(x AND y) AND BITMAP_LAST_WORD_MASK bits \<noteq> 0 \<longleftrightarrow> (\<exists>j<bits mod 32. bit x j \<and> bit y j)"
    if "0 < bits mod 32" for x y
    using that by (simp add: and_LAST_WORD_MASK_zero bit_and_iff)
  show ?thesis
    unfolding bitmap_intersects_def Let_def test_bit_at_iff
      ex_bits_split [of bits "\<lambda>k j. bit (b1 ! k) j \<and> bit (b2 ! k) j"]
    by (cases "bits mod 32 = 0") (auto simp: list_ex_iff w m)
qed

lemma bitmap_subset_iff:
  "bitmap_subset b1 b2 bits \<longleftrightarrow> (\<forall>i<bits. test_bit_at i b1 \<longrightarrow> test_bit_at i b2)"
proof -
  have w: "b1 ! k AND NOT (b2 ! k) \<noteq> 0 \<longleftrightarrow> (\<exists>j<32. bit (b1 ! k) j \<and> \<not> bit (b2 ! k) j)" for k
    by (auto simp: word_not_zero_iff_bit bit_and_iff bit_not_iff)
  have m: "(x AND NOT y) AND BITMAP_LAST_WORD_MASK bits \<noteq> 0 \<longleftrightarrow> (\<exists>j<bits mod 32. bit x j \<and> \<not> bit y j)"
    if "0 < bits mod 32" for x y
    using that by (auto simp: and_LAST_WORD_MASK_zero bit_and_iff bit_not_iff)
  show ?thesis
    unfolding bitmap_subset_def Let_def test_bit_at_iff
      all_bits_split [of bits "\<lambda>k j. bit (b1 ! k) j \<longrightarrow> bit (b2 ! k) j"]
    by (cases "bits mod 32 = 0") (auto simp: list_ex_iff w m)
qed

section \<open>Whole-bitmap writes\<close>

lemma length_bitmap_zero [simp]: "nbits \<le> 32 * length m \<Longrightarrow> length (bitmap_zero m nbits) = length m"
  by (simp add: bitmap_zero_def BITS_TO_LONGS_le_length)

lemma test_bitmap_zero [bitmap_simps]:
  assumes "nbits \<le> 32 * length m" "i < 32 * length m"
  shows "test_bit_at i (bitmap_zero m nbits) \<longleftrightarrow> BITS_TO_LONGS nbits \<le> i div 32 \<and> test_bit_at i m"
  using assms BITS_TO_LONGS_le_length [OF assms(1)]
  by (auto simp: bitmap_zero_def test_bit_at_iff nth_memset_words div_less_length)

lemma test_bitmap_fill [bitmap_simps]:
  assumes "nbits \<le> 32 * length m" "i < 32 * BITS_TO_LONGS nbits"
  shows "test_bit_at i (bitmap_fill m nbits) \<longleftrightarrow> i < nbits"
proof -
  let ?n = "BITS_TO_LONGS nbits"
  have n: "?n \<le> length m" using assms(1) by (rule BITS_TO_LONGS_le_length)
  have i: "i div 32 < ?n" using assms(2) by linarith
  have last: "?n - 1 = (nbits - 1) div 32 \<and> 0 < nbits"
    using i by (auto simp: BITS_TO_LONGS_def DIV_ROUND_UP_def)
  show ?thesis
  proof (cases "i div 32 = ?n - 1")
    case True
    have "test_bit_at i (bitmap_fill m nbits) \<longleftrightarrow> bit (BITMAP_LAST_WORD_MASK nbits) (i mod 32)"
      using True i n by (simp add: bitmap_fill_def Let_def test_bit_at_iff)
    also have "\<dots> \<longleftrightarrow> i < nbits"
    proof -
      obtain q r where q: "nbits - 1 = 32 * q + r" "r < 32" by (rule nat_div_mod_32E)
      obtain q' j where i': "i = 32 * q' + j" "j < 32" by (rule nat_div_mod_32E)
      have "q' = q" using True last q i' by simp
      moreover have "nbits = 32 * q + Suc r" using q(1) last by linarith
      ultimately show ?thesis
        unfolding bit_LAST_WORD_MASK using q(2) i' by (cases "r = 31") simp_all
    qed
    finally show ?thesis .
  next
    case False
    with i have "i div 32 < ?n - 1" by linarith
    then have "test_bit_at i (bitmap_fill m nbits)"
      using i n by (simp add: bitmap_fill_def Let_def test_bit_at_iff nth_memset_words)
    moreover have "i < nbits" using False i last by linarith
    ultimately show ?thesis by simp
  qed
qed

lemma test_bitmap_copy [bitmap_simps]:
  assumes "nbits \<le> 32 * length dst" "nbits \<le> 32 * length src" "i < 32 * length dst"
  shows "test_bit_at i (bitmap_copy dst src nbits) \<longleftrightarrow>
    (if i div 32 < BITS_TO_LONGS nbits then test_bit_at i src else test_bit_at i dst)"
  using assms BITS_TO_LONGS_le_length [OF assms(1)] BITS_TO_LONGS_le_length [OF assms(2)]
  by (auto simp: bitmap_copy_def test_bit_at_iff nth_append min_def)

lemma bitmap_complement_eq_for_upd:
  "bitmap_complement dst src bits = for_upd (BITS_TO_LONGS bits) (\<lambda>k. NOT (src ! k)) dst"
  by (simp add: bitmap_complement_def Let_def BITS_TO_LONGS_eq for_upd_Suc)

lemma test_bitmap_complement [bitmap_simps]:
  "i < bits \<Longrightarrow> bits \<le> 32 * length dst \<Longrightarrow>
   test_bit_at i (bitmap_complement dst src bits) \<longleftrightarrow> \<not> test_bit_at i src"
  by (simp add: bitmap_complement_eq_for_upd nth_for_upd div_less_length div_less_BITS_TO_LONGS
      bit_not_iff test_bit_at_iff)

lemma test_bitmap_or [bitmap_simps]:
  "i < bits \<Longrightarrow> bits \<le> 32 * length dst \<Longrightarrow>
   test_bit_at i (bitmap_or dst b1 b2 bits) \<longleftrightarrow> test_bit_at i b1 \<or> test_bit_at i b2"
  by (simp add: bitmap_or_def nth_for_upd div_less_length div_less_BITS_TO_LONGS
      bit_or_iff test_bit_at_iff)

lemma test_bitmap_xor [bitmap_simps]:
  "i < bits \<Longrightarrow> bits \<le> 32 * length dst \<Longrightarrow>
   test_bit_at i (bitmap_xor dst b1 b2 bits) \<longleftrightarrow> test_bit_at i b1 \<noteq> test_bit_at i b2"
  by (simp add: bitmap_xor_def nth_for_upd div_less_length div_less_BITS_TO_LONGS
      bit_xor_iff test_bit_at_iff)

lemma store_loop_eq:
  "store_loop n f (r, d) = (fst (store_loop n f (r, d)), for_upd n f d) \<and>
   (fst (store_loop n f (r, d)) \<noteq> 0 \<longleftrightarrow> r \<noteq> 0 \<or> (\<exists>k<n. f k \<noteq> 0))"
proof (induction n)
  case (Suc n)
  have "store_loop (Suc n) f (r, d) = (\<lambda>(res, d). (res OR f n, d[n := f n])) (store_loop n f (r, d))"
    by (simp add: store_loop_def)
  moreover have "(a OR b \<noteq> 0) \<longleftrightarrow> a \<noteq> 0 \<or> b \<noteq> 0" for a b :: u32
    by (auto simp: word_not_zero_iff_bit bit_or_iff)
  ultimately show ?case using Suc
    by (cases "store_loop n f (r, d)") (auto simp: for_upd_Suc less_Suc_eq)
qed (simp add: store_loop_def)


lemma or_nonzero: "a OR b \<noteq> 0 \<longleftrightarrow> a \<noteq> 0 \<or> b \<noteq> (0 :: u32)"
  by (auto simp: word_not_zero_iff_bit bit_or_iff)

lemma masked_store_eq:
  "masked_store bits f dst =
     ((\<exists>i<bits. bit (f (i div 32)) (i mod 32)),
      for_upd (BITS_TO_LONGS bits)
        (\<lambda>k. if k < bits div 32 then f k else f k AND BITMAP_LAST_WORD_MASK bits) dst)"
proof -
  let ?lim = "bits div 32"
  obtain r where s: "store_loop ?lim f (0, dst) = (r, for_upd ?lim f dst)"
    and r: "r \<noteq> 0 \<longleftrightarrow> (\<exists>k<?lim. f k \<noteq> 0)"
    using store_loop_eq [of ?lim f 0 dst] by auto
  have upd: "for_upd ?lim (\<lambda>k. if k < ?lim then f k else g k) dst = for_upd ?lim f dst" for g
    by (auto simp: for_upd_def intro!: fold_cong)
  have "f k \<noteq> 0 \<longleftrightarrow> (\<exists>j<32. bit (f k) j)" for k
    by (simp add: word_not_zero_iff_bit)
  then have any: "(\<exists>i<bits. bit (f (i div 32)) (i mod 32)) \<longleftrightarrow>
      r \<noteq> 0 \<or> (bits mod 32 \<noteq> 0 \<and> f ?lim AND BITMAP_LAST_WORD_MASK bits \<noteq> 0)"
    unfolding ex_bits_split [of bits "\<lambda>k j. bit (f k) j"] r
    using and_LAST_WORD_MASK_zero [of bits "f ?lim"] by auto
  show ?thesis
    unfolding masked_store_def Let_def s any
    by (simp add: or_nonzero upd BITS_TO_LONGS_eq for_upd_Suc)
qed

lemma fst_masked_store: "fst (masked_store bits f dst) \<longleftrightarrow> (\<exists>i<bits. bit (f (i div 32)) (i mod 32))"
  by (simp add: masked_store_eq)

lemma test_masked_store:
  assumes "bits \<le> 32 * length dst" "i < 32 * BITS_TO_LONGS bits"
  shows "test_bit_at i (snd (masked_store bits f dst)) \<longleftrightarrow> i < bits \<and> bit (f (i div 32)) (i mod 32)"
proof -
  have k: "i div 32 < BITS_TO_LONGS bits" using assms(2) by linarith
  have len: "i div 32 < length dst" using k BITS_TO_LONGS_le_length [OF assms(1)] by linarith
  show ?thesis
  proof (cases "i div 32 < bits div 32")
    case True
    then have "i < bits" by (metis div_le_mono leD linorder_le_less_linear)
    with True k len show ?thesis by (simp add: masked_store_eq test_bit_at_for_upd)
  next
    case False
    with k have eq: "i div 32 = bits div 32" "bits mod 32 \<noteq> 0"
      by (auto simp: BITS_TO_LONGS_eq split: if_splits)
    then have "i < bits \<longleftrightarrow> i mod 32 < bits mod 32"
      by (metis add_less_cancel_left mult_div_mod_eq)
    with eq k len show ?thesis
      by (auto simp: masked_store_eq test_bit_at_for_upd bit_and_iff bit_LAST_WORD_MASK)
  qed
qed

lemma length_masked_store [simp]: "length (snd (masked_store bits f dst)) = length dst"
  by (simp add: masked_store_eq)

lemma bitmap_and_spec [bitmap_simps]:
  "fst (bitmap_and dst b1 b2 bits) \<longleftrightarrow> (\<exists>i<bits. test_bit_at i b1 \<and> test_bit_at i b2)"
  "bits \<le> 32 * length dst \<Longrightarrow> i < 32 * BITS_TO_LONGS bits \<Longrightarrow>
   test_bit_at i (snd (bitmap_and dst b1 b2 bits)) \<longleftrightarrow> i < bits \<and> test_bit_at i b1 \<and> test_bit_at i b2"
  by (simp_all add: bitmap_and_def fst_masked_store test_masked_store bit_and_iff)
     (simp_all add: test_bit_at_iff)

lemma bitmap_andnot_spec [bitmap_simps]:
  "fst (bitmap_andnot dst b1 b2 bits) \<longleftrightarrow> (\<exists>i<bits. test_bit_at i b1 \<and> \<not> test_bit_at i b2)"
  "bits \<le> 32 * length dst \<Longrightarrow> i < 32 * BITS_TO_LONGS bits \<Longrightarrow>
   test_bit_at i (snd (bitmap_andnot dst b1 b2 bits)) \<longleftrightarrow> i < bits \<and> test_bit_at i b1 \<and> \<not> test_bit_at i b2"
  by (simp_all add: bitmap_andnot_def fst_masked_store test_masked_store bit_and_iff bit_not_iff)
     (simp_all add: test_bit_at_iff)

section \<open>Weight\<close>

lemma card_bits_words:
  "card {i. i < 32 * n \<and> bit (m ! (i div 32)) (i mod 32)} = (\<Sum>k<n. hweight_long (m ! k))"
proof (induction n)
  case (Suc n)
  let ?A = "{i. i < 32 * n \<and> bit (m ! (i div 32)) (i mod 32)}"
  let ?B = "{j. j < 32 \<and> bit (m ! n) j}"
  have "{i. i < 32 * Suc n \<and> bit (m ! (i div 32)) (i mod 32)} = ?A \<union> (\<lambda>j. 32 * n + j) ` ?B"
  proof (intro equalityI subsetI)
    fix i assume i: "i \<in> {i. i < 32 * Suc n \<and> bit (m ! (i div 32)) (i mod 32)}"
    show "i \<in> ?A \<union> (\<lambda>j. 32 * n + j) ` ?B"
    proof (cases "i < 32 * n")
      case False
      then have "i div 32 = n" using i by auto
      moreover from this have "i = 32 * n + i mod 32" by (metis mult_div_mod_eq)
      ultimately have "i div 32 = n" "i = 32 * n + i mod 32" by blast+
      with i show ?thesis by (intro UnI2 image_eqI [of _ _ "i mod 32"]) auto
    qed (use i in simp)
  qed auto
  moreover have "?A \<inter> (\<lambda>j. 32 * n + j) ` ?B = {}" by auto
  moreover have "card ((\<lambda>j. 32 * n + j) ` ?B) = card ?B" by (simp add: card_image)
  ultimately show ?case
    using Suc by (simp add: card_Un_disjoint hweight_long_card)
qed simp

lemma bitmap_weight_card: "bitmap_weight m bits = card {i. i < bits \<and> test_bit_at i m}"
proof -
  let ?lim = "bits div 32"
  have w: "fold (\<lambda>k w. w + hweight_long (m ! k)) [0..<n] 0 = (\<Sum>k<n. hweight_long (m ! k))" for n
    by (induction n) (simp_all add: add.commute)
  let ?A = "{i. i < 32 * ?lim \<and> bit (m ! (i div 32)) (i mod 32)}"
  let ?B = "{j. j < bits mod 32 \<and> bit (m ! ?lim) j}"
  have "{i. i < bits \<and> bit (m ! (i div 32)) (i mod 32)} = ?A \<union> (\<lambda>j. 32 * ?lim + j) ` ?B"
  proof (intro equalityI subsetI)
    fix i assume i: "i \<in> {i. i < bits \<and> bit (m ! (i div 32)) (i mod 32)}"
    then have "i < bits" by simp
    then show "i \<in> ?A \<union> (\<lambda>j. 32 * ?lim + j) ` ?B"
    proof (cases rule: less_div_cases)
      case 1
      then have "i < 32 * ?lim" by linarith
      with i show ?thesis by simp
    next
      case 2
      then have "i = 32 * ?lim + i mod 32" by (metis mult_div_mod_eq)
      with 2 i show ?thesis by (intro UnI2 image_eqI [of _ _ "i mod 32"]) auto
    qed
  next
    fix i assume "i \<in> ?A \<union> (\<lambda>j. 32 * ?lim + j) ` ?B"
    then show "i \<in> {i. i < bits \<and> bit (m ! (i div 32)) (i mod 32)}"
    proof
      assume "i \<in> (\<lambda>j. 32 * ?lim + j) ` ?B"
      then obtain j where j: "i = 32 * ?lim + j" "j < bits mod 32" "bit (m ! ?lim) j" by auto
      then have "i < bits" by (metis add_less_cancel_left mult_div_mod_eq)
      moreover have "j < 32" using j(2) by (rule less_trans) simp
      ultimately show ?thesis using j by simp
    qed auto
  qed
  moreover have "?A \<inter> (\<lambda>j. 32 * ?lim + j) ` ?B = {}" by auto
  moreover have "card ((\<lambda>j. 32 * ?lim + j) ` ?B) = card ?B" by (simp add: card_image)
  ultimately have "card {i. i < bits \<and> bit (m ! (i div 32)) (i mod 32)} =
      (\<Sum>k<?lim. hweight_long (m ! k)) + card ?B"
    by (simp add: card_Un_disjoint card_bits_words)
  moreover have "card ?B = (if bits mod 32 \<noteq> 0
      then hweight_long (m ! ?lim AND BITMAP_LAST_WORD_MASK bits) else 0)"
  proof -
    have "j < 32" if "j < bits mod 32" for j using that by (rule less_trans) simp
    then have "?B = {n. n < 32 \<and> bit (m ! ?lim AND BITMAP_LAST_WORD_MASK bits) n}" if "bits mod 32 \<noteq> 0"
      using that by (auto simp: bit_and_iff bit_LAST_WORD_MASK)
    then show ?thesis by (simp add: hweight_long_card)
  qed
  ultimately show ?thesis
    by (simp add: bitmap_weight_def Let_def w test_bit_at_iff)
qed

section \<open>Setting and clearing a range\<close>

text \<open>\<open>writes op c\<close>: the word update \<open>op\<close> stores \<open>c\<close> at the bits of the mask and keeps the
  others; \<^verbatim>\<open>|= mask\<close> writes ones, \<^verbatim>\<open>&= ~mask\<close> writes zeros.\<close>

definition writes :: "(u32 \<Rightarrow> u32 \<Rightarrow> u32) \<Rightarrow> bool \<Rightarrow> bool" where
  "writes op c \<longleftrightarrow> (\<forall>w m n. n < 32 \<longrightarrow> bit (op w m) n = (if bit m n then c else bit w n))"

lemma writes_or: "writes (\<lambda>w m. w OR m) True"
  by (auto simp: writes_def bit_or_iff)

lemma writes_andnot: "writes (\<lambda>w m. w AND NOT m) False"
  by (auto simp: writes_def bit_and_iff bit_not_iff)

lemma test_bit_at_writes:
  assumes "writes op c" "p < length bm"
  shows "test_bit_at i (bm[p := op (bm ! p) m]) \<longleftrightarrow>
    (if i div 32 = p \<and> bit m (i mod 32) then c else test_bit_at i bm)"
  using assms by (auto simp: test_bit_at_iff nth_list_update writes_def)

lemma word_window:
  fixes q :: nat
  assumes "j < 32" "e \<le> 32"
  shows "q = p \<and> a \<le> j \<and> j < e \<longleftrightarrow> 32 * p + a \<le> 32 * q + j \<and> 32 * q + j < 32 * p + e"
proof (cases q p rule: linorder_cases)
  case less
  then have "32 * q + j < 32 * p" using assms by linarith
  with less show ?thesis by simp
next
  case greater
  then have "32 * p + e \<le> 32 * q + j" using assms by linarith
  with greater show ?thesis by simp
qed simp

lemma range_loop_spec:
  assumes "writes op c" "b \<le> 31" "m = BITMAP_FIRST_WORD_MASK (31 - b)" "0 \<le> len"
    and "int (32 * p + (31 - b)) + len \<le> int (32 * length bm)"
    and "range_loop op bm p len b m = (bm', p', len', m')"
  shows "length bm' = length bm \<and> 0 \<le> len' \<and>
    (\<exists>b' \<le> 31. m' = BITMAP_FIRST_WORD_MASK (31 - b') \<and> len' \<le> int b' \<and>
       int (32 * p' + (31 - b')) + len' = int (32 * p + (31 - b)) + len \<and>
       32 * p + (31 - b) \<le> 32 * p' + (31 - b') \<and>
       (\<forall>i. test_bit_at i bm' = (if 32 * p + (31 - b) \<le> i \<and> i < 32 * p' + (31 - b') then c
                               else test_bit_at i bm)))"
  using assms
proof (induction op bm p len b m rule: range_loop.induct)
  case (1 op bm p len b m)
  show ?case
  proof (cases "len - (int b + 1) \<ge> 0")
    case False
    then have "range_loop op bm p len b m = (bm, p, len, m)"
      by (subst range_loop.simps) simp
    with "1.prems"(6) have "bm' = bm" "p' = p" "len' = len" "m' = m" by simp_all
    with 1 False show ?thesis by (intro conjI exI [of _ b]) auto
  next
    case True
    let ?bm = "bm[p := op (bm ! p) m]"
    have p: "p < length bm" using "1.prems" True by linarith
    have rec: "range_loop op ?bm (Suc p) (len - (int b + 1)) 31 (- 1) = (bm', p', len', m')"
      using "1.prems"(6) True by (subst (asm) range_loop.simps) simp
    have m0: "(- 1 :: u32) = BITMAP_FIRST_WORD_MASK (31 - 31)" by (simp add: BITMAP_FIRST_WORD_MASK_def)
    have e: "int (32 * Suc p + (31 - 31)) + (len - (int b + 1)) = int (32 * p + (31 - b)) + len"
      using "1.prems"(2) by simp
    have fit: "int (32 * Suc p + (31 - 31)) + (len - (int b + 1)) \<le> int (32 * length ?bm)"
      using "1.prems"(5) by (simp only: e length_list_update)
    obtain b' where b': "b' \<le> 31" "m' = BITMAP_FIRST_WORD_MASK (31 - b')" "len' \<le> int b'"
        "int (32 * p' + (31 - b')) + len' = int (32 * p + (31 - b)) + len"
        "32 * Suc p \<le> 32 * p' + (31 - b')"
      and tb: "\<forall>i. test_bit_at i bm' = (if 32 * Suc p \<le> i \<and> i < 32 * p' + (31 - b') then c
                               else test_bit_at i ?bm)"
      and len: "length bm' = length ?bm" "0 \<le> len'"
      using "1.IH" [OF True "1.prems"(1) order_refl m0 _ fit rec] True unfolding e
      by (simp only: diff_self_eq_0 add_0_right length_list_update) blast
    have "test_bit_at i ?bm = (if 32 * p + (31 - b) \<le> i \<and> i < 32 * Suc p then c else test_bit_at i bm)" for i
    proof -
      obtain q j where "i = 32 * q + j" "j < 32" by (rule nat_div_mod_32E)
      moreover from this have "i div 32 = q" "i mod 32 = j" by simp_all
      moreover have "(31 - b) mod 32 = 31 - b" by simp
      moreover have "(q = p \<and> 31 - b \<le> j) = (32 * p + (31 - b) \<le> i \<and> i < 32 * Suc p)"
        using word_window [OF \<open>j < 32\<close> order_refl, of q p "31 - b"] \<open>j < 32\<close>
        unfolding \<open>i = 32 * q + j\<close> mult_Suc_right by (simp add: add.commute)
      ultimately show ?thesis
        unfolding test_bit_at_writes [OF "1.prems"(1) p] "1.prems"(3) bit_FIRST_WORD_MASK by metis
    qed
    moreover have "32 * p + (31 - b) \<le> 32 * Suc p" by simp
    ultimately have "test_bit_at i bm' = (if 32 * p + (31 - b) \<le> i \<and> i < 32 * p' + (31 - b') then c
                               else test_bit_at i bm)" for i
      using tb b'(5) by (cases "i < 32 * Suc p") simp_all
    moreover have "32 * p + (31 - b) \<le> 32 * p' + (31 - b')" by (rule order_trans [OF _ b'(5)]) simp
    ultimately show ?thesis using b' len by (intro conjI exI [of _ b']) simp_all
  qed
qed

lemma range_write_spec:
  assumes w: "writes op c" and len: "0 \<le> len" "int start + len \<le> int (32 * length bm)"
    and loop: "range_loop op bm (BIT_WORD start) len (31 - start mod 32) (BITMAP_FIRST_WORD_MASK start)
      = (bm', p', len', m')"
    and res: "res = (if len' \<noteq> 0 then bm'[p' := op (bm' ! p')
      (m' AND BITMAP_LAST_WORD_MASK (nat ((int start + len) mod 2 ^ 32)))] else bm')"
  shows "length res = length bm \<and>
    (\<forall>i. test_bit_at i res = (if start \<le> i \<and> i < start + nat len then c else test_bit_at i bm))"
proof -
  let ?r = "start mod 32"
  have r: "?r < 32" by simp
  then have s: "32 * BIT_WORD start + (31 - (31 - ?r)) = start" by (simp add: BIT_WORD_def)
  have m: "BITMAP_FIRST_WORD_MASK start = BITMAP_FIRST_WORD_MASK (31 - (31 - ?r))"
    using r by (simp add: BITMAP_FIRST_WORD_MASK_def)
  obtain b' where lens: "length bm' = length bm" "0 \<le> len'"
    and b': "b' \<le> 31" "m' = BITMAP_FIRST_WORD_MASK (31 - b')" "len' \<le> int b'"
      "int (32 * p' + (31 - b')) + len' = int start + len" "start \<le> 32 * p' + (31 - b')"
    and tb: "\<forall>i. test_bit_at i bm' = (if start \<le> i \<and> i < 32 * p' + (31 - b') then c else test_bit_at i bm)"
    using range_loop_spec [OF w _ m len(1) _ loop] len(2) unfolding s by auto
  show ?thesis
  proof (cases "len' = 0")
    case True
    then have "start + nat len = 32 * p' + (31 - b')" using b'(4) len(1) by linarith
    then show ?thesis using True tb lens by (simp add: res)
  next
    case False
    define e where "e = start + nat len"
    have e: "e = 32 * p' + (31 - b') + nat len'" using b'(4) len(1) lens(2) by (simp add: e_def)
    have "nat ((int start + len) mod 2 ^ 32) mod 32 = e mod 32"
    proof -
      have "int (nat ((int start + len) mod 2 ^ 32) mod 32) = (int start + len) mod 2 ^ 32 mod 32"
        by (simp add: zmod_int)
      also have "\<dots> = (int start + len) mod 32" by (rule mod_mod_cancel) simp
      also have "\<dots> = int (e mod 32)" using len(1) by (simp add: e_def zmod_int)
      finally show ?thesis by (simp only: of_nat_eq_iff)
    qed
    moreover have small: "(31 - b') + nat len' < 32" using b'(1,3) lens(2) by linarith
    then have emod: "e mod 32 = (31 - b') + nat len'" "0 < nat len'" "e div 32 = p'"
      using False lens(2) unfolding e add.assoc by simp_all
    moreover define M where "M = m' AND BITMAP_LAST_WORD_MASK (nat ((int start + len) mod 2 ^ 32))"
    ultimately have mask: "bit M n \<longleftrightarrow> 31 - b' \<le> n \<and> n < e mod 32" for n
      using small by (auto simp: M_def bit_and_iff b'(2) bit_FIRST_WORD_MASK bit_LAST_WORD_MASK mod_less)
    have res': "res = bm'[p' := op (bm' ! p') M]" using False unfolding res M_def by (rule if_P)
    have p': "p' < length bm'" using e False len lens b'(4) by linarith
    have "test_bit_at i res = (if start \<le> i \<and> i < start + nat len then c else test_bit_at i bm)" for i
    proof -
      obtain q j where ij: "i = 32 * q + j" "j < 32" by (rule nat_div_mod_32E)
      have "test_bit_at i res = (if q = p' \<and> 31 - b' \<le> j \<and> j < e mod 32 then c else test_bit_at i bm')"
        using ij unfolding res' by (simp add: test_bit_at_writes [OF w p'] mask)
      moreover have "(q = p' \<and> 31 - b' \<le> j \<and> j < e mod 32) = (32 * p' + (31 - b') \<le> i \<and> i < e)"
        using word_window [OF ij(2), of "e mod 32" q p' "31 - b'"] ij(1) emod(3)
        by (metis mod_less_divisor less_imp_le mult_div_mod_eq zero_less_numeral)
      ultimately show ?thesis
        using tb b'(5) e unfolding e_def [symmetric] by simp
    qed
    then show ?thesis using lens by (simp add: res')
  qed
qed

lemma bitmap_set_spec:
  assumes "0 \<le> len" "int start + len \<le> int (32 * length bm)"
  shows "length (bitmap_set bm start len) = length bm"
    "test_bit_at i (bitmap_set bm start len) \<longleftrightarrow> (start \<le> i \<and> i < start + nat len) \<or> test_bit_at i bm"
proof -
  obtain bm' p' len' m' where l: "range_loop (\<lambda>w m. w OR m) bm (BIT_WORD start) len (31 - start mod 32)
      (BITMAP_FIRST_WORD_MASK start) = (bm', p', len', m')" by (metis prod_cases4)
  show "length (bitmap_set bm start len) = length bm"
    "test_bit_at i (bitmap_set bm start len) \<longleftrightarrow> (start \<le> i \<and> i < start + nat len) \<or> test_bit_at i bm"
    using range_write_spec [OF writes_or assms l refl] by (auto simp: bitmap_set_def Let_def l split: if_splits)
qed

lemma bitmap_clear_spec:
  assumes "0 \<le> len" "int start + len \<le> int (32 * length bm)"
  shows "length (bitmap_clear bm start len) = length bm"
    "test_bit_at i (bitmap_clear bm start len) \<longleftrightarrow> \<not> (start \<le> i \<and> i < start + nat len) \<and> test_bit_at i bm"
proof -
  obtain bm' p' len' m' where l: "range_loop (\<lambda>w m. w AND NOT m) bm (BIT_WORD start) len (31 - start mod 32)
      (BITMAP_FIRST_WORD_MASK start) = (bm', p', len', m')" by (metis prod_cases4)
  show "length (bitmap_clear bm start len) = length bm"
    "test_bit_at i (bitmap_clear bm start len) \<longleftrightarrow> \<not> (start \<le> i \<and> i < start + nat len) \<and> test_bit_at i bm"
    using range_write_spec [OF writes_andnot assms l refl] by (auto simp: bitmap_clear_def Let_def l split: if_splits)
qed

section \<open>Shifts\<close>

lemma bit_masked_word:
  assumes "q < BITS_TO_LONGS nbits" "j < 32"
  shows "bit (if q = BITS_TO_LONGS nbits - 1 then (w :: u32) AND BITMAP_LAST_WORD_MASK nbits else w) j
    \<longleftrightarrow> 32 * q + j < nbits \<and> bit w j"
proof -
  obtain p r where n: "nbits = 32 * p + r" "r < 32" by (rule nat_div_mod_32E)
  then have d: "nbits div 32 = p" "nbits mod 32 = r" by simp_all
  show ?thesis
  proof (cases "r = 0")
    case True
    with assms d have "q < p" by (simp add: BITS_TO_LONGS_eq)
    with assms(2) n True have "32 * q + j < nbits" by linarith
    with assms(2) d True show ?thesis by (simp add: bit_and_iff bit_LAST_WORD_MASK)
  next
    case False
    with d have lim: "BITS_TO_LONGS nbits = Suc p" by (simp add: BITS_TO_LONGS_eq)
    show ?thesis
    proof (cases "q = p")
      case True
      with lim d False n(1) show ?thesis by (simp add: bit_and_iff bit_LAST_WORD_MASK) blast
    next
      case neq: False
      with assms lim have "q < p" by simp
      with assms(2) n have "32 * q + j < nbits" by linarith
      with lim neq show ?thesis by simp
    qed
  qed
qed

lemma bit_shift_right_word:
  assumes k: "off + k < BITS_TO_LONGS nbits" and j: "j < 32" and rem: "rem < 32"
  shows "bit (shift_right_word src (BITS_TO_LONGS nbits) off rem (BITMAP_LAST_WORD_MASK nbits) k) j \<longleftrightarrow>
    (let i = 32 * (off + k) + (j + rem) in i < nbits \<and> bit (src ! (i div 32)) (i mod 32))"
proof (cases "j + rem < 32")
  case True
  then have "\<not> 32 - rem \<le> j" by simp
  then show ?thesis
    using bit_masked_word [OF k True, of "src ! (off + k)"]
    unfolding Let_def block_32 [OF True]
    by (simp add: shift_right_word_def bit_or_iff bit_drop_bit_eq bit_push_bit_iff Let_def add.commute [of j])
next
  case False
  define j' where "j' = j + rem - 32"
  have j': "j' < 32" "j + rem = 32 + j'" "j - (32 - rem) = j'" "0 < rem" "32 - rem \<le> j" using False j rem by (auto simp: j'_def)
  have low: "\<not> bit (drop_bit rem (w :: u32)) j" for w
    using False by (auto simp: bit_drop_bit_eq dest: bit_imp_le_length)
  have i: "32 * (off + k) + (j + rem) = 32 * Suc (off + k) + j'" using j' by simp
  show ?thesis
  proof (cases "Suc (off + k) < BITS_TO_LONGS nbits")
    case True
    have "bit (shift_right_word src (BITS_TO_LONGS nbits) off rem (BITMAP_LAST_WORD_MASK nbits) k) j \<longleftrightarrow>
        bit (if Suc (off + k) = BITS_TO_LONGS nbits - 1
             then src ! Suc (off + k) AND BITMAP_LAST_WORD_MASK nbits else src ! Suc (off + k)) j'"
      using True j' low by (simp add: shift_right_word_def bit_or_iff bit_push_bit_iff Let_def j)
    then show ?thesis unfolding i Let_def block_32 [OF j'(1)] bit_masked_word [OF True j'(1)] .
  next
    case oob: False
    then have "nbits \<le> 32 * Suc (off + k)"
      using div_less_BITS_TO_LONGS [of "32 * Suc (off + k)" nbits] by (metis nonzero_mult_div_cancel_left not_less zero_neq_numeral)
    with oob low show ?thesis unfolding i Let_def by (simp add: shift_right_word_def bit_or_iff Let_def)
  qed
qed

lemma test_bitmap_shift_right:
  assumes "nbits \<le> 32 * length dst" "i < nbits" "shift \<le> nbits"
  shows "test_bit_at i (bitmap_shift_right dst src shift nbits) \<longleftrightarrow>
    i + shift < nbits \<and> test_bit_at (i + shift) src"
proof -
  let ?lim = "BITS_TO_LONGS nbits"
  obtain k j where i: "i = 32 * k + j" "j < 32" by (rule nat_div_mod_32E)
  obtain off rem where s: "shift = 32 * off + rem" "rem < 32" by (rule nat_div_mod_32E)
  have lim: "?lim \<le> length dst" "k < ?lim"
    using assms i div_less_BITS_TO_LONGS [OF assms(2)] BITS_TO_LONGS_le_length by auto
  have off: "off \<le> ?lim" using assms(3) s by (auto simp: BITS_TO_LONGS_def DIV_ROUND_UP_def less_eq_div_iff_mult_less_eq)
  have sum: "i + shift = 32 * (off + k) + (j + rem)" by (simp add: i s)
  have nth: "bitmap_shift_right dst src shift nbits ! k =
     (if k < ?lim - off then shift_right_word src ?lim off rem (BITMAP_LAST_WORD_MASK nbits) k else 0)"
    using lim s off by (auto simp: bitmap_shift_right_def Let_def nth_memset_words nth_for_upd)
  show ?thesis
  proof (cases "off + k < ?lim")
    case True
    then have "k < ?lim - off" by simp
    then show ?thesis using nth bit_shift_right_word [OF True i(2) s(2), of src]
      by (simp add: test_bit_at_iff i s Let_def sum [unfolded i s])
  next
    case False
    then have "nbits \<le> i + shift" unfolding sum
      using div_less_BITS_TO_LONGS [of "32 * (off + k)" nbits] 
      by (metis le_add1 nonzero_mult_div_cancel_left not_less order_trans zero_neq_numeral)
    moreover have "\<not> k < ?lim - off" using False by simp
    ultimately show ?thesis using nth i by (simp add: test_bit_at_iff)
  qed
qed

lemma bit_shift_left_word:
  assumes j: "j < 32" and rem: "rem < 32"
  shows "bit (shift_left_word src rem k) j \<longleftrightarrow>
    (if rem \<le> j then bit (src ! k) (j - rem) else 0 < k \<and> bit (src ! (k - 1)) (32 + j - rem))"
proof -
  have "\<not> bit (drop_bit (32 - rem) (w :: u32)) j" if "rem \<le> j" for w
    using that rem by (auto simp: bit_drop_bit_eq dest: bit_imp_le_length)
  moreover have "32 - rem + j = 32 + j - rem" using rem by simp
  ultimately show ?thesis using assms
    by (auto simp: shift_left_word_def bit_or_iff bit_drop_bit_eq bit_push_bit_iff Let_def)
qed

text \<open>The loop of a left shift runs from the last word down, so that no word is read after
  it is written when source and destination are the same array.\<close>

lemma nth_shift_left_fold:
  assumes "n + off \<le> length d"
  shows "length (fold (\<lambda>k d. d[k + off := f k]) (rev [0..<n]) d) = length d"
    "j < length d \<Longrightarrow> fold (\<lambda>k d. d[k + off := f k]) (rev [0..<n]) d ! j =
      (if off \<le> j \<and> j < n + off then f (j - off) else d ! j)"
  using assms by (induction n arbitrary: d) (auto simp: nth_list_update less_Suc_eq)

lemma shift_left_fold_inplace:
  assumes "\<forall>j<n. d ! j = src ! j" "n + off \<le> length d"
  shows "fold (\<lambda>k d. d[k + off := shift_left_word d rem k]) (rev [0..<n]) d =
    fold (\<lambda>k d. d[k + off := shift_left_word src rem k]) (rev [0..<n]) d"
  using assms
proof (induction n arbitrary: d)
  case (Suc n)
  have "shift_left_word d rem n = shift_left_word src rem n"
    using Suc.prems(1) by (simp add: shift_left_word_def)
  moreover have "\<forall>j<n. d[n + off := w] ! j = src ! j" for w
    using Suc.prems by (simp add: nth_list_update)
  ultimately show ?case using Suc by simp
qed simp

lemma bitmap_shift_left_inplace_eq:
  assumes "nbits \<le> 32 * length bm" "shift \<le> nbits"
  shows "bitmap_shift_left_inplace bm shift nbits = bitmap_shift_left bm bm shift nbits"
proof -
  have "shift div 32 \<le> BITS_TO_LONGS nbits"
    using div_le_mono [OF assms(2), of 32] by (simp add: BITS_TO_LONGS_eq)
  then have "BITS_TO_LONGS nbits - shift div 32 + shift div 32 \<le> length bm"
    using BITS_TO_LONGS_le_length [OF assms(1)] by simp
  from shift_left_fold_inplace [OF _ this, of bm "shift mod 32"] show ?thesis
    by (simp only: bitmap_shift_left_inplace_def bitmap_shift_left_def Let_def simp_thms)
qed

lemma test_bitmap_shift_left:
  assumes "nbits \<le> 32 * length dst" "i < nbits" "shift \<le> nbits"
  shows "test_bit_at i (bitmap_shift_left dst src shift nbits) \<longleftrightarrow>
    shift \<le> i \<and> test_bit_at (i - shift) src"
proof -
  let ?lim = "BITS_TO_LONGS nbits"
  obtain k j where i: "i = 32 * k + j" "j < 32" by (rule nat_div_mod_32E)
  obtain off rem where s: "shift = 32 * off + rem" "rem < 32" by (rule nat_div_mod_32E)
  have lim: "?lim \<le> length dst" "k < ?lim"
    using assms i div_less_BITS_TO_LONGS [OF assms(2)] BITS_TO_LONGS_le_length by auto
  have off: "off \<le> ?lim"
    using div_le_mono [OF assms(3), of 32] s by (simp add: BITS_TO_LONGS_eq)
  have nth: "bitmap_shift_left dst src shift nbits ! k =
     (if off \<le> k then shift_left_word src rem (k - off) else 0)"
    using lim s off
    by (auto simp: bitmap_shift_left_def Let_def nth_memset_words nth_shift_left_fold
        nth_shift_left_fold [where off = 0, simplified])
  show ?thesis
  proof (cases "shift \<le> i")
    case True
    then have k: "off \<le> k" using i s by linarith
    show ?thesis
    proof (cases "rem \<le> j")
      case True
      then have d: "i - shift = 32 * (k - off) + (j - rem)" "j - rem < 32" using k i s by auto
      show ?thesis using True \<open>shift \<le> i\<close> k nth i(2) s(2)
        unfolding test_bit_at_iff d(1) block_32 [OF d(2)] by (simp add: i(1) bit_shift_left_word)
    next
      case False
      then have "off < k" using True i s by linarith
      then have d: "i - shift = 32 * (k - off - 1) + (32 + j - rem)" "32 + j - rem < 32"
        using False i s by auto
      show ?thesis using False True \<open>off < k\<close> nth i(2) s(2)
        unfolding test_bit_at_iff d(1) block_32 [OF d(2)] by (simp add: i(1) bit_shift_left_word)
    qed
  next
    case False
    then have "k < off \<or> k = off \<and> j < rem" using i s by linarith
    then show ?thesis using False nth i s(2) by (auto simp: test_bit_at_iff bit_shift_left_word)
  qed
qed

section \<open>Emptiness\<close>

lemma bitmap_empty_iff: "bitmap_empty src nbits \<longleftrightarrow> (\<forall>i<nbits. \<not> test_bit_at i src)"
  unfolding bitmap_empty_def find_first_bit_eq
  by (rule next_index_cases [OF le0 [of nbits], where P = "\<lambda>i. test_bit_at i src"]) auto

lemma bitmap_full_iff: "bitmap_full src nbits \<longleftrightarrow> (\<forall>i<nbits. test_bit_at i src)"
  unfolding bitmap_full_def find_first_zero_bit_eq
  by (rule next_index_cases [OF le0 [of nbits], where P = "\<lambda>i. \<not> test_bit_at i src"]) auto

section \<open>Properties\<close>

text \<open>\<^verbatim>\<open>bitmap_set\<close> sets exactly the bits of the range and \<^verbatim>\<open>bitmap_clear\<close> clears exactly
  those, whatever the position of the range inside the words; both keep the array's length.\<close>

theorem bitmap_set_clear_range:
  assumes "0 \<le> len" "int start + len \<le> int (32 * length bm)"
  shows "(\<forall>i. test_bit_at i (bitmap_set bm start len) = (i \<in> {start..<start + nat len} \<or> test_bit_at i bm)) \<and>
    (\<forall>i. test_bit_at i (bitmap_clear bm start len) = (i \<notin> {start..<start + nat len} \<and> test_bit_at i bm)) \<and>
    length (bitmap_set bm start len) = length bm \<and> length (bitmap_clear bm start len) = length bm"
  using bitmap_set_spec [OF assms] bitmap_clear_spec [OF assms] by simp

text \<open>\<^verbatim>\<open>__bitmap_weight\<close> counts the set bits below \<open>bits\<close>, whatever the last word holds
  beyond them.\<close>

theorem bitmap_weight_counts: "bitmap_weight bm bits = card {i. i < bits \<and> test_bit_at i bm}"
  by (rule bitmap_weight_card)

text \<open>The logical shifts move every bit by \<open>shift\<close> positions and fill with zeros; the
  right shift takes no bit from beyond \<open>nbits\<close>.\<close>

theorem bitmap_shift_moves:
  assumes "nbits \<le> 32 * length dst" "i < nbits" "shift \<le> nbits"
  shows "test_bit_at i (bitmap_shift_right dst src shift nbits) = (i + shift < nbits \<and> test_bit_at (i + shift) src) \<and>
    test_bit_at i (bitmap_shift_left dst src shift nbits) = (shift \<le> i \<and> test_bit_at (i - shift) src)"
  using test_bitmap_shift_right [OF assms] test_bitmap_shift_left [OF assms] by simp

text \<open>The left shift may run in place: the call with one array as source and
  destination gives the result of the call with two arrays.\<close>

theorem bitmap_shift_left_aliasing:
  assumes "nbits \<le> 32 * length bm" "shift \<le> nbits"
  shows "bitmap_shift_left_inplace bm shift nbits = bitmap_shift_left bm bm shift nbits"
  using assms by (rule bitmap_shift_left_inplace_eq)

text \<open>The comparisons decide equality, intersection, inclusion, emptiness and fullness of
  the sets of bits below \<open>bits\<close>.\<close>

theorem bitmap_comparisons:
  "bitmap_equal b1 b2 bits = ({i. i < bits \<and> test_bit_at i b1} = {i. i < bits \<and> test_bit_at i b2}) \<and>
   bitmap_intersects b1 b2 bits = ({i. i < bits \<and> test_bit_at i b1} \<inter> {i. i < bits \<and> test_bit_at i b2} \<noteq> {}) \<and>
   bitmap_subset b1 b2 bits = ({i. i < bits \<and> test_bit_at i b1} \<subseteq> {i. i < bits \<and> test_bit_at i b2}) \<and>
   bitmap_empty b1 bits = ({i. i < bits \<and> test_bit_at i b1} = {}) \<and>
   bitmap_full b1 bits = ({i. i < bits \<and> test_bit_at i b1} = {i. i < bits})"
  by (auto simp: bitmap_equal_iff bitmap_intersects_iff bitmap_subset_iff bitmap_empty_iff bitmap_full_iff
      set_eq_iff)

text \<open>\<^verbatim>\<open>__bitmap_and\<close> and \<^verbatim>\<open>__bitmap_andnot\<close> store the intersection and the difference,
  clear the unused bits of the last word, and return whether the stored bitmap has a bit
  set; \<^verbatim>\<open>__bitmap_or\<close>, \<^verbatim>\<open>__bitmap_xor\<close> and \<^verbatim>\<open>__bitmap_complement\<close> store the union, the
  symmetric difference and the complement of the valid bits.\<close>

theorem bitmap_boolean_ops:
  assumes "bits \<le> 32 * length dst"
  shows "fst (bitmap_and dst b1 b2 bits) = (\<exists>i<bits. test_bit_at i b1 \<and> test_bit_at i b2) \<and>
    fst (bitmap_andnot dst b1 b2 bits) = (\<exists>i<bits. test_bit_at i b1 \<and> \<not> test_bit_at i b2) \<and>
    (\<forall>i<32 * BITS_TO_LONGS bits.
       test_bit_at i (snd (bitmap_and dst b1 b2 bits)) = (i < bits \<and> test_bit_at i b1 \<and> test_bit_at i b2) \<and>
       test_bit_at i (snd (bitmap_andnot dst b1 b2 bits)) = (i < bits \<and> test_bit_at i b1 \<and> \<not> test_bit_at i b2)) \<and>
    (\<forall>i<bits. test_bit_at i (bitmap_or dst b1 b2 bits) = (test_bit_at i b1 \<or> test_bit_at i b2) \<and>
       test_bit_at i (bitmap_xor dst b1 b2 bits) = (test_bit_at i b1 \<noteq> test_bit_at i b2) \<and>
       test_bit_at i (bitmap_complement dst b1 bits) = (\<not> test_bit_at i b1))"
  using assms by (auto simp: bitmap_simps)

text \<open>\<^verbatim>\<open>__bitmap_complement\<close> sets every unused bit of the last word that is clear in its
  source: the promise in the head comment of the file, that the operations produce no set
  unused bits when given none, does not hold for it.\<close>

theorem bitmap_complement_sets_unused_bits:
  assumes "bits \<le> 32 * length dst" "bits \<le> i" "i < 32 * BITS_TO_LONGS bits" "\<not> test_bit_at i src"
  shows "test_bit_at i (bitmap_complement dst src bits)"
proof -
  have "i div 32 < BITS_TO_LONGS bits" using assms(3) by linarith
  then show ?thesis using assms BITS_TO_LONGS_le_length [OF assms(1)]
    by (simp add: bitmap_complement_eq_for_upd nth_for_upd bit_not_iff test_bit_at_iff)
qed

end
