(* ===== verification/Bitmap_Alloc.thy ===== *)
theory Bitmap_Alloc
  imports Bitmap
begin

text \<open>
  Allocation in bitmaps, \<^verbatim>\<open>lib/bitmap.c\<close>: the search for an aligned area of clear bits
  (\<^verbatim>\<open>bitmap_find_next_zero_area_off\<close>) and the region operations on naturally aligned
  blocks of a power of two bits (\<^verbatim>\<open>bitmap_find_free_region\<close> and relatives).

  The area search computes on 32-bit words, since its alignment arithmetic may wrap. It
  jumps back with \<^verbatim>\<open>goto again\<close>, so it takes fuel; \<open>None\<close> means that the fuel ran out, and
  \<open>sz - start + 1\<close> rounds are shown to be enough when nothing wraps. The region order of the
  C code is an \<^verbatim>\<open>int\<close>; the shift \<^verbatim>\<open>1 << order\<close> is a power of two here.
\<close>

section \<open>Free aligned areas\<close>

fun bitmap_find_next_zero_area_off ::
  "nat \<Rightarrow> bitmap \<Rightarrow> u32 \<Rightarrow> u32 \<Rightarrow> u32 \<Rightarrow> u32 \<Rightarrow> u32 \<Rightarrow> u32 option" where
  "bitmap_find_next_zero_area_off 0 bm sz start nr align_mask align_offset = None"
| "bitmap_find_next_zero_area_off (Suc fuel) bm sz start nr align_mask align_offset =
     (let index = of_nat (find_next_zero_bit bm (unat sz) (unat start));
          index = ALIGN_MASK (index + align_offset) align_mask - align_offset;
          end' = index + nr
      in if end' > sz then Some end'
         else let i = find_next_bit bm (unat end') (unat index)
              in if i < unat end'
                 then bitmap_find_next_zero_area_off fuel bm sz (of_nat i + 1) nr align_mask align_offset
                 else Some index)"

definition bitmap_find_next_zero_area :: "nat \<Rightarrow> bitmap \<Rightarrow> u32 \<Rightarrow> u32 \<Rightarrow> u32 \<Rightarrow> u32 \<Rightarrow> u32 option" where
  "bitmap_find_next_zero_area fuel bm sz start nr align_mask =
     bitmap_find_next_zero_area_off fuel bm sz start nr align_mask 0"

section \<open>Regions of a power of two bits\<close>

datatype reg_op = REG_OP_ISFREE | REG_OP_ALLOC | REG_OP_RELEASE

definition reg_mask :: "nat \<Rightarrow> nat \<Rightarrow> u32" where
  "reg_mask nbitsinlong offset =
     (let m = push_bit (nbitsinlong - 1) 1; m = m + (m - 1) in push_bit offset m)"

definition reg_op :: "bitmap \<Rightarrow> nat \<Rightarrow> nat \<Rightarrow> reg_op \<Rightarrow> int \<times> bitmap" where
  "reg_op bm pos order op =
     (let nbits_reg = 2 ^ order;
          index = pos div 32;
          offset = pos - index * 32;
          nlongs_reg = BITS_TO_LONGS nbits_reg;
          nbitsinlong = min nbits_reg 32;
          m = reg_mask nbitsinlong offset
      in case op of
           REG_OP_ISFREE \<Rightarrow>
             (if list_ex (\<lambda>i. bm ! (index + i) AND m \<noteq> 0) [0..<nlongs_reg] then (0, bm) else (1, bm))
         | REG_OP_ALLOC \<Rightarrow>
             (0, fold (\<lambda>i b. b[index + i := b ! (index + i) OR m]) [0..<nlongs_reg] bm)
         | REG_OP_RELEASE \<Rightarrow>
             (0, fold (\<lambda>i b. b[index + i := b ! (index + i) AND NOT m]) [0..<nlongs_reg] bm))"




definition bitmap_release_region :: "bitmap \<Rightarrow> nat \<Rightarrow> nat \<Rightarrow> bitmap" where
  "bitmap_release_region bm pos order = snd (reg_op bm pos order REG_OP_RELEASE)"

definition bitmap_allocate_region :: "bitmap \<Rightarrow> nat \<Rightarrow> nat \<Rightarrow> int \<times> bitmap" where
  "bitmap_allocate_region bm pos order =
     (if fst (reg_op bm pos order REG_OP_ISFREE) = 0 then (- EBUSY, bm)
      else reg_op bm pos order REG_OP_ALLOC)"

section \<open>The area search\<close>

text \<open>\<open>zero_area bm sz nr k off r\<close>: bits \<open>r\<close> to \<open>r + nr - 1\<close> lie below \<open>sz\<close>, are clear,
  and \<open>r + off\<close> is a multiple of \<open>2 ^ k\<close>.\<close>

definition zero_area :: "bitmap \<Rightarrow> nat \<Rightarrow> nat \<Rightarrow> nat \<Rightarrow> nat \<Rightarrow> nat \<Rightarrow> bool" where
  "zero_area bm sz nr k off r \<longleftrightarrow>
     r + nr \<le> sz \<and> 2 ^ k dvd r + off \<and> (\<forall>i. r \<le> i \<and> i < r + nr \<longrightarrow> \<not> test_bit_at i bm)"

text \<open>\<open>first_area A sz s res\<close>: \<open>res\<close> is the least position from \<open>s\<close> on that satisfies \<open>A\<close>,
  or a number above \<open>sz\<close> when there is none.\<close>

definition first_area :: "(nat \<Rightarrow> bool) \<Rightarrow> nat \<Rightarrow> nat \<Rightarrow> nat \<Rightarrow> bool" where
  "first_area A sz s res \<longleftrightarrow>
     (res \<le> sz \<longrightarrow> s \<le> res \<and> A res \<and> (\<forall>r. s \<le> r \<and> A r \<longrightarrow> res \<le> r)) \<and>
     (sz < res \<longrightarrow> (\<forall>r. s \<le> r \<longrightarrow> \<not> A r))"

lemma next_zero_candidate:
  fixes bm :: bitmap and sz s :: nat
  assumes "0 < nr"
  defines "z \<equiv> find_next_zero_bit bm sz s"
  shows "z \<le> sz" "s \<le> sz \<Longrightarrow> s \<le> z" "sz \<le> s \<Longrightarrow> z = sz"
    "zero_area bm sz nr k off r \<Longrightarrow> s \<le> r \<Longrightarrow> z \<le> r"
proof -
  show beyond: "z = sz" if "sz \<le> s" using that by (simp add: z_def find_next_beyond)
  have eq: "z = next_index (\<lambda>i. \<not> test_bit_at i bm) s sz" if "s \<le> sz"
    using that by (simp add: z_def find_next_zero_bit_eq)
  show "z \<le> sz" by (cases "s \<le> sz") (simp_all add: eq next_index_le beyond)
  show "s \<le> z" if "s \<le> sz" using that by (simp add: eq next_index_ge)
  assume a: "zero_area bm sz nr k off r" "s \<le> r"
  then have r: "r < sz" "\<not> test_bit_at r bm" using assms(1) by (auto simp: zero_area_def)
  then have "s \<le> sz" using a by simp
  then show "z \<le> r" unfolding eq [OF \<open>s \<le> sz\<close>]
    by (cases rule: next_index_cases [where P = "\<lambda>i. \<not> test_bit_at i bm"])
      (use r a(2) in \<open>auto simp: not_le [symmetric]\<close>)
qed

lemma unat_aligned_index:
  assumes "z + unat off + 2 ^ k \<le> 2 ^ 32"
  defines "index \<equiv> unat (ALIGN_MASK (of_nat z + off) (mask k) - off)"
  shows "z \<le> index" "index < z + 2 ^ k" "2 ^ k dvd index + unat off"
proof -
  have k: "(0 :: nat) < 2 ^ k" by simp
  have "z + unat off < 2 ^ 32" using less_le_trans [OF _ assms(1), of "z + unat off"] k by simp
  moreover from this have z: "unat (of_nat z :: u32) = z" by (simp add: unat_of_nat_32)
  ultimately have s: "unat (of_nat z + off) = z + unat off"
    by (simp add: unat_add_32)
  define a where "a = unat (ALIGN_MASK (of_nat z + off) (mask k))"
  have a: "z + unat off \<le> a" "a < z + unat off + 2 ^ k" "2 ^ k dvd a"
    using unat_ALIGN_MASK [of "of_nat z + off" k] assms(1) s by (simp_all add: a_def)
  then have i: "index = a - unat off"
    unfolding index_def a_def by (simp add: unat_sub word_le_nat_alt)
  show "z \<le> index" "index < z + 2 ^ k" "2 ^ k dvd index + unat off" using a unfolding i by auto
qed

lemma bitmap_find_next_zero_area_off_spec:
  assumes "0 < unat nr" "unat sz + unat nr + unat off + 2 ^ k \<le> 2 ^ 32" "unat sz - unat start < fuel"
  shows "\<exists>res. bitmap_find_next_zero_area_off fuel bm sz start nr (mask k) off = Some res \<and>
    first_area (zero_area bm (unat sz) (unat nr) k (unat off)) (unat sz) (unat start) (unat res)"
  using assms(3)
proof (induction fuel arbitrary: start)
  case (Suc fuel)
  let ?A = "zero_area bm (unat sz) (unat nr) k (unat off)"
  define z where "z = find_next_zero_bit bm (unat sz) (unat start)"
  define index where "index = ALIGN_MASK (of_nat z + off) (mask k) - off"
  note cand = next_zero_candidate [OF assms(1), where bm = bm and sz = "unat sz" and s = "unat start", folded z_def]
  have zoff: "z + unat off + 2 ^ k \<le> 2 ^ 32" using cand(1) assms(2) by linarith
  note idx = unat_aligned_index [OF zoff, folded index_def]
  have e: "unat (index + nr) = unat index + unat nr"
  proof -
    have "unat index + unat nr < 2 ^ 32" using idx cand(1) assms(2) by simp
    then show ?thesis by (simp add: unat_add_32)
  qed
  have least: "unat index \<le> r" if "?A r" "unat start \<le> r" for r
    using dvd_between [OF idx(3), of "r + unat off" "z + unat off"] cand(4) [OF that] idx(2) that(1)
    by (simp add: zero_area_def)
  show ?case
  proof (cases "index + nr > sz")
    case True
    then have big: "unat sz < unat index + unat nr" by (simp add: word_less_nat_alt e)
    have "\<not> ?A r" if "unat start \<le> r" for r
      using least [OF _ that] big by (auto simp: zero_area_def)
    with True big show ?thesis
      by (simp add: Let_def z_def [symmetric] index_def [symmetric] first_area_def e)
  next
    case False
    then have fit: "unat index + unat nr \<le> unat sz" by (simp add: word_less_nat_alt e)
    define i where "i = find_next_bit bm (unat (index + nr)) (unat index)"
    have "unat index \<le> unat (index + nr)" by (simp add: e)
    then show ?thesis
    proof (cases rule: next_index_cases [where P = "\<lambda>i. test_bit_at i bm"])
      case found
      then have i: "unat index \<le> i" "i < unat (index + nr)" "test_bit_at i bm"
        by (simp_all add: i_def find_next_bit_eq e)
      have s': "unat (of_nat i + 1 :: u32) = i + 1"
      proof -
        have "i + 1 < 2 ^ 32" using i(2) assms e fit by simp
        then show ?thesis using unat_of_nat_32 [of "i + 1"] by (simp add: add.commute)
      qed
      have "unat start \<le> z"
        using cand(2,3) idx(1) fit assms(1) by (cases "unat start \<le> unat sz") auto
      then have up: "unat start \<le> i" using idx(1) i(1) by simp
      then have "unat sz - unat (of_nat i + 1 :: u32) < fuel" using Suc.prems s' i(2) fit e by simp
      from Suc.IH [OF this] obtain res where
        res: "bitmap_find_next_zero_area_off fuel bm sz (of_nat i + 1) nr (mask k) off = Some res"
          "first_area ?A (unat sz) (i + 1) (unat res)" by (auto simp: s')
      have "i + 1 \<le> r" if "?A r" "unat start \<le> r" for r
      proof (rule ccontr)
        assume "\<not> i + 1 \<le> r"
        then have "r \<le> i" "i < r + unat nr" using least [OF that] i(2) unfolding e by linarith+
        then show False using that(1) i(3) by (simp add: zero_area_def)
      qed
      then have "first_area ?A (unat sz) (unat start) (unat res)"
        using res(2) up unfolding first_area_def by (meson le_add1 order_trans)
      then show ?thesis using False i(2) res(1)
        by (simp add: Let_def z_def [symmetric] index_def [symmetric] i_def [symmetric])
    next
      case none
      then have "i = unat (index + nr)" by (simp add: i_def find_next_bit_eq e)
      moreover have "?A (unat index)" using none idx(3) fit e by (auto simp: zero_area_def)
      moreover have "unat start \<le> unat index"
        using cand(2,3) idx(1) fit assms(1) by (cases "unat start \<le> unat sz") auto
      ultimately show ?thesis using False fit least
        by (simp add: Let_def z_def [symmetric] index_def [symmetric] i_def [symmetric] first_area_def)
    qed
  qed
qed simp

section \<open>The region operations\<close>

lemma reg_mask_eq: "0 < k \<Longrightarrow> reg_mask k offset = push_bit offset (mask k)"
proof -
  assume "0 < k"
  then obtain j where "k = Suc j" by (cases k) auto
  then show ?thesis
    by (simp add: reg_mask_def push_bit_eq_mult mask_eq_exp_minus_1 algebra_simps)
qed

text \<open>The words and the mask of a region select its bits, for an aligned position.\<close>

lemma region_bits:
  assumes "2 ^ order dvd pos" "j < 32"
  shows "pos div 32 \<le> q \<and> q < pos div 32 + BITS_TO_LONGS (2 ^ order) \<and>
      bit (reg_mask (min (2 ^ order) 32) (pos - pos div 32 * 32)) j \<longleftrightarrow>
    pos \<le> 32 * q + j \<and> 32 * q + j < pos + 2 ^ order"
proof (cases "order < 5")
  case True
  then have "order \<in> {0, 1, 2, 3, 4}" by auto
  then have dvd: "(2 :: nat) ^ order dvd 32" "(2 :: nat) ^ order < 32" by auto
  obtain p r where pr: "pos = 32 * p + r" "r < 32" by (rule nat_div_mod_32E)
  have "r + 2 ^ order \<le> 32"
    using dvd_between [of "2 ^ order" "r + 2 ^ order" 32 "Suc r"] assms(1) pr dvd
    by (simp add: dvd_add_right_iff)
  moreover have "BITS_TO_LONGS (2 ^ order) = 1" using dvd(2) by (simp add: BITS_TO_LONGS_def DIV_ROUND_UP_def div_nat_eqI)
  moreover have "bit (reg_mask (min (2 ^ order) 32) (pos - pos div 32 * 32)) j \<longleftrightarrow> r \<le> j \<and> j < r + 2 ^ order"
    using dvd(2) pr assms(2) by (auto simp: reg_mask_eq bit_push_bit_iff bit_mask_iff)
  ultimately show ?thesis
    using word_window [OF assms(2), of "r + 2 ^ order" q p r] pr by auto
next
  case False
  then obtain o' where o: "order = 5 + o'" using le_Suc_ex [of 5 order] by auto
  then have n: "(2 :: nat) ^ order = 32 * 2 ^ o'" by (simp add: power_add)
  then obtain p where p: "pos = 32 * (2 ^ o' * p)" using assms(1) by (auto simp: dvd_def)
  have "BITS_TO_LONGS (2 ^ order) = 2 ^ o'" unfolding n by (simp add: BITS_TO_LONGS_eq)
  moreover have "bit (reg_mask (min (2 ^ order) 32) (pos - pos div 32 * 32)) j"
    using n assms(2) by (simp add: p reg_mask_eq bit_mask_iff min_absorb2)
  ultimately show ?thesis using assms(2) unfolding n p by auto
qed

lemma fold_region_upd:
  assumes "s + n \<le> length bm"
  shows "length (fold (\<lambda>i b. b[s + i := f (b ! (s + i))]) [0..<n] bm) = length bm"
    "q < length bm \<Longrightarrow> fold (\<lambda>i b. b[s + i := f (b ! (s + i))]) [0..<n] bm ! q =
      (if s \<le> q \<and> q < s + n then f (bm ! q) else bm ! q)"
  using assms by (induction n) (auto simp: nth_list_update)

text \<open>An aligned region inside the bitmap.\<close>

definition region_ok :: "bitmap \<Rightarrow> nat \<Rightarrow> nat \<Rightarrow> bool" where
  "region_ok bm pos order \<longleftrightarrow> 2 ^ order dvd pos \<and> pos + 2 ^ order \<le> 32 * length bm"

lemma region_fits:
  assumes "region_ok bm pos order"
  shows "pos div 32 + BITS_TO_LONGS (2 ^ order) \<le> length bm"
proof -
  let ?n = "BITS_TO_LONGS (2 ^ order)" and ?m = "reg_mask (min (2 ^ order) 32) (pos - pos div 32 * 32)"
  define q where "q = pos div 32 + ?n - 1"
  have n: "0 < ?n" using div_less_BITS_TO_LONGS [of 0 "2 ^ order"] by simp
  obtain j where j: "j < 32" "bit ?m j"
  proof (rule that [of "pos mod 32"])
    show "bit ?m (pos mod 32)" by (simp add: reg_mask_eq bit_push_bit_iff bit_mask_iff minus_div_mult_eq_mod)
  qed simp
  have "pos div 32 \<le> q \<and> q < pos div 32 + ?n \<and> bit ?m j" using n j by (auto simp: q_def)
  then have "32 * q + j < pos + 2 ^ order"
    using region_bits [OF _ j(1)] assms by (simp add: region_ok_def)
  then have "32 * q < 32 * length bm" using assms by (simp add: region_ok_def)
  then show ?thesis using n by (simp add: q_def)
qed

lemma reg_op_isfree:
  assumes "2 ^ order dvd pos"
  shows "reg_op bm pos order REG_OP_ISFREE =
    (if \<exists>i. pos \<le> i \<and> i < pos + 2 ^ order \<and> test_bit_at i bm then 0 else 1, bm)"
proof -
  let ?n = "BITS_TO_LONGS (2 ^ order)" and ?m = "reg_mask (min (2 ^ order) 32) (pos - pos div 32 * 32)"
  have "list_ex (\<lambda>i. bm ! (pos div 32 + i) AND ?m \<noteq> 0) [0..<?n] \<longleftrightarrow>
      (\<exists>q. pos div 32 \<le> q \<and> q < pos div 32 + ?n \<and> bm ! q AND ?m \<noteq> 0)"
    by (rule list_ex_window)
  also have "\<dots> \<longleftrightarrow> (\<exists>q j. j < 32 \<and> (pos div 32 \<le> q \<and> q < pos div 32 + ?n \<and> bit ?m j) \<and> bit (bm ! q) j)"
    unfolding word_not_zero_iff_bit bit_and_iff by auto
  also have "\<dots> \<longleftrightarrow> (\<exists>q j. j < 32 \<and> (pos \<le> 32 * q + j \<and> 32 * q + j < pos + 2 ^ order) \<and> bit (bm ! q) j)"
    using region_bits [OF assms] by blast
  also have "\<dots> \<longleftrightarrow> (\<exists>i. pos \<le> i \<and> i < pos + 2 ^ order \<and> test_bit_at i bm)"
    unfolding ex_block_32 [of "\<lambda>i. pos \<le> i \<and> i < pos + 2 ^ order \<and> test_bit_at i bm"]
    by (intro iff_exI) (auto simp: test_bit_at_iff block_32)
  finally show ?thesis unfolding reg_op_def Let_def by auto
qed

lemma test_region_fold:
  assumes "region_ok bm pos order" "i < 32 * length bm" "writes op c"
  defines "m \<equiv> reg_mask (min (2 ^ order) 32) (pos - pos div 32 * 32)"
  shows "test_bit_at i (fold (\<lambda>i b. b[pos div 32 + i := op (b ! (pos div 32 + i)) m])
      [0..<BITS_TO_LONGS (2 ^ order)] bm) \<longleftrightarrow>
    (if pos \<le> i \<and> i < pos + 2 ^ order then c else test_bit_at i bm)"
proof -
  obtain q j where i: "i = 32 * q + j" "j < 32" by (rule nat_div_mod_32E)
  then have q: "q < length bm" using assms(2) by simp
  have "pos div 32 \<le> q \<and> q < pos div 32 + BITS_TO_LONGS (2 ^ order) \<and> bit m j \<longleftrightarrow>
    pos \<le> i \<and> i < pos + 2 ^ order"
    using region_bits [OF _ i(2)] assms(1) unfolding m_def region_ok_def i(1) by blast
  then show ?thesis
    using fold_region_upd(2) [OF region_fits [OF assms(1)] q, of "\<lambda>w. op w m"] assms(3) i
    by (auto simp: test_bit_at_iff writes_def)
qed

lemma reg_op_alloc:
  assumes "region_ok bm pos order"
  shows "fst (reg_op bm pos order REG_OP_ALLOC) = 0"
    "length (snd (reg_op bm pos order REG_OP_ALLOC)) = length bm"
    "i < 32 * length bm \<Longrightarrow> test_bit_at i (snd (reg_op bm pos order REG_OP_ALLOC)) \<longleftrightarrow>
      pos \<le> i \<and> i < pos + 2 ^ order \<or> test_bit_at i bm"
  using test_region_fold [OF assms _ writes_or, of i] fold_region_upd(1) [OF region_fits [OF assms]]
  by (auto simp: reg_op_def Let_def)

lemma reg_op_release:
  assumes "region_ok bm pos order"
  shows "length (snd (reg_op bm pos order REG_OP_RELEASE)) = length bm"
    "i < 32 * length bm \<Longrightarrow> test_bit_at i (snd (reg_op bm pos order REG_OP_RELEASE)) \<longleftrightarrow>
      \<not> (pos \<le> i \<and> i < pos + 2 ^ order) \<and> test_bit_at i bm"
  using test_region_fold [OF assms _ writes_andnot, of i] fold_region_upd(1) [OF region_fits [OF assms]]
  by (auto simp: reg_op_def Let_def)

definition region_free :: "bitmap \<Rightarrow> nat \<Rightarrow> nat \<Rightarrow> bool" where
  "region_free bm pos order \<longleftrightarrow> (\<forall>i. pos \<le> i \<and> i < pos + 2 ^ order \<longrightarrow> \<not> test_bit_at i bm)"

lemma isfree_iff:
  "2 ^ order dvd pos \<Longrightarrow> fst (reg_op bm pos order REG_OP_ISFREE) = 0 \<longleftrightarrow> \<not> region_free bm pos order"
  by (auto simp: reg_op_isfree region_free_def)


section \<open>The search as an interface\<close>

text \<open>What the clients of the area search (\<^verbatim>\<open>lib/iommu-helper.c\<close>, \<^verbatim>\<open>mm/cma.c\<close>) rely on: on a
  bitmap of fewer than \<open>bound\<close> bits, where no sum wraps, the search returns, and it returns
  the first aligned area of clear bits or a number above the size.\<close>

locale area_search =
  fixes find_area :: "bitmap \<Rightarrow> u32 \<Rightarrow> u32 \<Rightarrow> u32 \<Rightarrow> u32 \<Rightarrow> u32 \<Rightarrow> u32 option" and bound :: nat
  assumes find_area:
    "0 < unat nr \<Longrightarrow> unat sz + unat nr + unat off + 2 ^ k \<le> 2 ^ 32 \<Longrightarrow> unat sz < bound \<Longrightarrow>
     \<exists>res. find_area bm sz start nr (mask k) off = Some res \<and>
       first_area (zero_area bm (unat sz) (unat nr) k (unat off)) (unat sz) (unat start) (unat res)"
begin

text \<open>The clients compare the result with the size by \<^verbatim>\<open>>=\<close>: below the size it is the first
  area, at or above it there is none.\<close>

lemma find_area_cases:
  assumes "0 < unat nr" "unat sz + unat nr + unat off + 2 ^ k \<le> 2 ^ 32" "unat sz < bound"
  obtains (found) res where "find_area bm sz start nr (mask k) off = Some res" "res < sz"
      "zero_area bm (unat sz) (unat nr) k (unat off) (unat res)" "unat start \<le> unat res"
      "\<forall>r. unat start \<le> r \<and> zero_area bm (unat sz) (unat nr) k (unat off) r \<longrightarrow> unat res \<le> r"
    | (none) res where "find_area bm sz start nr (mask k) off = Some res" "\<not> res < sz"
      "\<forall>r. unat start \<le> r \<longrightarrow> \<not> zero_area bm (unat sz) (unat nr) k (unat off) r"
proof -
  let ?A = "zero_area bm (unat sz) (unat nr) k (unat off)"
  obtain res where res: "find_area bm sz start nr (mask k) off = Some res"
    "first_area ?A (unat sz) (unat start) (unat res)" using find_area [OF assms] by blast
  have "\<not> ?A (unat sz)" using assms(1) by (simp add: zero_area_def)
  then have "unat res \<noteq> unat sz" using res(2) unfolding first_area_def by auto
  then show ?thesis
    using res found none by (cases "res < sz") (auto simp: first_area_def word_less_nat_alt)
qed

end

interpretation zero_area: area_search "bitmap_find_next_zero_area_off fuel" fuel for fuel
  by unfold_locales (erule (1) bitmap_find_next_zero_area_off_spec, erule le_less_trans [OF diff_le_self])

section \<open>Properties\<close>

text \<open>C37: where no sum wraps, \<^verbatim>\<open>bitmap_find_next_zero_area_off\<close> returns (fuel above the number
  of bits left suffices): at most the size, the result is the first position from the start
  on whose \<open>nr\<close> bits are clear and lie below the size and which, plus the alignment offset,
  is a multiple of the alignment; above the size, no such position exists.\<close>

theorem zero_area_first:
  assumes "0 < unat nr" "unat sz + unat nr + unat off + 2 ^ k \<le> 2 ^ 32" "unat sz - unat start < fuel"
  shows "\<exists>res. bitmap_find_next_zero_area_off fuel bm sz start nr (mask k) off = Some res \<and>
    (if res \<le> sz
     then unat start \<le> unat res \<and> zero_area bm (unat sz) (unat nr) k (unat off) (unat res) \<and>
       (\<forall>r \<ge> unat start. zero_area bm (unat sz) (unat nr) k (unat off) r \<longrightarrow> unat res \<le> r)
     else \<forall>r \<ge> unat start. \<not> zero_area bm (unat sz) (unat nr) k (unat off) r)"
proof -
  obtain res where res: "bitmap_find_next_zero_area_off fuel bm sz start nr (mask k) off = Some res"
    "first_area (zero_area bm (unat sz) (unat nr) k (unat off)) (unat sz) (unat start) (unat res)"
    using bitmap_find_next_zero_area_off_spec [OF assms] by blast
  show ?thesis
    by (intro exI [of _ res] conjI res(1))
      (use res(2) in \<open>simp add: first_area_def word_le_nat_alt not_le split: if_split\<close>)
qed

theorem zero_area_first_witness:
  "0 < unat (3 :: u32) \<and> unat (40 :: u32) + unat (3 :: u32) + unat (0 :: u32) + 2 ^ 2 \<le> 2 ^ 32 \<and>
   unat (40 :: u32) - unat (1 :: u32) < 41 \<and>
   (\<exists>res. bitmap_find_next_zero_area_off 41 [0x10, 0] 40 1 3 (mask 2) 0 = Some res)"
proof -
  have h: "0 < unat (3 :: u32)" "unat (40 :: u32) + unat (3 :: u32) + unat (0 :: u32) + 2 ^ 2 \<le> 2 ^ 32"
    "unat (40 :: u32) - unat (1 :: u32) < 41" by simp_all
  with zero_area_first [OF h, of "[0x10, 0]"] show ?thesis by blast
qed



text \<open>\<^verbatim>\<open>bitmap_allocate_region\<close> succeeds exactly on a free aligned region, and then
  \<^verbatim>\<open>bitmap_release_region\<close> gives the bits back: every bit is as before the allocation.\<close>

theorem allocate_release_region:
  assumes "region_ok bm pos order"
  shows "(fst (bitmap_allocate_region bm pos order) = 0) = region_free bm pos order \<and>
    (fst (bitmap_allocate_region bm pos order) \<noteq> 0 \<longrightarrow>
       bitmap_allocate_region bm pos order = (- EBUSY, bm)) \<and>
    (fst (bitmap_allocate_region bm pos order) = 0 \<longrightarrow>
       (\<forall>i<32 * length bm. test_bit_at i (bitmap_release_region
          (snd (bitmap_allocate_region bm pos order)) pos order) = test_bit_at i bm))"
proof -
  have dvd: "2 ^ order dvd pos" using assms by (simp add: region_ok_def)
  let ?bm = "snd (reg_op bm pos order REG_OP_ALLOC)"
  have ok: "region_ok ?bm pos order" using assms reg_op_alloc(2) [OF assms] by (simp add: region_ok_def)
  have "test_bit_at i (bitmap_release_region ?bm pos order) = test_bit_at i bm"
    if "i < 32 * length bm" "region_free bm pos order" for i
    using reg_op_release(2) [OF ok, of i] reg_op_alloc(2) [OF assms] reg_op_alloc(3) [OF assms, of i] that
    by (auto simp: bitmap_release_region_def region_free_def)
  then show ?thesis
    using reg_op_alloc(1) [OF assms] by (auto simp: bitmap_allocate_region_def isfree_iff [OF dvd] errno_defs)
qed

end
