(* ===== verification/Iommu_Helper.thy ===== *)
theory Iommu_Helper
  imports Bitmap_Alloc
begin

text \<open>
  Allocation of I/O address ranges, \<^verbatim>\<open>lib/iommu-helper.c\<close>: a client of the area search that
  also keeps an allocation from crossing a multiple of \<^verbatim>\<open>boundary_size\<close>. The search is a
  parameter of the loop, and the results on the loop are proved once against the contract
  \<open>area_search\<close>. \<open>None\<close> is \<^verbatim>\<open>BUG_ON\<close>, or that the fuel for \<^verbatim>\<open>goto again\<close> ran out.
\<close>

definition iommu_is_span_boundary :: "u32 \<Rightarrow> u32 \<Rightarrow> u32 \<Rightarrow> u32 \<Rightarrow> bool option" where
  "iommu_is_span_boundary index nr shift boundary_size =
     (if \<not> is_power_of_2 boundary_size then None
      else let shift = (shift + index) AND (boundary_size - 1)
           in Some (shift + nr > boundary_size))"

fun iommu_area_alloc_loop ::
  "(bitmap \<Rightarrow> u32 \<Rightarrow> u32 \<Rightarrow> u32 \<Rightarrow> u32 \<Rightarrow> u32 \<Rightarrow> u32 option) \<Rightarrow> nat \<Rightarrow>
   bitmap \<Rightarrow> u32 \<Rightarrow> u32 \<Rightarrow> u32 \<Rightarrow> u32 \<Rightarrow> u32 \<Rightarrow> u32 \<Rightarrow> (u32 \<times> bitmap) option" where
  "iommu_area_alloc_loop search 0 bm sz start nr shift boundary_size align_mask = None"
| "iommu_area_alloc_loop search (Suc fuel) bm sz start nr shift boundary_size align_mask =
     (case search bm sz start nr align_mask 0 of
        None \<Rightarrow> None
      | Some index \<Rightarrow>
          if index < sz
          then (case iommu_is_span_boundary index nr shift boundary_size of
                  None \<Rightarrow> None
                | Some True \<Rightarrow>
                    iommu_area_alloc_loop search fuel bm sz (ALIGN (shift + index) boundary_size - shift)
                      nr shift boundary_size align_mask
                | Some False \<Rightarrow> Some (index, bitmap_set bm (unat index) (sint nr)))
          else Some (- 1, bm))"

definition iommu_area_alloc ::
  "nat \<Rightarrow> bitmap \<Rightarrow> u32 \<Rightarrow> u32 \<Rightarrow> u32 \<Rightarrow> u32 \<Rightarrow> u32 \<Rightarrow> u32 \<Rightarrow> (u32 \<times> bitmap) option" where
  "iommu_area_alloc fuel bm sz start nr shift boundary_size align_mask =
     iommu_area_alloc_loop (bitmap_find_next_zero_area_off fuel) fuel bm (sz - 1) start nr shift
       boundary_size align_mask"

section \<open>The first area inside one boundary block\<close>

text \<open>An area that does not cross a multiple of \<open>2 ^ n\<close>, counted from \<open>shift\<close>.\<close>

definition within_boundary :: "nat \<Rightarrow> nat \<Rightarrow> nat \<Rightarrow> nat \<Rightarrow> bool" where
  "within_boundary n shift nr r \<longleftrightarrow> (shift + r) mod 2 ^ n + nr \<le> 2 ^ n"

lemma mod_mono_block: "x div d = y div d \<Longrightarrow> x \<le> y \<Longrightarrow> x mod d \<le> y mod (d :: nat)"
  by (metis add_le_cancel_left mult_div_mod_eq)

lemma iommu_is_span_boundary_eq:
  assumes "n < 32" "unat shift + unat index < 2 ^ 32" "2 ^ n + unat nr < 2 ^ 32"
  shows "iommu_is_span_boundary index nr shift (2 ^ n) =
    Some (\<not> within_boundary n (unat shift) (unat nr) (unat index))"
proof -
  let ?m = "(unat shift + unat index) mod 2 ^ n"
  have m: "unat ((shift + index) AND mask n) = ?m" unfolding unat_and_mask unat_add_32 [OF assms(2)] ..
  have "?m < 2 ^ n" by simp
  then have "unat ((shift + index) AND mask n) + unat nr < 2 ^ 32" using assms(3) m by linarith
  then have "unat (((shift + index) AND mask n) + nr) = ?m + unat nr" by (simp only: unat_add_32 m)
  then show ?thesis
    using assms(1) by (auto simp: iommu_is_span_boundary_def is_power_of_2_exp exp_minus_one_mask
        within_boundary_def word_less_nat_alt unat_exp_32)
qed

text \<open>After a crossing the search restarts at the next multiple: it moves on, and skips no area
  that stays inside a block.\<close>

lemma next_boundary:
  assumes n: "unat shift + unat index + 2 ^ n \<le> 2 ^ 32" and nr: "unat nr \<le> 2 ^ n"
    and cross: "\<not> within_boundary n (unat shift) (unat nr) (unat index)"
  defines "s \<equiv> unat (ALIGN (shift + index) (2 ^ n) - shift)"
  shows "unat index < s" "within_boundary n (unat shift) (unat nr) r \<Longrightarrow> unat index \<le> r \<Longrightarrow> s \<le> r"
proof -
  let ?x = "unat shift + unat index"
  have "?x < 2 ^ 32" using n zero_less_power [of "2::nat" n] by linarith
  then have x: "unat (shift + index) = ?x" by (rule unat_add_32)
  define a where "a = unat (ALIGN (shift + index) (2 ^ n))"
  have a: "?x \<le> a" "a < ?x + 2 ^ n" "2 ^ n dvd a"
    using unat_ALIGN_MASK [of "shift + index" n] n
    by (simp_all add: a_def ALIGN_def exp_minus_one_mask x)
  have s: "s = a - unat shift" unfolding s_def a_def
    using a(1) by (subst unat_sub) (simp_all add: word_le_nat_alt a_def)
  have "\<not> 2 ^ n dvd ?x" using cross nr by (auto simp: within_boundary_def)
  then have "?x < a" using a by (metis le_neq_implies_less)
  then show "unat index < s" unfolding s by linarith
  assume r: "within_boundary n (unat shift) (unat nr) r" "unat index \<le> r"
  show "s \<le> r"
  proof (rule ccontr)
    let ?y = "unat shift + r"
    assume "\<not> s \<le> r"
    then have y: "?y < a" "?x \<le> ?y" using s r(2) by auto
    obtain c where c: "a = 2 ^ n * c" using a(3) by (auto simp: dvd_def)
    have "?x div 2 ^ n = c - 1" "?y div 2 ^ n = c - 1"
      using a(2) y c by (auto intro!: div_nat_eqI simp: algebra_simps diff_mult_distrib2)
    then have "?x mod 2 ^ n \<le> ?y mod 2 ^ n" using y(2) by (intro mod_mono_block) simp_all
    with cross r(1) show False by (simp add: within_boundary_def)
  qed
qed

definition iommu_area :: "bitmap \<Rightarrow> nat \<Rightarrow> nat \<Rightarrow> nat \<Rightarrow> nat \<Rightarrow> nat \<Rightarrow> nat \<Rightarrow> bool" where
  "iommu_area bm sz nr k shift n r \<longleftrightarrow> zero_area bm sz nr k 0 r \<and> within_boundary n shift nr r"

context area_search
begin

lemma iommu_area_alloc_loop_spec:
  assumes nr: "0 < unat nr" "unat nr \<le> 2 ^ n" "n < 32" and sz: "unat sz < bound"
    and fit: "unat sz + unat nr + 2 ^ k \<le> 2 ^ 32" "unat shift + unat sz + 2 ^ n \<le> 2 ^ 32"
      "2 ^ n + unat nr < 2 ^ 32"
    and fuel: "unat sz - unat start < fuel"
  shows "(\<exists>r. iommu_area_alloc_loop find_area fuel bm sz start nr shift (2 ^ n) (mask k) =
        Some (r, bitmap_set bm (unat r) (sint nr)) \<and>
      unat start \<le> unat r \<and> iommu_area bm (unat sz) (unat nr) k (unat shift) n (unat r) \<and>
      (\<forall>r'. unat start \<le> r' \<and> iommu_area bm (unat sz) (unat nr) k (unat shift) n r' \<longrightarrow> unat r \<le> r')) \<or>
    iommu_area_alloc_loop find_area fuel bm sz start nr shift (2 ^ n) (mask k) = Some (- 1, bm) \<and>
      (\<forall>r'. unat start \<le> r' \<longrightarrow> \<not> iommu_area bm (unat sz) (unat nr) k (unat shift) n r')"
  using fuel
proof (induction fuel arbitrary: start)
  case (Suc fuel)
  let ?A = "iommu_area bm (unat sz) (unat nr) k (unat shift) n"
  have "unat sz + unat nr + unat (0 :: u32) + 2 ^ k \<le> 2 ^ 32" using fit(1) by simp
  from nr(1) this sz show ?case
  proof (cases rule: find_area_cases [where bm = bm and start = start])
    case (none res)
    then show ?thesis by (simp add: iommu_area_def)
  next
    case (found res)
    have res: "unat res < unat sz" using found(2) by (simp add: word_less_nat_alt)
    then have small: "unat shift + unat res + 2 ^ n \<le> 2 ^ 32" "unat shift + unat res < 2 ^ 32"
      using fit(2) by linarith+
    note span = iommu_is_span_boundary_eq [OF nr(3) small(2) fit(3)]
    show ?thesis
    proof (cases "within_boundary n (unat shift) (unat nr) (unat res)")
      case True
      then show ?thesis using found span by (auto simp: iommu_area_def)
    next
      case False
      define s where "s = ALIGN (shift + res) (2 ^ n) - shift"
      note nb = next_boundary [OF small(1) nr(2) False, folded s_def]
      have loop: "iommu_area_alloc_loop find_area (Suc fuel) bm sz start nr shift (2 ^ n) (mask k) =
          iommu_area_alloc_loop find_area fuel bm sz s nr shift (2 ^ n) (mask k)"
        using found(1,2) span False by (simp add: s_def)
      have "?A r \<and> unat start \<le> r \<longleftrightarrow> ?A r \<and> unat s \<le> r" for r
        using nb found(4,5) by (auto simp: iommu_area_def)
      moreover have "unat sz - unat s < fuel" using nb(1) found(4) res Suc.prems by linarith
      ultimately show ?thesis using Suc.IH [of s] unfolding loop by (metis (no_types, lifting))
    qed
  qed
qed simp

end

section \<open>Properties\<close>

text \<open>C38: \<^verbatim>\<open>iommu_area_alloc\<close>, for a power-of-two boundary that is at least the request, returns
  without \<^verbatim>\<open>BUG\<close>: either the first aligned free area below the last bit of the limit that
  crosses no boundary, with exactly its bits set, or \<^verbatim>\<open>-1\<close> and the bitmap unchanged when there
  is none.\<close>

theorem iommu_area_alloc_first:
  assumes "0 < unat nr" "unat nr \<le> 2 ^ n" "n < 31" "0 < sz" "unat sz \<le> 32 * length bm" "unat sz \<le> fuel"
    and "unat sz + unat nr + 2 ^ k \<le> 2 ^ 32" "unat shift + unat sz + 2 ^ n \<le> 2 ^ 32"
  shows "\<exists>r bm'. iommu_area_alloc fuel bm sz start nr shift (2 ^ n) (mask k) = Some (r, bm') \<and>
    (unat start \<le> unat r \<and> iommu_area bm (unat sz - 1) (unat nr) k (unat shift) n (unat r) \<and>
       (\<forall>r'. unat start \<le> r' \<and> iommu_area bm (unat sz - 1) (unat nr) k (unat shift) n r' \<longrightarrow> unat r \<le> r') \<and>
       (\<forall>i. test_bit_at i bm' = (i \<in> {unat r..<unat r + unat nr} \<or> test_bit_at i bm)) \<or>
     r = - 1 \<and> bm' = bm \<and> (\<forall>r'. unat start \<le> r' \<longrightarrow> \<not> iommu_area bm (unat sz - 1) (unat nr) k (unat shift) n r'))"
proof -
  have s: "unat (sz - 1) = unat sz - 1" using assms(4) by (simp add: unat_minus_one word_greater_zero_iff)
  have n: "(2 :: nat) ^ n \<le> 2 ^ 30" using assms(3) by (intro power_increasing) auto
  have nr: "unat nr < 2 ^ 31" using assms(2) n by simp
  then have nr': "sint nr = int (unat nr)" by (rule sint_small)
  let ?A = "iommu_area bm (unat sz - 1) (unat nr) k (unat shift) n"
  have set: "test_bit_at i (bitmap_set bm (unat r) (sint nr)) = (i \<in> {unat r..<unat r + unat nr} \<or> test_bit_at i bm)"
    if "?A (unat r)" for r i
  proof -
    have "unat r + unat nr \<le> unat sz - 1" using that by (simp add: iommu_area_def zero_area_def)
    then have "unat r + unat nr \<le> 32 * length bm" using assms(5) by linarith
    then have "int (unat r) + sint nr \<le> int (32 * length bm)"
      unfolding nr' of_nat_add [symmetric] of_nat_le_iff .
    moreover have "0 \<le> sint nr" "nat (sint nr) = unat nr" unfolding nr' by simp_all
    ultimately show ?thesis using bitmap_set_spec(2) [of "sint nr" "unat r" bm i] by simp
  qed
  have "0 < unat sz" using assms(4) by (simp add: word_less_nat_alt)
  then have "unat (sz - 1) < fuel" "unat (sz - 1) - unat start < fuel" "unat (sz - 1) + unat nr + 2 ^ k \<le> 2 ^ 32"
    "unat shift + unat (sz - 1) + 2 ^ n \<le> 2 ^ 32" "2 ^ n + unat nr < 2 ^ 32" "n < 32"
    using assms n unfolding s by simp_all
  from zero_area.iommu_area_alloc_loop_spec [OF assms(1,2) this(6,1,3,4,5,2), of bm] show ?thesis
    unfolding iommu_area_alloc_def s using set by (elim disjE exE conjE) auto
qed

theorem iommu_area_alloc_first_witness:
  "0 < unat (4 :: u32) \<and> unat (4 :: u32) \<le> 2 ^ 4 \<and> (4 :: nat) < 31 \<and> 0 < (32 :: u32) \<and>
   unat (32 :: u32) \<le> 32 * length [0xF :: u32] \<and> unat (32 :: u32) \<le> 32 \<and>
   unat (32 :: u32) + unat (4 :: u32) + 2 ^ 0 \<le> 2 ^ 32 \<and> unat (14 :: u32) + unat (32 :: u32) + 2 ^ 4 \<le> 2 ^ 32 \<and>
   (\<exists>r bm'. iommu_area_alloc 32 [0xF] 32 0 4 14 (2 ^ 4) (mask 0) = Some (r, bm'))"
  using iommu_area_alloc_first [of 4 4 32 "[0xF]" 32 0 14 0] by auto

end
