(* ===== verification/Bitmap_Remap.thy ===== *)
theory Bitmap_Remap
  imports Bitmap_Alloc
begin

text \<open>
  Renumbering of bits, \<^verbatim>\<open>lib/bitmap.c\<close>: the position and the ordinal of a set bit, the maps
  defined by pairs of bitmaps (\<^verbatim>\<open>bitmap_remap\<close>, \<^verbatim>\<open>bitmap_bitremap\<close>, \<^verbatim>\<open>bitmap_onto\<close>,
  \<^verbatim>\<open>bitmap_fold\<close>) and the copies from and to arrays of 32-bit words. The C functions that
  refuse in-place use compare the pointers \<^verbatim>\<open>dst\<close> and \<^verbatim>\<open>src\<close>; that comparison is the
  argument \<open>same\<close>.
\<close>

section \<open>Iteration over the set bits\<close>

text \<open>\<^verbatim>\<open>for_each_set_bit\<close> of \<^verbatim>\<open>include/linux/bitops.h\<close>, from the current bit on.\<close>

function set_bit_loop :: "bitmap \<Rightarrow> nat \<Rightarrow> (nat \<Rightarrow> 'a \<Rightarrow> 'a) \<Rightarrow> nat \<Rightarrow> 'a \<Rightarrow> 'a" where
  "set_bit_loop addr sz body b st =
     (if b < sz then set_bit_loop addr sz body (find_next_bit addr sz (b + 1)) (body b st) else st)"
  by pat_completeness auto
termination
proof (relation "measure (\<lambda>(addr, sz, body, b, st). sz - b)")
  fix addr :: bitmap and sz b :: nat and body :: "nat \<Rightarrow> 'a \<Rightarrow> 'a" and st :: 'a
  assume "b < sz"
  then have "b + 1 \<le> find_next_bit addr sz (b + 1)" by (simp add: find_next_bit_eq next_index_ge)
  with \<open>b < sz\<close> show "((addr, sz, body, find_next_bit addr sz (b + 1), body b st), addr, sz, body, b, st)
      \<in> measure (\<lambda>(addr, sz, body, b, st). sz - b)" by simp
qed simp

declare set_bit_loop.simps [simp del]

definition for_each_set_bit :: "bitmap \<Rightarrow> nat \<Rightarrow> (nat \<Rightarrow> 'a \<Rightarrow> 'a) \<Rightarrow> 'a \<Rightarrow> 'a" where
  "for_each_set_bit addr sz body st = set_bit_loop addr sz body (find_first_bit addr sz) st"

section \<open>Positions and ordinals\<close>

definition bitmap_pos_to_ord :: "bitmap \<Rightarrow> nat \<Rightarrow> nat \<Rightarrow> int" where
  "bitmap_pos_to_ord buf pos nbits =
     (if pos \<ge> nbits \<or> \<not> test_bit_at pos buf then - 1 else int (bitmap_weight buf pos))"

fun ord_to_pos_loop :: "bitmap \<Rightarrow> nat \<Rightarrow> nat \<Rightarrow> nat \<Rightarrow> nat" where
  "ord_to_pos_loop buf nbits pos 0 = pos"
| "ord_to_pos_loop buf nbits pos (Suc ord) =
     (if pos < nbits then ord_to_pos_loop buf nbits (find_next_bit buf nbits (pos + 1)) ord else pos)"

definition bitmap_ord_to_pos :: "bitmap \<Rightarrow> nat \<Rightarrow> nat \<Rightarrow> nat" where
  "bitmap_ord_to_pos buf ord nbits = ord_to_pos_loop buf nbits (find_first_bit buf nbits) ord"

definition remap_body :: "bitmap \<Rightarrow> bitmap \<Rightarrow> nat \<Rightarrow> nat \<Rightarrow> nat \<Rightarrow> bitmap \<Rightarrow> bitmap" where
  "remap_body old new nbits w oldbit dst =
     (let n = bitmap_pos_to_ord old oldbit nbits
      in if n < 0 \<or> w = 0 then set_bit_at oldbit dst
         else set_bit_at (bitmap_ord_to_pos new (nat n mod w) nbits) dst)"

definition bitmap_remap :: "bool \<Rightarrow> bitmap \<Rightarrow> bitmap \<Rightarrow> bitmap \<Rightarrow> bitmap \<Rightarrow> nat \<Rightarrow> bitmap" where
  "bitmap_remap same dst src old new nbits =
     (if same then dst
      else let dst = bitmap_zero dst nbits;
               w = bitmap_weight new nbits
           in for_each_set_bit src nbits (remap_body old new nbits w) dst)"

definition bitmap_bitremap :: "nat \<Rightarrow> bitmap \<Rightarrow> bitmap \<Rightarrow> nat \<Rightarrow> nat" where
  "bitmap_bitremap oldbit old new bits =
     (let w = bitmap_weight new bits;
          n = bitmap_pos_to_ord old oldbit bits
      in if n < 0 \<or> w = 0 then oldbit else bitmap_ord_to_pos new (nat n mod w) bits)"

definition bitmap_onto :: "bool \<Rightarrow> bitmap \<Rightarrow> bitmap \<Rightarrow> bitmap \<Rightarrow> nat \<Rightarrow> bitmap" where
  "bitmap_onto same dst orig relmap bits =
     (if same then dst
      else let dst = bitmap_zero dst bits
           in snd (for_each_set_bit relmap bits
                (\<lambda>n (m, dst). (m + 1, if test_bit_at m orig then set_bit_at n dst else dst)) (0, dst)))"

definition bitmap_fold :: "bool \<Rightarrow> bitmap \<Rightarrow> bitmap \<Rightarrow> nat \<Rightarrow> nat \<Rightarrow> bitmap" where
  "bitmap_fold same dst orig sz nbits =
     (if same then dst
      else let dst = bitmap_zero dst nbits
           in for_each_set_bit orig nbits (\<lambda>oldbit dst. set_bit_at (oldbit mod sz) dst) dst)"

section \<open>Copies from and to 32-bit arrays\<close>

text \<open>With 32-bit longs the source and destination indices of \<^verbatim>\<open>bitmap_from_u32array\<close> and
  \<^verbatim>\<open>bitmap_to_u32array\<close> move together while the source lasts.\<close>

definition bitmap_from_u32array :: "bitmap \<Rightarrow> nat \<Rightarrow> u32 list \<Rightarrow> nat \<Rightarrow> nat \<times> bitmap" where
  "bitmap_from_u32array bm nbits buf nwords =
     (min nbits (32 * nwords),
      fold (\<lambda>dst_idx bm.
          let part = (if dst_idx < nwords then buf ! dst_idx else 0)
          in if dst_idx < nbits div 32 then bm[dst_idx := part]
             else let m = BITMAP_LAST_WORD_MASK nbits
                  in bm[dst_idx := (bm ! dst_idx AND NOT m) OR (part AND m)])
        [0..<BITS_TO_LONGS nbits] bm)"

definition bitmap_to_u32array :: "u32 list \<Rightarrow> nat \<Rightarrow> bitmap \<Rightarrow> nat \<Rightarrow> nat \<times> u32 list" where
  "bitmap_to_u32array buf nwords bm nbits =
     (min nbits (32 * nwords),
      fold (\<lambda>dst_idx buf.
          let part = (if dst_idx < BITS_TO_LONGS nbits
                      then if dst_idx \<ge> nbits div 32 then bm ! dst_idx AND BITMAP_LAST_WORD_MASK nbits
                           else bm ! dst_idx
                      else 0)
          in buf[dst_idx := part AND 0xffffffff])
        [0..<nwords] buf)"

section \<open>The set bits in order\<close>

definition set_bits :: "bitmap \<Rightarrow> nat \<Rightarrow> nat list" where
  "set_bits bm n = filter (\<lambda>i. test_bit_at i bm) [0..<n]"

lemma set_set_bits [simp]: "set (set_bits bm n) = {i. i < n \<and> test_bit_at i bm}"
  by (auto simp: set_bits_def)

lemma distinct_set_bits [simp]: "distinct (set_bits bm n)"
  by (simp add: set_bits_def)

lemma sorted_set_bits [simp]: "sorted (set_bits bm n)"
  by (simp add: set_bits_def sorted_wrt_filter)

lemma length_set_bits: "length (set_bits bm n) = bitmap_weight bm n"
  using distinct_card [OF distinct_set_bits, of bm n] by (simp add: bitmap_weight_card)

text \<open>The rest of the set bits, from position \<open>s\<close> on, starts at \<open>next_index\<close>.\<close>

lemma filter_next_index:
  assumes "s \<le> n"
  shows "filter P [s..<n] = (let b = next_index P s n in if b < n then b # filter P [Suc b..<n] else [])"
  using assms
proof (cases rule: next_index_cases [where P = P])
  case found
  define b where "b = next_index P s n"
  have "[s..<n] = [s..<b] @ b # [Suc b..<n]"
    using found unfolding b_def by (metis le_add_diff_inverse less_imp_le upt_add_eq_append upt_conv_Cons)
  moreover have "filter P [s..<b] = []" using found by (auto simp: b_def filter_empty_conv)
  ultimately show ?thesis using found by (simp add: b_def [symmetric])
qed (auto simp: filter_empty_conv)

lemma set_bit_loop_eq:
  "s \<le> n \<Longrightarrow> set_bit_loop bm n f (next_index (\<lambda>i. test_bit_at i bm) s n) st =
    fold f (filter (\<lambda>i. test_bit_at i bm) [s..<n]) st"
proof (induction "n - s" arbitrary: s st rule: less_induct)
  case less
  let ?b = "next_index (\<lambda>i. test_bit_at i bm) s n"
  show ?case
  proof (cases "?b < n")
    case True
    have "s \<le> ?b" using less.prems by (rule next_index_ge)
    then have "n - Suc ?b < n - s" "Suc ?b \<le> n" using True by auto
    from less.hyps [OF this] True less.prems show ?thesis
      by (subst set_bit_loop.simps, subst filter_next_index) (simp_all add: find_next_bit_eq Let_def)
  next
    case False
    with less.prems show ?thesis
      by (subst set_bit_loop.simps, subst filter_next_index) (simp_all add: Let_def)
  qed
qed

lemma for_each_set_bit_eq: "for_each_set_bit bm n f st = fold f (set_bits bm n) st"
  using set_bit_loop_eq [of 0 n bm f st]
  by (simp add: for_each_set_bit_def find_first_bit_eq set_bits_def)

lemma ord_to_pos_loop_eq:
  "s \<le> n \<Longrightarrow> ord_to_pos_loop bm n (next_index (\<lambda>i. test_bit_at i bm) s n) k =
    (let l = filter (\<lambda>i. test_bit_at i bm) [s..<n] in if k < length l then l ! k else n)"
proof (induction k arbitrary: s)
  case 0
  then show ?case using next_index_le [OF 0, of "\<lambda>i. test_bit_at i bm"]
    by (subst filter_next_index) (auto simp: Let_def)
next
  case (Suc k)
  let ?b = "next_index (\<lambda>i. test_bit_at i bm) s n"
  show ?case
  proof (cases "?b < n")
    case True
    then have "Suc ?b \<le> n" by simp
    from Suc.IH [OF this] True Suc.prems show ?thesis
      by (subst filter_next_index) (auto simp: Let_def find_next_bit_eq)
  next
    case False
    then show ?thesis using Suc.prems next_index_le [OF Suc.prems, of "\<lambda>i. test_bit_at i bm"]
      by (subst filter_next_index) (auto simp: Let_def)
  qed
qed

lemma bitmap_ord_to_pos_eq:
  "bitmap_ord_to_pos bm k n = (if k < bitmap_weight bm n then set_bits bm n ! k else n)"
  using ord_to_pos_loop_eq [of 0 n bm k]
  by (simp add: bitmap_ord_to_pos_def find_first_bit_eq length_set_bits [symmetric] set_bits_def Let_def)

section \<open>Ordinals and positions are inverse\<close>

lemma set_bits_split:
  assumes "pos < n" "test_bit_at pos bm"
  shows "set_bits bm n = set_bits bm pos @ pos # filter (\<lambda>i. test_bit_at i bm) [Suc pos..<n]"
proof -
  have "[0..<n] = [0..<pos] @ pos # [Suc pos..<n]"
    using assms(1) by (metis le_add_diff_inverse less_imp_le upt_add_eq_append upt_conv_Cons zero_le)
  then show ?thesis using assms(2) by (simp add: set_bits_def)
qed

lemma weight_less: "pos < n \<Longrightarrow> test_bit_at pos bm \<Longrightarrow> bitmap_weight bm pos < bitmap_weight bm n"
  by (simp add: length_set_bits [symmetric] set_bits_split)

lemma set_bits_weight: "pos < n \<Longrightarrow> test_bit_at pos bm \<Longrightarrow> set_bits bm n ! bitmap_weight bm pos = pos"
  by (simp add: length_set_bits [symmetric] set_bits_split nth_append)

lemma ord_to_pos_set:
  assumes "k < bitmap_weight bm n"
  shows "bitmap_ord_to_pos bm k n < n \<and> test_bit_at (bitmap_ord_to_pos bm k n) bm"
proof -
  have "set_bits bm n ! k \<in> set (set_bits bm n)" using assms by (intro nth_mem) (simp add: length_set_bits)
  then show ?thesis using assms by (simp add: bitmap_ord_to_pos_eq)
qed

lemma pos_to_ord_to_pos:
  "k < bitmap_weight bm n \<Longrightarrow> bitmap_pos_to_ord bm (bitmap_ord_to_pos bm k n) n = int k"
proof -
  assume k: "k < bitmap_weight bm n"
  let ?p = "bitmap_ord_to_pos bm k n"
  have p: "?p < n" "test_bit_at ?p bm" using ord_to_pos_set [OF k] by auto
  have "set_bits bm n ! bitmap_weight bm ?p = set_bits bm n ! k"
    using set_bits_weight [OF p] k by (simp add: bitmap_ord_to_pos_eq)
  then have "bitmap_weight bm ?p = k"
    using nth_eq_iff_index_eq [OF distinct_set_bits] weight_less [OF p] k by (simp add: length_set_bits)
  then show ?thesis using p by (simp add: bitmap_pos_to_ord_def)
qed

lemma ord_to_pos_to_ord:
  "pos < n \<Longrightarrow> test_bit_at pos bm \<Longrightarrow> bitmap_ord_to_pos bm (nat (bitmap_pos_to_ord bm pos n)) n = pos"
  by (simp add: bitmap_pos_to_ord_def bitmap_ord_to_pos_eq weight_less set_bits_weight)

section \<open>The maps defined by bitmaps\<close>

lemma test_fold_set_bit_at:
  assumes "\<forall>b\<in>set bs. g b < 32 * length d"
  shows "length (fold (\<lambda>b d. set_bit_at (g b) d) bs d) = length d"
    "test_bit_at i (fold (\<lambda>b d. set_bit_at (g b) d) bs d) \<longleftrightarrow> i \<in> g ` set bs \<or> test_bit_at i d"
  using assms
  by (induction bs arbitrary: d) (auto simp: test_set_bit_at)

lemma bitmap_bitremap_less:
  "b < n \<Longrightarrow> bitmap_bitremap b old new n < n"
  using ord_to_pos_set [of "nat (bitmap_pos_to_ord old b n) mod bitmap_weight new n" new n]
  by (simp add: bitmap_bitremap_def Let_def)

lemma test_bitmap_zero_below: "n \<le> 32 * length m \<Longrightarrow> i < n \<Longrightarrow> \<not> test_bit_at i (bitmap_zero m n)"
  by (simp add: test_bitmap_zero not_le div_less_BITS_TO_LONGS)

lemma remap_body_eq: "remap_body old new n (bitmap_weight new n) = (\<lambda>b. set_bit_at (bitmap_bitremap b old new n))"
  by (auto simp: remap_body_def bitmap_bitremap_def Let_def fun_eq_iff)

lemma test_bitmap_remap:
  assumes "n \<le> 32 * length dst" "i < n"
  shows "test_bit_at i (bitmap_remap False dst src old new n) \<longleftrightarrow>
    (\<exists>b<n. test_bit_at b src \<and> bitmap_bitremap b old new n = i)"
proof -
  have "\<forall>b\<in>set (set_bits src n). bitmap_bitremap b old new n < 32 * length (bitmap_zero dst n)"
    using bitmap_bitremap_less [of _ n old new] assms(1) by (auto intro: less_le_trans)
  from test_fold_set_bit_at(2) [OF this, of i] show ?thesis
    using assms by (auto simp: bitmap_remap_def for_each_set_bit_eq remap_body_eq test_bitmap_zero_below)
qed

lemma test_onto_fold:
  assumes "\<forall>b\<in>set bs. b < 32 * length d"
  shows "test_bit_at i (snd (fold (\<lambda>n (m, d). (m + 1, if test_bit_at m orig then set_bit_at n d else d)) bs (m, d)))
    \<longleftrightarrow> (\<exists>k<length bs. bs ! k = i \<and> test_bit_at (m + k) orig) \<or> test_bit_at i d"
  using assms
proof (induction bs arbitrary: m d)
  case (Cons b bs)
  let ?d = "if test_bit_at m orig then set_bit_at b d else d"
  have "test_bit_at i ?d \<longleftrightarrow> b = i \<and> test_bit_at m orig \<or> test_bit_at i d"
    using Cons.prems by (auto simp: test_set_bit_at)
  moreover have "(\<exists>k<length (b # bs). (b # bs) ! k = i \<and> test_bit_at (m + k) orig) \<longleftrightarrow>
      b = i \<and> test_bit_at m orig \<or> (\<exists>k<length bs. bs ! k = i \<and> test_bit_at (m + 1 + k) orig)"
    by (simp add: Ex_less_Suc2)
  ultimately show ?case using Cons.IH [of ?d "m + 1"] Cons.prems by auto
qed simp

lemma test_bitmap_onto:
  assumes "n \<le> 32 * length dst" "i < n"
  shows "test_bit_at i (bitmap_onto False dst orig relmap n) \<longleftrightarrow>
    test_bit_at i relmap \<and> test_bit_at (bitmap_weight relmap i) orig"
proof -
  have "\<forall>b\<in>set (set_bits relmap n). b < 32 * length (bitmap_zero dst n)" using assms(1) by auto
  then have "test_bit_at i (bitmap_onto False dst orig relmap n) \<longleftrightarrow>
      (\<exists>k<bitmap_weight relmap n. set_bits relmap n ! k = i \<and> test_bit_at k orig)"
    using test_onto_fold [of "set_bits relmap n" "bitmap_zero dst n" i orig 0] assms
    by (simp add: bitmap_onto_def for_each_set_bit_eq test_bitmap_zero_below length_set_bits)
  also have "\<dots> \<longleftrightarrow> test_bit_at i relmap \<and> test_bit_at (bitmap_weight relmap i) orig"
  proof (intro iffI; elim exE conjE)
    fix k assume k: "k < bitmap_weight relmap n" "set_bits relmap n ! k = i" "test_bit_at k orig"
    then have "bitmap_ord_to_pos relmap k n = i" by (simp add: bitmap_ord_to_pos_eq)
    with ord_to_pos_set [OF k(1)] pos_to_ord_to_pos [OF k(1)] k(3)
    show "test_bit_at i relmap \<and> test_bit_at (bitmap_weight relmap i) orig"
      by (simp add: bitmap_pos_to_ord_def)
  next
    assume "test_bit_at i relmap" "test_bit_at (bitmap_weight relmap i) orig"
    then show "\<exists>k<bitmap_weight relmap n. set_bits relmap n ! k = i \<and> test_bit_at k orig"
      using assms(2) by (intro exI [of _ "bitmap_weight relmap i"]) (simp add: weight_less set_bits_weight)
  qed
  finally show ?thesis .
qed

lemma test_bitmap_fold:
  assumes "n \<le> 32 * length dst" "i < n" "0 < sz" "sz \<le> n"
  shows "test_bit_at i (bitmap_fold False dst orig sz n) \<longleftrightarrow> (\<exists>b<n. test_bit_at b orig \<and> b mod sz = i)"
proof -
  have "\<forall>b\<in>set (set_bits orig n). b mod sz < 32 * length (bitmap_zero dst n)"
    using assms by (auto intro!: less_le_trans [OF mod_less_divisor])
  from test_fold_set_bit_at(2) [OF this, of i] show ?thesis
    using assms by (auto simp: bitmap_fold_def for_each_set_bit_eq test_bitmap_zero_below)
qed

section \<open>Copies\<close>

lemma fold_upd_read_own:
  assumes "n \<le> length d"
  shows "length (fold (\<lambda>k d. d[k := f k (d ! k)]) [0..<n] d) = length d"
    "j < length d \<Longrightarrow> fold (\<lambda>k d. d[k := f k (d ! k)]) [0..<n] d ! j = (if j < n then f j (d ! j) else d ! j)"
  using assms by (induction n) (auto simp: nth_list_update)

lemma word_position_cases:
  obtains (full) "i div 32 < n div 32" "i < n" "i div 32 < BITS_TO_LONGS n"
    | (last) "i div 32 = n div 32" "0 < n mod 32" "i < n \<longleftrightarrow> i mod 32 < n mod 32" "i div 32 < BITS_TO_LONGS n"
    | (beyond) "\<not> i div 32 < BITS_TO_LONGS n" "\<not> i < n"
proof -
  obtain p r where n: "n = 32 * p + r" "r < 32" by (rule nat_div_mod_32E)
  obtain q j where i: "i = 32 * q + j" "j < 32" by (rule nat_div_mod_32E)
  have d: "n div 32 = p" "n mod 32 = r" "i div 32 = q" "i mod 32 = j" using n i by simp_all
  consider "q < p" | "q = p" "0 < r" | "p < q \<or> q = p \<and> r = 0" by linarith
  then show ?thesis
  proof cases
    case 1
    then have "i < n" using n i by linarith
    with 1 full show ?thesis by (simp add: d BITS_TO_LONGS_eq)
  next
    case 2
    then show ?thesis using last [unfolded d] n(1) i(1) d by (simp add: BITS_TO_LONGS_eq)
  next
    case 3
    then have "n \<le> i" using n i by linarith
    with 3 beyond show ?thesis by (auto simp: d BITS_TO_LONGS_eq)
  qed
qed

lemma from_u32array_bits:
  assumes "nbits \<le> 32 * length bm" "i < 32 * length bm"
  shows "test_bit_at i (snd (bitmap_from_u32array bm nbits buf nwords)) \<longleftrightarrow>
    (if i < nbits then i div 32 < nwords \<and> test_bit_at i buf else test_bit_at i bm)"
proof -
  define part where "part k = (if k < nwords then buf ! k else 0)" for k
  define m where "m = BITMAP_LAST_WORD_MASK nbits"
  define f where "f k w = (if k < nbits div 32 then part k else (w AND NOT m) OR (part k AND m))" for k w
  have "snd (bitmap_from_u32array bm nbits buf nwords) =
      fold (\<lambda>k d. d[k := f k (d ! k)]) [0..<BITS_TO_LONGS nbits] bm"
    unfolding bitmap_from_u32array_def Let_def snd_conv f_def part_def m_def
    by (intro fold_cong refl ext) simp
  moreover have "i div 32 < length bm" using assms(2) by linarith
  ultimately have nth: "snd (bitmap_from_u32array bm nbits buf nwords) ! (i div 32) =
      (if i div 32 < BITS_TO_LONGS nbits then f (i div 32) (bm ! (i div 32)) else bm ! (i div 32))"
    using fold_upd_read_own(2) [OF BITS_TO_LONGS_le_length [OF assms(1)]] by simp
  show ?thesis unfolding test_bit_at_iff nth
    by (cases rule: word_position_cases [where i = i and n = nbits])
      (auto simp: f_def part_def m_def bit_or_iff bit_and_iff bit_not_iff bit_LAST_WORD_MASK)
qed

lemma to_u32array_bits:
  assumes "nwords \<le> length buf" "i < 32 * nwords"
  shows "test_bit_at i (snd (bitmap_to_u32array buf nwords bm nbits)) \<longleftrightarrow> i < nbits \<and> test_bit_at i bm"
proof -
  define part where "part k = (if k < BITS_TO_LONGS nbits
      then if k \<ge> nbits div 32 then bm ! k AND BITMAP_LAST_WORD_MASK nbits else bm ! k else 0)" for k
  have ones: "x AND 0xffffffff = (x :: u32)" for x
  proof -
    have "(0xffffffff :: u32) = - 1" by simp
    then show ?thesis by (metis and.right_neutral)
  qed
  have "snd (bitmap_to_u32array buf nwords bm nbits) = fold (\<lambda>k d. d[k := part k]) [0..<nwords] buf"
    unfolding bitmap_to_u32array_def Let_def snd_conv part_def ones by simp
  moreover have "i div 32 < nwords" "i div 32 < length buf" using assms by linarith+
  ultimately have nth: "snd (bitmap_to_u32array buf nwords bm nbits) ! (i div 32) = part (i div 32)"
    using fold_upd_read_own(2) [OF assms(1), of "i div 32" "\<lambda>k w. part k"] by simp
  show ?thesis unfolding test_bit_at_iff nth
    by (cases rule: word_position_cases [where i = i and n = nbits])
      (auto simp: part_def bit_and_iff bit_LAST_WORD_MASK)
qed

section \<open>Properties\<close>

text \<open>Position and ordinal of a set bit are inverse maps: the ordinal of the \<open>k\<close>-th set
  bit's position is \<open>k\<close>, and the position of a set bit's ordinal is that bit; past the last
  set bit \<^verbatim>\<open>bitmap_ord_to_pos\<close> returns \<open>nbits\<close>, and a clear or invalid bit has ordinal
  \<^verbatim>\<open>-1\<close>.\<close>

theorem ord_pos_roundtrip:
  "(k < bitmap_weight bm n \<longrightarrow> bitmap_pos_to_ord bm (bitmap_ord_to_pos bm k n) n = int k) \<and>
   (\<not> k < bitmap_weight bm n \<longrightarrow> bitmap_ord_to_pos bm k n = n) \<and>
   (if pos < n \<and> test_bit_at pos bm
    then bitmap_ord_to_pos bm (nat (bitmap_pos_to_ord bm pos n)) n = pos
    else bitmap_pos_to_ord bm pos n = - 1)"
  using pos_to_ord_to_pos [of k bm n] ord_to_pos_to_ord [of pos n bm] bitmap_ord_to_pos_eq [of bm k n]
    bitmap_pos_to_ord_def [of bm pos n] by auto

text \<open>\<^verbatim>\<open>bitmap_remap\<close> (not in place) gives the image of the source under
  \<^verbatim>\<open>bitmap_bitremap\<close>, which maps into the valid bits; in place it does nothing.\<close>

theorem bitmap_remap_image:
  assumes "n \<le> 32 * length dst"
  shows "{i. i < n \<and> test_bit_at i (bitmap_remap False dst src old new n)} =
      (\<lambda>b. bitmap_bitremap b old new n) ` {b. b < n \<and> test_bit_at b src} \<and>
    bitmap_remap True dst src old new n = dst"
  using test_bitmap_remap [OF assms, of _ src old new] bitmap_bitremap_less [of _ n old new]
  by (auto simp: bitmap_remap_def image_iff)

text \<open>\<^verbatim>\<open>bitmap_onto\<close> sets bit \<open>i\<close> exactly if it is the \<open>m\<close>-th set bit of \<^verbatim>\<open>relmap\<close> for some
  \<open>m\<close> set in \<^verbatim>\<open>orig\<close>, and \<^verbatim>\<open>bitmap_fold\<close> sets exactly the residues of the set bits.\<close>

theorem bitmap_onto_fold_bits:
  assumes "n \<le> 32 * length dst" "i < n"
  shows "test_bit_at i (bitmap_onto False dst orig relmap n) =
      (test_bit_at i relmap \<and> test_bit_at (bitmap_weight relmap i) orig) \<and>
    (0 < sz \<and> sz \<le> n \<longrightarrow> test_bit_at i (bitmap_fold False dst orig sz n) =
      (\<exists>b<n. test_bit_at b orig \<and> b mod sz = i))"
  using test_bitmap_onto [OF assms] test_bitmap_fold [OF assms] by blast

text \<open>A bitmap written to an array of 32-bit words and read back into any bitmap of the
  same size has the same valid bits; bits beyond \<open>nbits\<close> of the destination are kept.\<close>

theorem u32array_roundtrip:
  assumes "nbits \<le> 32 * nwords" "nwords \<le> length buf" "nbits \<le> 32 * length dst" "i < 32 * length dst"
  shows "test_bit_at i (snd (bitmap_from_u32array dst nbits
      (snd (bitmap_to_u32array buf nwords bm nbits)) nwords)) =
    (if i < nbits then test_bit_at i bm else test_bit_at i dst)"
proof -
  have "i div 32 < nwords" if "i < nbits" using that assms(1) by linarith
  then show ?thesis
    using assms from_u32array_bits [OF assms(3,4)] to_u32array_bits [OF assms(2), of i bm nbits] by auto
qed

end
