(* ===== verification/Memblock.thy ===== *)
theory Memblock
  imports Kernel_Prelude
begin

text \<open>
  The regions of the boot memory allocator, \<^verbatim>\<open>mm/memblock.c\<close> and \<^verbatim>\<open>include/linux/memblock.h\<close>.
  A \<^verbatim>\<open>struct memblock_type\<close> is an array of regions of which the first \<^verbatim>\<open>cnt\<close> are in use; the
  model keeps the array (a list of length \<^verbatim>\<open>max\<close>), so that the \<^verbatim>\<open>memmove\<close> calls are the
  list operation \<open>move_slots\<close>. Addresses are 32-bit words: the target is built without LPAE. The
  build has no \<^verbatim>\<open>CONFIG_HAVE_MEMBLOCK_NODE_MAP\<close>, so a region has no node. \<^verbatim>\<open>BUG_ON\<close> is
  the result \<open>None\<close>; \<^verbatim>\<open>WARN_ON\<close> and debug output have no effect on the state.

  The lemmas show that the array operations implement operations on the list of used
  regions (\<open>live\<close>), and what those do to the set of addresses.
\<close>

section \<open>Regions\<close>

record memblock_region =
  r_base :: u32
  r_size :: u32
  r_flags :: u32

text \<open>\<open>t_loc\<close> is the physical address of an array that was allocated by
  \<^verbatim>\<open>memblock_double_array\<close>; it is \<open>None\<close> for the static initial array.\<close>

record memblock_type =
  t_cnt :: nat
  t_max :: nat
  t_total_size :: u32
  t_regions :: "memblock_region list"
  t_loc :: "u32 option"

definition MEMBLOCK_NONE :: u32 where "MEMBLOCK_NONE = 0"
definition MEMBLOCK_HOTPLUG :: u32 where "MEMBLOCK_HOTPLUG = 1"
definition MEMBLOCK_MIRROR :: u32 where "MEMBLOCK_MIRROR = 2"
definition MEMBLOCK_NOMAP :: u32 where "MEMBLOCK_NOMAP = 4"

definition INIT_MEMBLOCK_REGIONS :: nat where "INIT_MEMBLOCK_REGIONS = 128"

definition memblock_is_mirror :: "memblock_region \<Rightarrow> bool" where
  "memblock_is_mirror m \<longleftrightarrow> r_flags m AND MEMBLOCK_MIRROR \<noteq> 0"

definition memblock_is_nomap :: "memblock_region \<Rightarrow> bool" where
  "memblock_is_nomap m \<longleftrightarrow> r_flags m AND MEMBLOCK_NOMAP \<noteq> 0"

definition memblock_set_region_flags :: "u32 \<Rightarrow> memblock_region \<Rightarrow> memblock_region" where
  "memblock_set_region_flags flags r = r\<lparr>r_flags := r_flags r OR flags\<rparr>"

definition memblock_clear_region_flags :: "u32 \<Rightarrow> memblock_region \<Rightarrow> memblock_region" where
  "memblock_clear_region_flags flags r = r\<lparr>r_flags := r_flags r AND NOT flags\<rparr>"

text \<open>\<^verbatim>\<open>memblock_cap_size\<close>: the size, reduced so that \<open>base + size\<close> does not overflow.\<close>

definition memblock_cap_size :: "u32 \<Rightarrow> u32 \<Rightarrow> u32" where
  "memblock_cap_size base sz = min sz (- 1 - base)"

definition memblock_addrs_overlap :: "u32 \<Rightarrow> u32 \<Rightarrow> u32 \<Rightarrow> u32 \<Rightarrow> bool" where
  "memblock_addrs_overlap base1 size1 base2 size2 \<longleftrightarrow> base1 < base2 + size2 \<and> base2 < base1 + size1"

definition memblock_overlaps_region :: "memblock_type \<Rightarrow> u32 \<Rightarrow> u32 \<Rightarrow> bool" where
  "memblock_overlaps_region t base sz \<longleftrightarrow>
     list_ex (\<lambda>i. memblock_addrs_overlap base sz (r_base (t_regions t ! i)) (r_size (t_regions t ! i)))
       [0..<t_cnt t]"

section \<open>Array operations\<close>

text \<open>\<^verbatim>\<open>memmove(&a[dst], &a[src], n * sizeof(a[0]))\<close> inside one array.\<close>

definition move_slots :: "'a list \<Rightarrow> nat \<Rightarrow> nat \<Rightarrow> nat \<Rightarrow> 'a list" where
  "move_slots a dst src n = take dst a @ take n (drop src a) @ drop (dst + n) a"

definition empty_region :: memblock_region where
  "empty_region = \<lparr>r_base = 0, r_size = 0, r_flags = 0\<rparr>"

definition memblock_remove_region :: "memblock_type \<Rightarrow> nat \<Rightarrow> memblock_type" where
  "memblock_remove_region t r =
     (let t = t\<lparr>t_total_size := t_total_size t - r_size (t_regions t ! r),
                t_regions := move_slots (t_regions t) r (r + 1) (t_cnt t - (r + 1)),
                t_cnt := t_cnt t - 1\<rparr>
      in if t_cnt t = 0 then t\<lparr>t_cnt := 1, t_regions := (t_regions t)[0 := empty_region]\<rparr> else t)"

definition memblock_insert_region :: "memblock_type \<Rightarrow> nat \<Rightarrow> u32 \<Rightarrow> u32 \<Rightarrow> u32 \<Rightarrow> memblock_type option" where
  "memblock_insert_region t idx base sz flags =
     (if t_cnt t \<ge> t_max t then None
      else Some (t\<lparr>t_regions := (move_slots (t_regions t) (idx + 1) idx (t_cnt t - idx))
                     [idx := \<lparr>r_base = base, r_size = sz, r_flags = flags\<rparr>],
                   t_cnt := t_cnt t + 1,
                   t_total_size := t_total_size t + sz\<rparr>))"

function merge_loop :: "memblock_type \<Rightarrow> nat \<Rightarrow> memblock_type option" where
  "merge_loop t i =
     (if i < t_cnt t - 1
      then let this = t_regions t ! i; next = t_regions t ! (i + 1)
           in if r_base this + r_size this \<noteq> r_base next \<or> r_flags this \<noteq> r_flags next
              then if r_base this + r_size this > r_base next then None
                   else merge_loop t (i + 1)
              else merge_loop
                     (t\<lparr>t_regions := move_slots ((t_regions t)[i := this\<lparr>r_size := r_size this + r_size next\<rparr>])
                          (i + 1) (i + 2) (t_cnt t - (i + 2)),
                        t_cnt := t_cnt t - 1\<rparr>) i
      else Some t)"
  by pat_completeness auto
termination by (relation "measure (\<lambda>(t, i). t_cnt t - i)") auto

declare merge_loop.simps [simp del]

definition memblock_merge_regions :: "memblock_type \<Rightarrow> memblock_type option" where
  "memblock_merge_regions t = merge_loop t 0"

section \<open>Search\<close>

text \<open>The body of the \<^verbatim>\<open>do ... while (left < right)\<close> of \<^verbatim>\<open>memblock_search\<close>.\<close>

function search_loop :: "memblock_type \<Rightarrow> u32 \<Rightarrow> nat \<Rightarrow> nat \<Rightarrow> int" where
  "search_loop t addr left right =
     (let mid = (right + left) div 2
      in if addr < r_base (t_regions t ! mid)
         then if left < mid then search_loop t addr left mid else - 1
         else if addr \<ge> r_base (t_regions t ! mid) + r_size (t_regions t ! mid)
         then if mid + 1 < right then search_loop t addr (mid + 1) right else - 1
         else int mid)"
  by pat_completeness auto
termination by (relation "measure (\<lambda>(t, addr, left, right). right - left)") auto

declare search_loop.simps [simp del]

definition memblock_search :: "memblock_type \<Rightarrow> u32 \<Rightarrow> int" where
  "memblock_search t addr = search_loop t addr 0 (t_cnt t)"

section \<open>Used regions as a list\<close>

definition live :: "memblock_type \<Rightarrow> memblock_region list" where
  "live t = take (t_cnt t) (t_regions t)"

abbreviation rb :: "memblock_region \<Rightarrow> nat" where
  "rb r \<equiv> unat (r_base r)"

abbreviation re :: "memblock_region \<Rightarrow> nat" where
  "re r \<equiv> unat (r_base r) + unat (r_size r)"

text \<open>The addresses of a region, and of a list of regions.\<close>

definition raddrs :: "memblock_region \<Rightarrow> nat set" where
  "raddrs r = {rb r..<re r}"

definition addrs :: "memblock_region list \<Rightarrow> nat set" where
  "addrs rs = (\<Union>r\<in>set rs. raddrs r)"

text \<open>The array is well formed: its length is the capacity, and at least one and at most all
  entries are in use.\<close>

definition wf_array :: "memblock_type \<Rightarrow> bool" where
  "wf_array t \<longleftrightarrow> length (t_regions t) = t_max t \<and> 1 \<le> t_cnt t \<and> t_cnt t \<le> t_max t"

text \<open>Well-formed regions: not empty, not wrapping, in address order and disjoint. The empty
  set is the single empty region.\<close>

definition wf_region :: "memblock_region \<Rightarrow> bool" where
  "wf_region r \<longleftrightarrow> r_size r \<noteq> 0 \<and> re r < 2 ^ 32"

definition wf_regions :: "memblock_region list \<Rightarrow> bool" where
  "wf_regions rs \<longleftrightarrow> (\<forall>r\<in>set rs. wf_region r) \<and> sorted_wrt (\<lambda>a b. re a \<le> rb b) rs"

definition wf_type :: "memblock_type \<Rightarrow> bool" where
  "wf_type t \<longleftrightarrow> wf_array t \<and> (live t = [empty_region] \<or> wf_regions (live t))"

definition total_ok :: "memblock_type \<Rightarrow> bool" where
  "total_ok t \<longleftrightarrow> t_total_size t = sum_list (map r_size (live t))"

lemma length_live [simp]: "wf_array t \<Longrightarrow> length (live t) = t_cnt t"
  by (simp add: wf_array_def live_def)

lemma nth_live: "wf_array t \<Longrightarrow> i < t_cnt t \<Longrightarrow> t_regions t ! i = live t ! i"
  by (simp add: live_def)

lemma length_move_slots [simp]:
  "dst + n \<le> length a \<Longrightarrow> src + n \<le> length a \<Longrightarrow> length (move_slots a dst src n) = length a"
  by (simp add: move_slots_def)

lemma take_move_slots_insert:
  assumes "idx \<le> n" "n < length a"
  shows "take (Suc n) ((move_slots a (Suc idx) idx (n - idx))[idx := r]) =
    take idx (take n a) @ r # drop idx (take n a)"
proof -
  have "move_slots a (Suc idx) idx (n - idx) =
      take idx a @ a ! idx # drop idx (take n a) @ drop (Suc n) a"
    using assms by (simp add: move_slots_def take_Suc_conv_app_nth drop_take)
  moreover have "take (Suc n - idx) (r # drop idx (take n a) @ drop (Suc n) a) = r # drop idx (take n a)"
    using assms by (simp add: Suc_diff_le)
  ultimately show ?thesis using assms by (simp add: list_update_append min_def)
qed

lemma take_move_slots_remove:
  assumes "i < n" "n \<le> length a"
  shows "take (n - 1) (move_slots a i (Suc i) (n - Suc i)) = take i (take n a) @ drop (Suc i) (take n a)"
proof -
  have "length (take i a @ take (n - Suc i) (drop (Suc i) a)) = n - 1" using assms by simp
  then have "take (n - 1) (move_slots a i (Suc i) (n - Suc i)) = take i a @ take (n - Suc i) (drop (Suc i) a)"
    unfolding move_slots_def append_assoc [symmetric] by (metis append_eq_conv_conj)
  then show ?thesis using assms by (simp add: drop_take min_def)
qed

lemma insert_region_live:
  assumes "wf_array t" "idx \<le> t_cnt t" "t_cnt t < t_max t"
  shows "\<exists>t'. memblock_insert_region t idx base sz flags = Some t' \<and> wf_array t' \<and>
    live t' = take idx (live t) @ \<lparr>r_base = base, r_size = sz, r_flags = flags\<rparr> # drop idx (live t) \<and>
    t_max t' = t_max t \<and> t_total_size t' = t_total_size t + sz \<and> t_loc t' = t_loc t"
  using assms take_move_slots_insert [of idx "t_cnt t" "t_regions t"]
  by (auto simp: memblock_insert_region_def live_def wf_array_def)

lemma remove_region_live:
  assumes "wf_array t" "i < t_cnt t"
  defines "rs \<equiv> take i (live t) @ drop (Suc i) (live t)"
  shows "wf_array (memblock_remove_region t i)"
    "live (memblock_remove_region t i) = (if rs = [] then [empty_region] else rs)"
    "t_max (memblock_remove_region t i) = t_max t"
    "t_loc (memblock_remove_region t i) = t_loc t"
    "t_total_size (memblock_remove_region t i) = t_total_size t - r_size (live t ! i)"
proof -
  have len: "length (t_regions t) = t_max t" "t_cnt t \<le> t_max t" using assms by (auto simp: wf_array_def)
  let ?m = "move_slots (t_regions t) i (Suc i) (t_cnt t - Suc i)"
  have m: "take (t_cnt t - 1) ?m = rs" "length ?m = t_max t"
    using assms(2) len take_move_slots_remove [of i "t_cnt t" "t_regions t"]
    by (auto simp: rs_def live_def)
  have rs: "rs = [] \<longleftrightarrow> t_cnt t = 1"
  proof -
    have "length rs = t_cnt t - 1" using assms(1,2) by (simp add: rs_def)
    then show ?thesis using assms(2) by (metis One_nat_def Suc_pred diff_0_eq_0 length_0_conv not_less0 neq0_conv diff_Suc_1)
  qed
  then show "live (memblock_remove_region t i) = (if rs = [] then [empty_region] else rs)"
    using assms(2) len m
    by (auto simp: memblock_remove_region_def live_def Let_def take_Suc_conv_app_nth hd_drop_conv_nth)
  show "wf_array (memblock_remove_region t i)" "t_max (memblock_remove_region t i) = t_max t"
    "t_loc (memblock_remove_region t i) = t_loc t"
    "t_total_size (memblock_remove_region t i) = t_total_size t - r_size (live t ! i)"
    using assms(2) len m by (auto simp: memblock_remove_region_def wf_array_def Let_def live_def)
qed

section \<open>The map from addresses to flags\<close>

text \<open>The abstraction of a list of regions: every address of a region is mapped to its flags.\<close>

fun amap :: "memblock_region list \<Rightarrow> nat \<Rightarrow> u32 option" where
  "amap [] a = None"
| "amap (r # rs) a = (if a \<in> raddrs r then Some (r_flags r) else amap rs a)"

lemma amap_append: "amap (xs @ ys) a = (case amap xs a of None \<Rightarrow> amap ys a | Some f \<Rightarrow> Some f)"
  by (induction xs) auto

lemma amap_None: "amap rs a = None \<longleftrightarrow> (\<forall>r\<in>set rs. a \<notin> raddrs r)"
  by (induction rs) auto

lemma dom_amap: "dom (amap rs) = addrs rs"
  by (rule set_eqI) (simp add: domIff amap_None addrs_def)

lemma raddrs_empty [simp]: "raddrs empty_region = {}"
  by (simp add: raddrs_def empty_region_def)

lemma wf_regions_Cons:
  "wf_regions (r # rs) \<longleftrightarrow> wf_region r \<and> (\<forall>s\<in>set rs. re r \<le> rb s) \<and> wf_regions rs"
  by (auto simp: wf_regions_def)

lemma wf_regions_Nil [simp]: "wf_regions []"
  by (simp add: wf_regions_def)

lemma wf_regions_append:
  "wf_regions (xs @ ys) \<longleftrightarrow> wf_regions xs \<and> wf_regions ys \<and> (\<forall>r\<in>set xs. \<forall>s\<in>set ys. re r \<le> rb s)"
  by (auto simp: wf_regions_def sorted_wrt_append)

lemma wf_region_end: "wf_region r \<Longrightarrow> unat (r_base r + r_size r) = re r"
  by (simp add: wf_region_def unat_add_32)

lemma wf_region_less: "wf_region r \<Longrightarrow> rb r < re r"
  by (simp add: wf_region_def word_neq_0_conv word_less_nat_alt)

section \<open>Merging\<close>

fun merge_list :: "memblock_region list \<Rightarrow> memblock_region list" where
  "merge_list (a # b # rs) =
     (if r_base a + r_size a \<noteq> r_base b \<or> r_flags a \<noteq> r_flags b then a # merge_list (b # rs)
      else merge_list (a\<lparr>r_size := r_size a + r_size b\<rparr> # rs))"
| "merge_list rs = rs"

lemma merged_region:
  assumes "wf_region a" "wf_region b" "r_base a + r_size a = r_base b"
  defines "m \<equiv> a\<lparr>r_size := r_size a + r_size b\<rparr>"
  shows "wf_region m" "rb m = rb a" "re m = re b" "raddrs m = raddrs a \<union> raddrs b"
proof -
  have ab: "re a = rb b" using assms(3) wf_region_end [OF assms(1)] by simp
  have lt: "rb a < re a" "rb b < re b" "re b < 2 ^ 32"
    using assms(1,2) wf_region_less by (auto simp: wf_region_def)
  then have s: "unat (r_size a + r_size b) = unat (r_size a) + unat (r_size b)"
    using ab by (intro unat_add_32) linarith
  then show m: "rb m = rb a" "re m = re b" using ab by (simp_all add: m_def)
  show "wf_region m" using m lt s by (auto simp: wf_region_def m_def word_neq_0_conv word_less_nat_alt)
  have "raddrs m = {rb a..<re b}" unfolding raddrs_def using m by simp
  moreover have "{rb a..<rb b} \<union> {rb b..<re b} = {rb a..<re b}"
    using ab lt by (intro ivl_disj_un_two(3)) simp_all
  ultimately show "raddrs m = raddrs a \<union> raddrs b" unfolding raddrs_def ab by simp
qed

lemma merge_list_lower: "\<forall>s\<in>set rs. x \<le> rb s \<Longrightarrow> \<forall>s\<in>set (merge_list rs). x \<le> rb s"
  by (induction rs rule: merge_list.induct) simp_all

lemma merge_list_length: "length (merge_list rs) \<le> length rs"
  by (induction rs rule: merge_list.induct) auto

lemma merge_list_Nil [simp]: "merge_list rs = [] \<longleftrightarrow> rs = []"
  by (induction rs rule: merge_list.induct) auto

lemma merge_list_sum: "sum_list (map r_size (merge_list rs)) = sum_list (map r_size rs)"
  by (induction rs rule: merge_list.induct) (simp_all add: add.assoc)

lemma merge_step:
  assumes "wf_regions (a # b # rs)" "\<not> (r_base a + r_size a \<noteq> r_base b \<or> r_flags a \<noteq> r_flags b)"
  defines "m \<equiv> a\<lparr>r_size := r_size a + r_size b\<rparr>"
  shows "wf_regions (m # rs)" "amap (m # rs) = amap (a # b # rs)"
proof -
  have w: "wf_region a" "wf_region b" "r_base a + r_size a = r_base b" "r_flags a = r_flags b"
    "\<forall>s\<in>set rs. re b \<le> rb s" "wf_regions rs"
    using assms unfolding wf_regions_Cons by blast+
  note m = merged_region [OF w(1-3), folded m_def]
  show "wf_regions (m # rs)" using w m(1) unfolding wf_regions_Cons m(3) by blast
  have "r_flags m = r_flags b" using w(4) by (simp add: m_def)
  then show "amap (m # rs) = amap (a # b # rs)" using w(4) by (intro ext) (simp add: m(4))
qed

lemma merge_list_wf: "wf_regions rs \<Longrightarrow> wf_regions (merge_list rs) \<and> amap (merge_list rs) = amap rs"
proof (induction rs rule: merge_list.induct)
  case (1 a b rs)
  show ?case
  proof (cases "r_base a + r_size a \<noteq> r_base b \<or> r_flags a \<noteq> r_flags b")
    case True
    have w: "wf_regions (b # rs)" "wf_region a" "\<forall>s\<in>set (b # rs). re a \<le> rb s"
      using "1.prems" unfolding wf_regions_Cons [of a] by blast+
    have e: "merge_list (a # b # rs) = a # merge_list (b # rs)" using True by (simp only: merge_list.simps if_True)
    have "wf_regions (a # merge_list (b # rs))"
      using "1.IH"(1) [OF True w(1)] w merge_list_lower [OF w(3)] unfolding wf_regions_Cons [of a] by blast
    moreover have "amap (a # merge_list (b # rs)) = amap (a # b # rs)"
      using "1.IH"(1) [OF True w(1)] by (intro ext) (simp only: amap.simps)
    ultimately show ?thesis unfolding e by blast
  next
    case False
    then have e: "merge_list (a # b # rs) = merge_list (a\<lparr>r_size := r_size a + r_size b\<rparr> # rs)"
      by (simp only: merge_list.simps if_False)
    show ?thesis unfolding e using "1.IH"(2) [OF False] merge_step [OF "1.prems" False] by simp
  qed
qed auto

lemma live_nonempty: "wf_array t \<Longrightarrow> live t \<noteq> []"
  by (auto simp: wf_array_def live_def)

lemma merge_array_live:
  fixes m :: memblock_region
  assumes "wf_array t" "live t = pre @ a # b # rs"
  defines "t' \<equiv> t\<lparr>t_regions := move_slots ((t_regions t)[length pre := m]) (length pre + 1) (length pre + 2)
      (t_cnt t - (length pre + 2)), t_cnt := t_cnt t - 1\<rparr>"
  shows "wf_array t'" "live t' = pre @ m # rs"
proof -
  let ?a = "(t_regions t)[length pre := m]"
  have len: "length (t_regions t) = t_max t" "t_cnt t \<le> t_max t" "t_cnt t = length pre + 2 + length rs"
    using assms(1) length_live [OF assms(1)] unfolding assms(2) by (auto simp: wf_array_def)
  have "take (t_cnt t) ?a = pre @ m # b # rs"
    using assms(2) len by (simp add: live_def take_update_swap)
  moreover have "Suc (length pre) < t_cnt t" "t_cnt t \<le> length ?a" using len by auto
  ultimately show "live t' = pre @ m # rs"
    using take_move_slots_remove [of "Suc (length pre)" "t_cnt t" ?a] by (simp add: live_def t'_def)
  show "wf_array t'" using len by (simp add: wf_array_def t'_def)
qed

lemma merge_loop_live:
  assumes "wf_array t" "live t = pre @ rest" "i = length pre" "wf_regions rest" "rest \<noteq> []"
  shows "\<exists>t'. merge_loop t i = Some t' \<and> wf_array t' \<and> live t' = pre @ merge_list rest \<and>
    t_max t' = t_max t \<and> t_total_size t' = t_total_size t \<and> t_loc t' = t_loc t"
  using assms
proof (induction "length rest" arbitrary: t i pre rest rule: less_induct)
  case less
  have cnt: "t_cnt t = i + length rest" using length_live [OF less.prems(1)] less.prems by simp
  show ?case
  proof (cases rest rule: merge_list.cases)
    case (1 a b rs)
    have th: "t_regions t ! i = a" "t_regions t ! (i + 1) = b" "i < t_cnt t - 1"
      using nth_live [OF less.prems(1), of i] nth_live [OF less.prems(1), of "i + 1"] less.prems(2,3) cnt 1
      by (auto simp: nth_append)
    have w: "wf_region a" "re a \<le> rb b" "wf_regions (b # rs)"
      using less.prems(4) unfolding 1 wf_regions_Cons [of a] by auto
    show ?thesis
    proof (cases "r_base a + r_size a \<noteq> r_base b \<or> r_flags a \<noteq> r_flags b")
      case True
      have "\<not> r_base a + r_size a > r_base b" using w wf_region_end by (simp add: word_less_nat_alt)
      then have "merge_loop t i = merge_loop t (i + 1)"
        using True th by (subst merge_loop.simps) (simp add: Let_def)
      moreover have "\<exists>t'. merge_loop t (i + 1) = Some t' \<and> wf_array t' \<and> live t' = (pre @ [a]) @ merge_list (b # rs) \<and>
          t_max t' = t_max t \<and> t_total_size t' = t_total_size t \<and> t_loc t' = t_loc t"
        by (rule less.hyps) (use 1 less.prems w(3) in simp_all)
      ultimately show ?thesis using True 1 by simp
    next
      case False
      let ?m = "a\<lparr>r_size := r_size a + r_size b\<rparr>"
      let ?t = "t\<lparr>t_regions := move_slots ((t_regions t)[length pre := ?m]) (length pre + 1) (length pre + 2)
          (t_cnt t - (length pre + 2)), t_cnt := t_cnt t - 1\<rparr>"
      have "merge_loop t i = merge_loop ?t i"
        using False th less.prems(3) by (subst merge_loop.simps) (simp add: Let_def)
      moreover have "\<exists>t'. merge_loop ?t i = Some t' \<and> wf_array t' \<and> live t' = pre @ merge_list (?m # rs) \<and>
          t_max t' = t_max ?t \<and> t_total_size t' = t_total_size ?t \<and> t_loc t' = t_loc ?t"
      proof (rule less.hyps)
        show "wf_array ?t" "live ?t = pre @ ?m # rs"
          using merge_array_live [OF less.prems(1)] less.prems(2) 1 by auto
        show "wf_regions (?m # rs)" using merge_step(1) less.prems(4) 1 False by blast
      qed (use 1 less.prems in simp_all)
      ultimately show ?thesis using False 1 by simp
    qed
  next
    case "2_1"
    then show ?thesis using less.prems by simp
  next
    case "2_2"
    then have "\<not> i < t_cnt t - 1" using cnt by simp
    then show ?thesis using "2_2" less.prems by (subst merge_loop.simps) simp
  qed
qed

lemma memblock_merge_regions_live:
  assumes "wf_array t" "wf_regions (live t)"
  shows "\<exists>t'. memblock_merge_regions t = Some t' \<and> wf_array t' \<and> live t' = merge_list (live t) \<and>
    t_max t' = t_max t \<and> t_total_size t' = t_total_size t \<and> t_loc t' = t_loc t"
proof -
  have "live t \<noteq> []" using assms(1) by (rule live_nonempty)
  from merge_loop_live [OF assms(1) _ _ assms(2) this, of "[]" 0] show ?thesis
    by (simp add: memblock_merge_regions_def)
qed

text \<open>No two neighbours of a merged list could be merged further.\<close>

lemma merge_list_hd:
  "r_base (hd (merge_list (r # rs))) = r_base r \<and> r_flags (hd (merge_list (r # rs))) = r_flags r"
  by (induction "r # rs" arbitrary: r rs rule: merge_list.induct) auto

lemma merge_list_minimal:
  "successively (\<lambda>a b. r_base a + r_size a \<noteq> r_base b \<or> r_flags a \<noteq> r_flags b) (merge_list rs)"
proof (induction rs rule: merge_list.induct)
  case (1 a b rs)
  then show ?case using merge_list_hd [of b rs] by (auto simp: successively_Cons)
qed auto

section \<open>Search and overlap\<close>

lemma wf_regions_nth_less:
  "wf_regions rs \<Longrightarrow> i < j \<Longrightarrow> j < length rs \<Longrightarrow> re (rs ! i) \<le> rb (rs ! j)"
  using sorted_wrt_nth_less [of "\<lambda>a b. re a \<le> rb b" rs i j] by (simp add: wf_regions_def)

text \<open>\<open>search_result t addr r\<close>: \<open>r\<close> is the index of the region that holds the address, or \<open>-1\<close> and
  no region does.\<close>

definition search_result :: "memblock_type \<Rightarrow> u32 \<Rightarrow> int \<Rightarrow> bool" where
  "search_result t addr r \<longleftrightarrow>
     (if r = - 1 then unat addr \<notin> addrs (live t)
      else 0 \<le> r \<and> nat r < t_cnt t \<and> unat addr \<in> raddrs (live t ! nat r))"

lemma bex_nth: "(\<exists>r\<in>set rs. P r) \<longleftrightarrow> (\<exists>i<length rs. P (rs ! i))"
  by (metis in_set_conv_nth)

lemma addrs_nth: "a \<in> addrs rs \<longleftrightarrow> (\<exists>i<length rs. a \<in> raddrs (rs ! i))"
  by (simp add: addrs_def) (metis in_set_conv_nth)

lemma region_order:
  assumes "wf_regions rs" "i < length rs" "j < length rs" "a \<in> raddrs (rs ! i)"
  shows "a < rb (rs ! j) \<Longrightarrow> i < j" "re (rs ! j) \<le> a \<Longrightarrow> j < i"
  using assms wf_regions_nth_less [OF assms(1), of j i] wf_regions_nth_less [OF assms(1), of i j]
  by (cases i j rule: linorder_cases; auto simp: raddrs_def)+

lemma search_loop_correct:
  assumes "wf_array t" "wf_regions (live t)" "left \<le> right" "right \<le> t_cnt t" "left < t_cnt t"
    and "\<forall>i<t_cnt t. unat addr \<in> raddrs (live t ! i) \<longrightarrow> left \<le> i \<and> i < right"
  shows "search_result t addr (search_loop t addr left right)"
  using assms(3-)
proof (induction "right - left" arbitrary: left right rule: less_induct)
  case less
  define mid where "mid = (right + left) div 2"
  have mid: "left \<le> mid" "mid < t_cnt t" "left < right \<Longrightarrow> mid < right"
    using less.prems unfolding mid_def by auto
  let ?r = "live t ! mid"
  have r: "t_regions t ! mid = ?r" using nth_live [OF assms(1) mid(2)] .
  have "wf_region ?r" using assms(2) mid(2) length_live [OF assms(1)] by (simp add: wf_regions_def)
  then have e: "unat (r_base ?r + r_size ?r) = re ?r" by (rule wf_region_end)
  have ord: "i < mid" if "i < t_cnt t" "unat addr \<in> raddrs (live t ! i)" "unat addr < rb ?r" for i
    using region_order(1) [OF assms(2)] that mid(2) assms(1) by simp
  have ord': "mid < i" if "i < t_cnt t" "unat addr \<in> raddrs (live t ! i)" "re ?r \<le> unat addr" for i
    using region_order(2) [OF assms(2)] that mid(2) assms(1) by simp
  consider (below) "unat addr < rb ?r" | (above) "re ?r \<le> unat addr" "\<not> unat addr < rb ?r"
    | (hit) "unat addr \<in> raddrs ?r" "\<not> unat addr < rb ?r" "\<not> re ?r \<le> unat addr"
    by (fastforce simp: raddrs_def)
  then show ?case
  proof cases
    case below
    then have eq: "search_loop t addr left right = (if left < mid then search_loop t addr left mid else - 1)"
      by (subst search_loop.simps) (simp add: Let_def mid_def [symmetric] r word_less_nat_alt)
    show ?thesis
    proof (cases "left < mid")
      case True
      then have "left < right" unfolding mid_def by auto
      then have "mid - left < right - left" "left < t_cnt t" using True mid less.prems(3) by auto
      then show ?thesis unfolding eq using True mid less.hyps [of mid left] less.prems(4) ord below by simp
    next
      case False
      have "unat addr \<notin> raddrs (live t ! i)" if "i < t_cnt t" for i
        using ord [OF that _ below] less.prems(4) False that by (meson leD le_less_trans not_less)
      then show ?thesis unfolding eq using False assms(1) by (simp add: search_result_def addrs_nth)
    qed
  next
    case above
    then have eq: "search_loop t addr left right = (if mid + 1 < right then search_loop t addr (mid + 1) right else - 1)"
      by (subst search_loop.simps) (simp add: Let_def mid_def [symmetric] r e word_less_nat_alt word_le_nat_alt)
    show ?thesis
    proof (cases "mid + 1 < right")
      case True
      then have "right - (mid + 1) < right - left" "mid + 1 < t_cnt t" using mid(1) less.prems(2) by auto
      then show ?thesis unfolding eq
        using True mid less.hyps [of right "mid + 1"] less.prems(2,4) ord' above by (simp add: Suc_le_eq)
    next
      case False
      have "unat addr \<notin> raddrs (live t ! i)" if "i < t_cnt t" for i
        using ord' [OF that _ above(1)] less.prems(4) False that by fastforce
      then show ?thesis unfolding eq using False assms(1) by (simp add: search_result_def addrs_nth)
    qed
  next
    case hit
    then have "search_loop t addr left right = int mid"
      by (subst search_loop.simps) (simp add: Let_def mid_def [symmetric] r e word_less_nat_alt word_le_nat_alt)
    then show ?thesis using hit mid by (simp add: search_result_def)
  qed
qed

lemma memblock_search_correct:
  assumes "wf_type t"
  shows "search_result t addr (memblock_search t addr)"
proof (cases "live t = [empty_region]")
  case True
  then have r: "t_cnt t = 1" "t_regions t ! 0 = empty_region"
    using assms length_live [of t] nth_live [of t 0] by (auto simp: wf_type_def)
  then have "memblock_search t addr = - 1" unfolding memblock_search_def
    by (subst search_loop.simps) (simp add: Let_def empty_region_def)
  with True show ?thesis by (simp add: search_result_def addrs_def)
next
  case False
  then have w: "wf_array t" "wf_regions (live t)" using assms by (auto simp: wf_type_def)
  then have "0 < t_cnt t" by (simp add: wf_array_def)
  with search_loop_correct [OF w, of 0 "t_cnt t" addr] show ?thesis by (simp add: memblock_search_def)
qed

lemma memblock_overlaps_region_iff:
  assumes "wf_type t" "unat base + unat sz < 2 ^ 32" "sz \<noteq> 0"
  shows "memblock_overlaps_region t base sz \<longleftrightarrow> addrs (live t) \<inter> {unat base..<unat base + unat sz} \<noteq> {}"
proof -
  have e: "unat (base + sz) = unat base + unat sz" using assms(2) by (rule unat_add_32)
  have lt: "unat base < unat base + unat sz" using assms(3) by (simp add: word_neq_0_conv word_less_nat_alt)
  have ov: "memblock_addrs_overlap base sz (r_base r) (r_size r) \<longleftrightarrow>
      raddrs r \<inter> {unat base..<unat base + unat sz} \<noteq> {}" if "r \<in> set (live t)" for r
  proof (cases "wf_region r")
    case True
    have "raddrs r \<inter> {unat base..<unat base + unat sz} = {max (rb r) (unat base)..<min (re r) (unat base + unat sz)}"
      by (auto simp: raddrs_def)
    then show ?thesis using lt wf_region_less [OF True]
      by (auto simp: memblock_addrs_overlap_def word_less_nat_alt e wf_region_end [OF True] max_def min_def)
  next
    case False
    then have "live t = [empty_region]" using assms(1) that by (auto simp: wf_type_def wf_regions_def)
    then have "r = empty_region" using that by simp
    then show ?thesis by (simp add: memblock_addrs_overlap_def empty_region_def raddrs_def)
  qed
  have "wf_array t" using assms(1) by (simp add: wf_type_def)
  then have "memblock_overlaps_region t base sz \<longleftrightarrow>
      (\<exists>r\<in>set (live t). memblock_addrs_overlap base sz (r_base r) (r_size r))"
    unfolding bex_nth memblock_overlaps_region_def list_ex_iff using nth_live [of t] by auto
  also have "\<dots> \<longleftrightarrow> (\<exists>r\<in>set (live t). raddrs r \<inter> {unat base..<unat base + unat sz} \<noteq> {})"
    using ov by (rule bex_cong [OF refl])
  also have "\<dots> \<longleftrightarrow> addrs (live t) \<inter> {unat base..<unat base + unat sz} \<noteq> {}"
    unfolding addrs_def by blast
  finally show ?thesis .
qed

end
