(* ===== verification/Memblock_Range.thy ===== *)
theory Memblock_Range
  imports Memblock
begin

text \<open>
  Adding and isolating a range of addresses in one \<^verbatim>\<open>struct memblock_type\<close>: the loops of
  \<^verbatim>\<open>memblock_add_range\<close> and \<^verbatim>\<open>memblock_isolate_range\<close> of \<^verbatim>\<open>mm/memblock.c\<close>. Each loop on
  the array is shown to implement a function on the list of used regions (\<open>fill\<close>, \<open>cut\<close>),
  and that function is described by its effect on the map from addresses to flags.
\<close>

section \<open>The loop of memblock_add_range\<close>

text \<open>One pass of \<^verbatim>\<open>for_each_memblock_type\<close>, from index \<open>idx\<close> on. With \<open>insrt\<close> false it only
  counts the portions that are missing; with \<open>insrt\<close> true it inserts them.\<close>

function add_loop ::
  "bool \<Rightarrow> u32 \<Rightarrow> u32 \<Rightarrow> memblock_type \<Rightarrow> nat \<Rightarrow> u32 \<Rightarrow> nat \<Rightarrow> (memblock_type \<times> nat \<times> u32 \<times> nat) option" where
  "add_loop insrt flags end' t idx base nr_new =
     (if idx < t_cnt t
      then let rbase = r_base (t_regions t ! idx);
               rend = rbase + r_size (t_regions t ! idx)
           in if rbase \<ge> end' then Some (t, idx, base, nr_new)
              else if rend \<le> base then add_loop insrt flags end' t (idx + 1) base nr_new
              else if rbase > base
              then (if insrt
                    then (case memblock_insert_region t idx base (rbase - base) flags of
                            None \<Rightarrow> None
                          | Some t' \<Rightarrow> add_loop insrt flags end' t' (idx + 2) (min rend end') (nr_new + 1))
                    else add_loop insrt flags end' t (idx + 1) (min rend end') (nr_new + 1))
              else add_loop insrt flags end' t (idx + 1) (min rend end') nr_new
      else Some (t, idx, base, nr_new))"
  by pat_completeness auto
termination
  by (relation "measure (\<lambda>(insrt, flags, end', t, idx, base, nr_new). t_cnt t - idx)")
    (auto simp: memblock_insert_region_def split: if_splits)

declare add_loop.simps [simp del]

text \<open>The code after the loop: the portion above the last region.\<close>

definition add_rest :: "bool \<Rightarrow> u32 \<Rightarrow> u32 \<Rightarrow> memblock_type \<times> nat \<times> u32 \<times> nat \<Rightarrow> (nat \<times> memblock_type) option" where
  "add_rest insrt flags end' = (\<lambda>(t, idx, base, nr_new).
     if base < end'
     then (if insrt
           then map_option (\<lambda>t'. (nr_new + 1, t')) (memblock_insert_region t idx base (end' - base) flags)
           else Some (nr_new + 1, t))
     else Some (nr_new, t))"

text \<open>One round of \<^verbatim>\<open>repeat:\<close>, up to the test of \<^verbatim>\<open>nr_new\<close>.\<close>

definition add_pass :: "bool \<Rightarrow> u32 \<Rightarrow> u32 \<Rightarrow> u32 \<Rightarrow> memblock_type \<Rightarrow> (nat \<times> memblock_type) option" where
  "add_pass insrt flags base end' t =
     Option.bind (add_loop insrt flags end' t 0 base 0) (add_rest insrt flags end')"

section \<open>The loop of memblock_isolate_range\<close>

text \<open>The split from above runs the same index again, so the loop takes fuel; \<open>t_cnt t + 4\<close>
  rounds are enough.\<close>

fun isolate_loop ::
  "nat \<Rightarrow> u32 \<Rightarrow> u32 \<Rightarrow> memblock_type \<Rightarrow> nat \<Rightarrow> nat \<Rightarrow> nat \<Rightarrow> (memblock_type \<times> nat \<times> nat) option" where
  "isolate_loop 0 base end' t idx start_rgn end_rgn = None"
| "isolate_loop (Suc fuel) base end' t idx start_rgn end_rgn =
     (if idx < t_cnt t
      then let rgn = t_regions t ! idx;
               rbase = r_base rgn;
               rend = rbase + r_size rgn
           in if rbase \<ge> end' then Some (t, start_rgn, end_rgn)
              else if rend \<le> base then isolate_loop fuel base end' t (idx + 1) start_rgn end_rgn
              else if rbase < base
              then (case memblock_insert_region
                       (t\<lparr>t_regions := (t_regions t)[idx := rgn\<lparr>r_base := base, r_size := r_size rgn - (base - rbase)\<rparr>],
                          t_total_size := t_total_size t - (base - rbase)\<rparr>)
                       idx rbase (base - rbase) (r_flags rgn) of
                      None \<Rightarrow> None
                    | Some t' \<Rightarrow> isolate_loop fuel base end' t' (idx + 1) start_rgn end_rgn)
              else if rend > end'
              then (case memblock_insert_region
                       (t\<lparr>t_regions := (t_regions t)[idx := rgn\<lparr>r_base := end', r_size := r_size rgn - (end' - rbase)\<rparr>],
                          t_total_size := t_total_size t - (end' - rbase)\<rparr>)
                       idx rbase (end' - rbase) (r_flags rgn) of
                      None \<Rightarrow> None
                    | Some t' \<Rightarrow> isolate_loop fuel base end' t' idx start_rgn end_rgn)
              else isolate_loop fuel base end' t (idx + 1)
                     (if end_rgn = 0 then idx else start_rgn) (idx + 1)
      else Some (t, start_rgn, end_rgn))"

section \<open>Filling the gaps of a list of regions\<close>

abbreviation piece :: "u32 \<Rightarrow> u32 \<Rightarrow> u32 \<Rightarrow> memblock_region" where
  "piece flags b e \<equiv> \<lparr>r_base = b, r_size = e - b, r_flags = flags\<rparr>"

fun fill :: "u32 \<Rightarrow> u32 \<Rightarrow> u32 \<Rightarrow> memblock_region list \<Rightarrow> memblock_region list" where
  "fill flags e b [] = (if b < e then [piece flags b e] else [])"
| "fill flags e b (r # rs) =
     (if r_base r \<ge> e then (if b < e then [piece flags b e] else []) @ r # rs
      else if r_base r + r_size r \<le> b then r # fill flags e b rs
      else (if r_base r > b then [piece flags b (r_base r)] else []) @
        r # fill flags e (min (r_base r + r_size r) e) rs)"

lemma length_fill: "length rs \<le> length (fill flags e b rs)"
  by (induction rs arbitrary: b) (auto simp: le_SucI)

text \<open>The counting pass finds the number of regions that \<^const>\<open>fill\<close> adds and changes nothing.\<close>

lemma add_loop_count:
  assumes "wf_array t" "live t = pre @ rest" "idx = length pre"
  shows "Option.bind (add_loop False flags e t idx b nr) (add_rest False flags e) =
    Some (nr + (length (fill flags e b rest) - length rest), t)"
  using assms
proof (induction rest arbitrary: pre idx b nr)
  case Nil
  then have "\<not> idx < t_cnt t" using length_live [OF Nil(1)] by simp
  then show ?case by (subst add_loop.simps) (simp add: add_rest_def)
next
  case (Cons r rest)
  have idx: "idx < t_cnt t" "t_regions t ! idx = r"
    using length_live [OF Cons.prems(1)] nth_live [OF Cons.prems(1), of idx] Cons.prems(2,3) by auto
  have IH: "Option.bind (add_loop False flags e t (idx + 1) b' nr') (add_rest False flags e) =
      Some (nr' + (length (fill flags e b' rest) - length rest), t)" for b' nr'
    by (rule Cons.IH [where pre = "pre @ [r]"]) (use Cons.prems in simp_all)
  note len = length_fill [of rest flags e]
  consider "r_base r \<ge> e" | "\<not> r_base r \<ge> e" "r_base r + r_size r \<le> b"
    | "\<not> r_base r \<ge> e" "\<not> r_base r + r_size r \<le> b" by blast
  then show ?case
  proof cases
    case 1
    then show ?thesis using idx by (subst add_loop.simps) (simp add: add_rest_def)
  next
    case 2
    then show ?thesis using idx IH len by (subst add_loop.simps) (simp add: Let_def)
  next
    case 3
    then show ?thesis using idx IH len [of "min (r_base r + r_size r) e"]
      by (subst add_loop.simps) (simp add: Let_def Suc_diff_le trans_le_add2)
  qed
qed

text \<open>The inserting pass implements \<^const>\<open>fill\<close> when the array has room for the result. The sum
  of the sizes moves with the total.\<close>

definition same_total :: "memblock_type \<Rightarrow> memblock_type \<Rightarrow> bool" where
  "same_total t t' \<longleftrightarrow> t_total_size t' - sum_list (map r_size (live t')) =
     t_total_size t - sum_list (map r_size (live t)) \<and> t_max t' = t_max t \<and> t_loc t' = t_loc t"

lemma same_total_refl [simp]: "same_total t t"
  by (simp add: same_total_def)

lemma same_total_trans: "same_total t t' \<Longrightarrow> same_total t' t'' \<Longrightarrow> same_total t t''"
  by (simp add: same_total_def)

lemma insert_region_step:
  assumes "wf_array t" "live t = pre @ rest" "t_cnt t < t_max t"
  obtains t' where "memblock_insert_region t (length pre) base sz flags = Some t'" "wf_array t'"
    "live t' = pre @ \<lparr>r_base = base, r_size = sz, r_flags = flags\<rparr> # rest" "same_total t t'"
proof -
  have "length pre \<le> t_cnt t" using length_live [OF assms(1)] assms(2) by simp
  from insert_region_live [OF assms(1) this assms(3), of base sz flags] assms(2) that show ?thesis
    by (auto simp: same_total_def)
qed

lemma add_loop_insert:
  assumes "wf_array t" "live t = pre @ rest" "idx = length pre"
    and "length pre + length (fill flags e b rest) \<le> t_max t"
  shows "\<exists>nr' t'. Option.bind (add_loop True flags e t idx b nr) (add_rest True flags e) = Some (nr', t') \<and>
    wf_array t' \<and> live t' = pre @ fill flags e b rest \<and> same_total t t' \<and>
    nr' = nr + (length (fill flags e b rest) - length rest)"
  using assms
proof (induction rest arbitrary: t pre idx b nr)
  case Nil
  then have cnt: "t_cnt t = idx" using length_live [OF Nil(1)] by simp
  show ?case
  proof (cases "b < e")
    case True
    then have "t_cnt t < t_max t" using Nil.prems(3,4) cnt by simp
    from insert_region_step [OF Nil.prems(1,2) this, of b "e - b" flags] obtain t' where
      "memblock_insert_region t idx b (e - b) flags = Some t'" "wf_array t'"
      "live t' = pre @ [piece flags b e]" "same_total t t'" using Nil.prems(3) by auto
    then show ?thesis using True cnt by (subst add_loop.simps) (simp add: add_rest_def)
  next
    case False
    then show ?thesis using Nil.prems cnt by (subst add_loop.simps) (simp add: add_rest_def)
  qed
next
  case (Cons r rest)
  have idx: "idx < t_cnt t" "t_regions t ! idx = r" "t_cnt t = Suc (idx + length rest)"
    using length_live [OF Cons.prems(1)] nth_live [OF Cons.prems(1), of idx] Cons.prems(2,3) by auto
  note len = length_fill [of rest flags e]
  consider (break) "r_base r \<ge> e" | (skip) "\<not> r_base r \<ge> e" "r_base r + r_size r \<le> b"
    | (gap) "\<not> r_base r \<ge> e" "\<not> r_base r + r_size r \<le> b" "r_base r > b"
    | (over) "\<not> r_base r \<ge> e" "\<not> r_base r + r_size r \<le> b" "\<not> r_base r > b" by blast
  then show ?case
  proof cases
    case break
    show ?thesis
    proof (cases "b < e")
      case True
      then have "t_cnt t < t_max t" using Cons.prems(3,4) idx(3) break by simp
      from insert_region_step [OF Cons.prems(1,2) this, of b "e - b" flags] obtain t' where
        "memblock_insert_region t idx b (e - b) flags = Some t'" "wf_array t'"
        "live t' = pre @ piece flags b e # r # rest" "same_total t t'" using Cons.prems(3) by auto
      then show ?thesis using True idx break by (subst add_loop.simps) (simp add: add_rest_def)
    next
      case False
      then show ?thesis using Cons.prems idx break by (subst add_loop.simps) (simp add: add_rest_def)
    qed
  next
    case skip
    then have "add_loop True flags e t idx b nr = add_loop True flags e t (idx + 1) b nr"
      using idx by (subst add_loop.simps) (simp add: Let_def)
    then show ?thesis
      using Cons.IH [of t "pre @ [r]" "idx + 1" b nr] Cons.prems skip len [of b] by simp
  next
    case gap
    let ?b = "min (r_base r + r_size r) e"
    have "t_cnt t < t_max t" using Cons.prems(3,4) idx(3) gap len [of ?b] by simp
    from insert_region_step [OF Cons.prems(1,2) this, of b "r_base r - b" flags] obtain t1 where
      t1: "memblock_insert_region t idx b (r_base r - b) flags = Some t1" "wf_array t1"
        "live t1 = (pre @ [piece flags b (r_base r), r]) @ rest" "same_total t t1" using Cons.prems(3) by auto
    then have "add_loop True flags e t idx b nr = add_loop True flags e t1 (idx + 2) ?b (nr + 1)"
      using idx gap by (subst add_loop.simps) (simp add: Let_def)
    moreover have "t_max t1 = t_max t" using t1(4) by (simp add: same_total_def)
    ultimately show ?thesis
      using Cons.IH [OF t1(2,3), of "idx + 2" ?b "nr + 1"] Cons.prems(3,4) gap len [of ?b]
        same_total_trans [OF t1(4)] by auto
  next
    case over
    let ?b = "min (r_base r + r_size r) e"
    have "add_loop True flags e t idx b nr = add_loop True flags e t (idx + 1) ?b nr"
      using idx over by (subst add_loop.simps) (simp add: Let_def)
    then show ?thesis
      using Cons.IH [of t "pre @ [r]" "idx + 1" ?b nr] Cons.prems over len [of ?b] by simp
  qed
qed

section \<open>What filling does to the addresses\<close>

lemma piece_props:
  assumes "b < e"
  shows "wf_region (piece flags b e)" "rb (piece flags b e) = unat b" "re (piece flags b e) = unat e"
    "raddrs (piece flags b e) = {unat b..<unat e}"
proof -
  have s: "unat (e - b) = unat e - unat b" using assms by (intro unat_sub) simp
  have lt: "unat b < unat e" using assms by (simp add: word_less_nat_alt)
  then show e: "re (piece flags b e) = unat e" and "rb (piece flags b e) = unat b" using s by simp_all
  then show "raddrs (piece flags b e) = {unat b..<unat e}" by (simp add: raddrs_def s lt)
  have "e - b \<noteq> 0" using assms by auto
  then show "wf_region (piece flags b e)" using unat_less_32 [of e] e by (simp add: wf_region_def)
qed

lemma unat_min: "unat (min a b :: u32) = min (unat a) (unat b)"
  by (simp add: min_def word_le_nat_alt)

lemma fill_lower:
  assumes "b < e \<longrightarrow> x \<le> unat b" "\<forall>r\<in>set rs. x \<le> rb r \<and> wf_region r"
  shows "\<forall>r\<in>set (fill flags e b rs). x \<le> rb r"
  using assms
proof (induction rs arbitrary: b)
  case (Cons r rs)
  let ?b = "min (r_base r + r_size r) e"
  have "x \<le> unat ?b" if "?b < e"
  proof -
    have "?b = r_base r + r_size r" using that by (auto simp: min_def split: if_splits)
    then show ?thesis using Cons.prems(2) wf_region_end [of r] by simp
  qed
  moreover have "b < e" if "b < r_base r" "\<not> e \<le> r_base r" using that by auto
  ultimately show ?case using Cons by auto
qed auto

lemma fill_wf:
  assumes "wf_regions rs"
  shows "wf_regions (fill flags e b rs)"
  using assms
proof (induction rs arbitrary: b)
  case Nil
  then show ?case using piece_props by (simp add: wf_regions_Cons)
next
  case (Cons r rs)
  have w: "wf_region r" "\<forall>s\<in>set rs. re r \<le> rb s" "wf_regions rs"
    using Cons.prems unfolding wf_regions_Cons by auto
  then have wr: "\<forall>s\<in>set rs. re r \<le> rb s \<and> wf_region s" by (simp add: wf_regions_def)
  note re = wf_region_end [OF w(1)]
  have tail: "wf_regions (r # fill flags e b' rs)" if "b' < e \<Longrightarrow> re r \<le> unat b'" for b'
    using fill_lower [OF _ wr, of b' e flags] that w(1) Cons.IH [OF w(3), of b']
    unfolding wf_regions_Cons by blast
  consider (break) "r_base r \<ge> e" | (skip) "\<not> r_base r \<ge> e" "r_base r + r_size r \<le> b"
    | (over) "\<not> r_base r \<ge> e" "\<not> r_base r + r_size r \<le> b" by blast
  then show ?case
  proof cases
    case break
    then have "\<forall>s\<in>set (r # rs). unat e \<le> rb s"
      using w(2) wf_region_less [OF w(1)] by (auto simp: word_le_nat_alt)
    then show ?thesis using break Cons.prems piece_props [of b e flags]
      by (simp add: wf_regions_Cons [of "piece flags b e"])
  next
    case skip
    then show ?thesis using tail [of b] re by (simp add: word_le_nat_alt)
  next
    case over
    let ?b = "min (r_base r + r_size r) e"
    have "re r \<le> unat ?b" if "?b < e" using that re by (auto simp: min_def split: if_splits)
    note t = tail [OF this]
    show ?thesis
    proof (cases "b < r_base r")
      case True
      have "\<forall>s\<in>set (r # fill flags e ?b rs). rb r \<le> rb s"
        using t wf_region_less [OF w(1)] unfolding wf_regions_Cons by force
      then show ?thesis using over True t piece_props [OF True, of flags]
        by (simp add: wf_regions_Cons [of "piece flags b (r_base r)"])
    next
      case False
      then show ?thesis using over t by simp
    qed
  qed
qed

lemma amap_below: "\<forall>r\<in>set rs. a < rb r \<Longrightarrow> amap rs a = None"
  by (auto simp: amap_None raddrs_def)

lemma amap_fill:
  assumes "wf_regions rs"
  shows "amap (fill flags e b rs) a =
    (case amap rs a of Some f \<Rightarrow> Some f | None \<Rightarrow> if unat b \<le> a \<and> a < unat e then Some flags else None)"
  using assms
proof (induction rs arbitrary: b)
  case Nil
  then show ?case using piece_props(4) [of b e flags] by (auto simp: word_less_nat_alt)
next
  case (Cons r rs)
  have w: "wf_region r" "\<forall>s\<in>set rs. re r \<le> rb s" "wf_regions rs"
    using Cons.prems unfolding wf_regions_Cons by auto
  note re = wf_region_end [OF w(1)] and lt = wf_region_less [OF w(1)]
  have below: "amap rs a = None" if "a < re r" using that w(2) by (intro amap_below) auto
  consider (break) "r_base r \<ge> e" | (skip) "\<not> r_base r \<ge> e" "r_base r + r_size r \<le> b"
    | (over) "\<not> r_base r \<ge> e" "\<not> r_base r + r_size r \<le> b" by blast
  then show ?case
  proof cases
    case break
    then have er: "unat e \<le> rb r" by (simp add: word_le_nat_alt)
    then have "amap (r # rs) a = None" if "a < unat e" using that lt below by (simp add: raddrs_def)
    then show ?thesis using break piece_props(4) [of b e flags]
      by (auto simp: word_less_nat_alt split: option.splits simp del: amap.simps(2))
        (simp_all add: amap.simps)
  next
    case skip
    then show ?thesis using Cons.IH [OF w(3), of b] lt re by (auto simp: word_le_nat_alt raddrs_def)
  next
    case over
    let ?b = "min (r_base r + r_size r) e"
    have n: "rb r < unat e" "unat b < re r" using over re by (auto simp: word_le_nat_alt)
    have b: "unat ?b = min (re r) (unat e)" by (simp add: unat_min re)
    note IH = Cons.IH [OF w(3), of ?b, unfolded b]
    have split: "amap (fill flags e b (r # rs)) a =
        (if unat b \<le> a \<and> a < rb r then Some flags else amap (r # fill flags e ?b rs) a)"
      using over piece_props(4) [of b "r_base r" flags] by (auto simp: word_less_nat_alt)
    consider "a < rb r" | "a \<in> raddrs r" "\<not> a < rb r" | "re r \<le> a" by (fastforce simp: raddrs_def)
    then show ?thesis
    proof cases
      case 1
      then have "a \<notin> raddrs r" "a < re r" "\<not> min (re r) (unat e) \<le> a" using lt n by (auto simp: raddrs_def)
      then show ?thesis using split 1 n IH below by simp
    next
      case 2
      then show ?thesis using split by simp
    next
      case 3
      then have "a \<notin> raddrs r" "\<not> a < rb r" using lt by (auto simp: raddrs_def)
      then show ?thesis using split 3 n IH by (auto split: option.splits)
    qed
  qed
qed

lemma add_pass_count:
  "wf_array t \<Longrightarrow> add_pass False flags b e t = Some (length (fill flags e b (live t)) - t_cnt t, t)"
  using add_loop_count [of t "[]" "live t" 0 flags e b 0] by (simp add: add_pass_def)

lemma add_pass_insert:
  assumes "wf_array t" "length (fill flags e b (live t)) \<le> t_max t"
  obtains t' where "add_pass True flags b e t = Some (length (fill flags e b (live t)) - t_cnt t, t')"
    "wf_array t'" "live t' = fill flags e b (live t)" "same_total t t'"
  using add_loop_insert [OF assms(1), of "[]" "live t" 0 flags e b 0] assms that
  by (auto simp: add_pass_def)

section \<open>Cutting regions at the ends of a range\<close>

definition sub_region :: "memblock_region \<Rightarrow> u32 \<Rightarrow> u32 \<Rightarrow> memblock_region" where
  "sub_region r b e = r\<lparr>r_base := b, r_size := e - b\<rparr>"

lemma sub_region_props:
  assumes "b < e"
  shows "wf_region (sub_region r b e)" "rb (sub_region r b e) = unat b" "re (sub_region r b e) = unat e"
    "raddrs (sub_region r b e) = {unat b..<unat e}" "r_flags (sub_region r b e) = r_flags r"
    "r_base (sub_region r b e) = b" "r_base (sub_region r b e) + r_size (sub_region r b e) = e"
  using piece_props [OF assms, of 0] by (simp_all add: sub_region_def wf_region_def raddrs_def)

text \<open>A cut of one region keeps the map from addresses to flags.\<close>

lemma cut_region:
  assumes "wf_regions (pre @ r # rest)" "r_base r < x" "x < r_base r + r_size r"
  defines "r1 \<equiv> sub_region r (r_base r) x" and "r2 \<equiv> sub_region r x (r_base r + r_size r)"
  shows "wf_regions (pre @ r1 # r2 # rest)" "amap (pre @ r1 # r2 # rest) = amap (pre @ r # rest)"
proof -
  have w: "wf_region r" "\<forall>s\<in>set rest. re r \<le> rb s" "wf_regions rest" "wf_regions pre"
    "\<forall>s\<in>set pre. re s \<le> rb r" "\<forall>s\<in>set pre. \<forall>s'\<in>set rest. re s \<le> rb s'"
    using assms(1) unfolding wf_regions_append wf_regions_Cons by auto
  note r1 = sub_region_props [OF assms(2), of r, folded r1_def]
    and r2 = sub_region_props [OF assms(3), of r, folded r2_def] and re = wf_region_end [OF w(1)]
  have x: "rb r < unat x" "unat x < re r" using assms(2,3) re by (auto simp: word_less_nat_alt)
  show "wf_regions (pre @ r1 # r2 # rest)"
    unfolding wf_regions_append wf_regions_Cons list.set ball_simps using w x r1(1-3) r2(1-3) re by fastforce
  have "raddrs r = raddrs r1 \<union> raddrs r2"
    unfolding r1(4) r2(4) re raddrs_def [of r] using x by auto
  then have "amap (r1 # r2 # rest) a = amap (r # rest) a" for a using r1(5) r2(5) by simp
  then show "amap (pre @ r1 # r2 # rest) = amap (pre @ r # rest)"
    by (intro ext) (simp only: amap_append)
qed

lemma cut_step:
  assumes "wf_array t" "live t = pre @ r # rest" "t_cnt t < t_max t"
  obtains t' where "memblock_insert_region
      (t\<lparr>t_regions := (t_regions t)[length pre := r\<lparr>r_base := x, r_size := r_size r - (x - r_base r)\<rparr>],
         t_total_size := t_total_size t - (x - r_base r)\<rparr>)
      (length pre) (r_base r) (x - r_base r) (r_flags r) = Some t'" "wf_array t'"
    "live t' = pre @ sub_region r (r_base r) x # sub_region r x (r_base r + r_size r) # rest" "same_total t t'"
proof -
  let ?r = "r\<lparr>r_base := x, r_size := r_size r - (x - r_base r)\<rparr>"
  let ?t = "t\<lparr>t_regions := (t_regions t)[length pre := ?r], t_total_size := t_total_size t - (x - r_base r)\<rparr>"
  have r: "?r = sub_region r x (r_base r + r_size r)" by (simp add: sub_region_def algebra_simps)
  have t: "wf_array ?t" "live ?t = pre @ ?r # rest" "t_cnt ?t < t_max ?t"
    using assms by (simp_all add: wf_array_def live_def take_update_swap)
  have r': "\<lparr>r_base = r_base r, r_size = x - r_base r, r_flags = r_flags r\<rparr> = sub_region r (r_base r) x"
    by (simp add: sub_region_def)
  obtain t' where t': "memblock_insert_region ?t (length pre) (r_base r) (x - r_base r) (r_flags r) = Some t'"
    "wf_array t'" "live t' = pre @ sub_region r (r_base r) x # ?r # rest" "same_total ?t t'"
    by (rule insert_region_step [OF t, of "r_base r" "x - r_base r" "r_flags r", unfolded r'])
  have "same_total t ?t" unfolding same_total_def t(2) assms(2) by (simp add: algebra_simps)
  then show ?thesis using that [OF t'(1,2)] t'(3,4) unfolding r by (blast intro: same_total_trans)
qed

text \<open>The regions of an isolated range: those before it, those inside and those after it.\<close>

definition isolated :: "u32 \<Rightarrow> u32 \<Rightarrow> memblock_region list \<Rightarrow> memblock_region list \<Rightarrow> memblock_region list \<Rightarrow> bool" where
  "isolated b e A B C \<longleftrightarrow> (\<forall>r\<in>set A. re r \<le> unat b) \<and> (\<forall>r\<in>set B. unat b \<le> rb r \<and> re r \<le> unat e) \<and>
     (\<forall>r\<in>set C. unat e \<le> rb r)"

definition rgn_indices :: "memblock_region list \<Rightarrow> memblock_region list \<Rightarrow> nat \<times> nat" where
  "rgn_indices A B = (if B = [] then (0, 0) else (length A, length A + length B))"

definition isolate_spec ::
  "u32 \<Rightarrow> u32 \<Rightarrow> memblock_type \<Rightarrow> nat \<Rightarrow> memblock_type \<times> nat \<times> nat \<Rightarrow> bool" where
  "isolate_spec b e t n res \<longleftrightarrow> (case res of (t', s', e') \<Rightarrow>
     wf_array t' \<and> wf_regions (live t') \<and> amap (live t') = amap (live t) \<and> same_total t t' \<and>
     t_cnt t' \<le> t_cnt t + n \<and> (\<exists>A B C. live t' = A @ B @ C \<and> isolated b e A B C \<and> rgn_indices A B = (s', e')))"

lemma isolate_specI:
  assumes "wf_array t" "live t = A @ B @ C" "wf_regions (live t)" "isolated b e A B C" "rgn_indices A B = (s, d)"
  shows "isolate_spec b e t n (t, s, d)"
  using assms unfolding isolate_spec_def by auto

lemma isolate_spec_weaken:
  assumes "isolate_spec b e t1 n res" "amap (live t1) = amap (live t)" "same_total t t1" "t_cnt t1 \<le> t_cnt t + m"
  shows "isolate_spec b e t (m + n) res"
  using assms same_total_trans [OF assms(3)] unfolding isolate_spec_def by (auto split: prod.splits)

lemma isolate_inside:
  assumes "wf_array t" "live t = A @ B @ rest" "wf_regions (live t)" "isolated b e A B []"
    and "\<forall>r\<in>set rest. unat b \<le> rb r" "b < e" "idx = length A + length B" "rgn_indices A B = (s, d)"
    and "length rest + 3 \<le> fuel" "t_cnt t < t_max t"
  shows "\<exists>res. isolate_loop fuel b e t idx s d = Some res \<and> isolate_spec b e t 1 res"
  using assms
proof (induction rest arbitrary: t B idx s d fuel)
  case Nil
  then obtain f where "fuel = Suc f" by (cases fuel) auto
  then show ?case
    using length_live [OF Nil(1)] Nil.prems(2,7) isolate_specI [OF Nil.prems(1-4,8)] by simp
next
  case (Cons r rest)
  obtain f where fuel: "fuel = Suc f" using Cons.prems(9) by (cases fuel) auto
  have idx: "idx < t_cnt t" "t_regions t ! idx = r"
    using length_live [OF Cons.prems(1)] nth_live [OF Cons.prems(1), of idx] Cons.prems(2,7) by (auto simp: nth_append)
  have w: "wf_region r" "\<forall>s\<in>set rest. re r \<le> rb s"
    using Cons.prems(3) unfolding Cons.prems(2) wf_regions_append wf_regions_Cons by auto
  note re = wf_region_end [OF w(1)]
  have lo: "(r_base r + r_size r \<le> b) = False" "(r_base r < b) = False"
    using wf_region_less [OF w(1)] re Cons.prems(5) by (auto simp: word_le_nat_alt word_less_nat_alt)
  consider (after) "e \<le> r_base r" | (across) "r_base r < e" "e < r_base r + r_size r"
    | (within) "r_base r < e" "r_base r + r_size r \<le> e" by fastforce
  then show ?case
  proof cases
    case after
    have "isolated b e A B (r # rest)"
      using Cons.prems(4) after w re unfolding isolated_def by (force simp: word_le_nat_alt wf_region_def)
    then show ?thesis using isolate_specI [OF Cons.prems(1-3) _ Cons.prems(8)] after fuel idx by (simp add: Let_def)
  next
    case within
    have "isolated b e A (B @ [r]) []"
      using Cons.prems(4,5) within re unfolding isolated_def by (auto simp: word_le_nat_alt)
    moreover have "rgn_indices A (B @ [r]) = (if d = 0 then idx else s, idx + 1)"
      using Cons.prems(7,8) by (auto simp: rgn_indices_def split: if_splits)
    ultimately have "\<exists>res. isolate_loop f b e t (idx + 1) (if d = 0 then idx else s) (idx + 1) = Some res \<and> isolate_spec b e t 1 res"
      using Cons.prems(1-3,5-7,9,10) fuel by (intro Cons.IH [of t "B @ [r]"]) simp_all
    moreover have "(e \<le> r_base r) = False" "(e < r_base r + r_size r) = False" using within by auto
    ultimately show ?thesis by (simp only: fuel isolate_loop.simps Let_def idx lo if_True if_False)
  next
    case across
    let ?r1 = "sub_region r (r_base r) e" and ?r2 = "sub_region r e (r_base r + r_size r)"
    have AB: "live t = (A @ B) @ r # rest" "length (A @ B) = idx" using Cons.prems(2,7) by simp_all
    obtain f' where f: "f = Suc (Suc f')" using Cons.prems(9) fuel by (cases f; cases "f - 1") auto
    obtain t1 where t1: "memblock_insert_region
        (t\<lparr>t_regions := (t_regions t)[idx := r\<lparr>r_base := e, r_size := r_size r - (e - r_base r)\<rparr>],
           t_total_size := t_total_size t - (e - r_base r)\<rparr>)
        idx (r_base r) (e - r_base r) (r_flags r) = Some t1" "wf_array t1"
      "live t1 = (A @ B) @ ?r1 # ?r2 # rest" "same_total t t1"
      using cut_step [OF Cons.prems(1) AB(1) Cons.prems(10), of e, unfolded AB(2)] .
    note r1 = sub_region_props [OF across(1), of r] and r2 = sub_region_props [OF across(2), of r]
    have idx1: "idx + 1 < t_cnt t1" "t_regions t1 ! idx = ?r1" "t_regions t1 ! (idx + 1) = ?r2" "t_cnt t1 = t_cnt t + 1"
      using length_live [OF t1(2)] length_live [OF Cons.prems(1)] nth_live [OF t1(2), of idx] nth_live [OF t1(2), of "idx + 1"]
        t1(3) AB by (auto simp: nth_append)
    have "isolated b e A (B @ [?r1]) (?r2 # rest)"
      using Cons.prems(4,5) across w(2) re r1(2,3) r2(2,3) unfolding isolated_def
      by (auto simp: word_less_nat_alt intro: order_trans)
    moreover have "rgn_indices A (B @ [?r1]) = (if d = 0 then idx else s, idx + 1)"
      using Cons.prems(7,8) by (auto simp: rgn_indices_def split: if_splits)
    moreover note cut = cut_region [OF Cons.prems(3) [unfolded AB(1)] across, folded t1(3) AB(1)]
    ultimately have "isolate_spec b e t1 0 (t1, if d = 0 then idx else s, idx + 1)"
      using t1(2,3) by (intro isolate_specI [of _ A "B @ [?r1]"]) simp_all
    then have "isolate_spec b e t (1 + 0) (t1, if d = 0 then idx else s, idx + 1)"
      by (rule isolate_spec_weaken [OF _ cut(2) t1(4) eq_imp_le [OF idx1(4)]])
    moreover have c: "(e \<le> r_base r) = False" "(e < r_base r + r_size r) = True" using across by auto
    have j: "(idx < t_cnt t1) = True" "(idx + 1 < t_cnt t1) = True" "r_base r + r_size ?r1 = e"
      "(e \<le> b) = False" "(e < e) = False" "(e \<le> e) = True" "t_regions t1 ! idx = ?r1" "t_regions t1 ! (idx + 1) = ?r2"
      using idx1 r1(6,7) Cons.prems(6) by auto
    moreover have "isolate_loop f b e t1 idx s d = Some (t1, if d = 0 then idx else s, idx + 1)"
      by (simp only: f isolate_loop.simps Let_def j r1(6) r2(6) lo(2) c(1) if_True if_False)
    ultimately show ?thesis
      by (simp only: fuel isolate_loop.simps Let_def idx lo c t1(1) option.case if_True if_False add_0_right) blast
  qed
qed

lemma isolate_before:
  assumes "wf_array t" "live t = A @ rest" "wf_regions (live t)" "\<forall>r\<in>set A. re r \<le> unat b" "b < e"
    and "idx = length A" "length rest + 4 \<le> fuel" "t_cnt t + 1 < t_max t"
  shows "\<exists>res. isolate_loop fuel b e t idx 0 0 = Some res \<and> isolate_spec b e t 2 res"
  using assms
proof (induction rest arbitrary: t A idx fuel)
  case Nil
  then obtain f where "fuel = Suc f" by (cases fuel) auto
  then show ?case
    using length_live [OF Nil(1)] Nil.prems isolate_specI [of t A "[]" "[]" b e 0 0 2]
    by (simp add: isolated_def rgn_indices_def)
next
  case (Cons r rest)
  obtain f where fuel: "fuel = Suc f" using Cons.prems(7) by (cases fuel) auto
  have idx: "idx < t_cnt t" "t_regions t ! idx = r"
    using length_live [OF Cons.prems(1)] nth_live [OF Cons.prems(1), of idx] Cons.prems(2,6) by (auto simp: nth_append)
  have w: "wf_region r" "\<forall>s\<in>set rest. re r \<le> rb s"
    using Cons.prems(3) unfolding Cons.prems(2) wf_regions_append wf_regions_Cons by auto
  note re = wf_region_end [OF w(1)]
  consider (below) "r_base r + r_size r \<le> b" | (above) "b \<le> r_base r"
    | (across) "r_base r < b" "b < r_base r + r_size r" by fastforce
  then show ?case
  proof cases
    case below
    have "\<exists>res. isolate_loop f b e t (idx + 1) 0 0 = Some res \<and> isolate_spec b e t 2 res"
      using Cons.prems below re fuel by (intro Cons.IH [of t "A @ [r]"]) (auto simp: word_le_nat_alt)
    moreover have "(e \<le> r_base r) = False" "(r_base r + r_size r \<le> b) = True"
      using below Cons.prems(5) wf_region_less [OF w(1)] re by (auto simp: word_le_nat_alt word_less_nat_alt)
    ultimately show ?thesis by (simp only: fuel isolate_loop.simps Let_def idx if_True if_False)
  next
    case above
    have "\<forall>s\<in>set (r # rest). unat b \<le> rb s"
      using above w(2) wf_region_less [OF w(1)] by (force simp: word_le_nat_alt)
    then obtain res where "isolate_loop fuel b e t idx 0 0 = Some res" "isolate_spec b e t 1 res"
      using isolate_inside [of t A "[]" "r # rest" b e idx 0 0 fuel] Cons.prems
      by (auto simp: isolated_def rgn_indices_def)
    then show ?thesis using isolate_spec_weaken [of b e t 1 res t 1] by (auto simp: numeral_2_eq_2)
  next
    case across
    let ?r1 = "sub_region r (r_base r) b" and ?r2 = "sub_region r b (r_base r + r_size r)"
    obtain t1 where t1: "memblock_insert_region
        (t\<lparr>t_regions := (t_regions t)[idx := r\<lparr>r_base := b, r_size := r_size r - (b - r_base r)\<rparr>],
           t_total_size := t_total_size t - (b - r_base r)\<rparr>)
        idx (r_base r) (b - r_base r) (r_flags r) = Some t1" "wf_array t1"
      "live t1 = A @ ?r1 # ?r2 # rest" "same_total t t1"
      using cut_step [OF Cons.prems(1,2) _, of b] Cons.prems(6,8) by auto
    note r1 = sub_region_props [OF across(1), of r] and r2 = sub_region_props [OF across(2), of r]
    note cut = cut_region [OF Cons.prems(3) [unfolded Cons.prems(2)] across, folded t1(3) Cons.prems(2)]
    have cnt: "t_cnt t1 = t_cnt t + 1" "t_max t1 = t_max t"
      using length_live [OF t1(2)] length_live [OF Cons.prems(1)] t1(3,4) Cons.prems(2) by (simp_all add: same_total_def)
    have "\<forall>s\<in>set (?r2 # rest). unat b \<le> rb s"
      using w(2) re r2(2) across(2) by (force simp: word_less_nat_alt)
    then have "\<exists>res. isolate_loop f b e t1 (idx + 1) 0 0 = Some res \<and> isolate_spec b e t1 1 res"
      using t1(2,3) cut(1) Cons.prems(4-8) r1(3) cnt fuel
      by (intro isolate_inside [of t1 "A @ [?r1]" "[]" "?r2 # rest"]) (auto simp: isolated_def rgn_indices_def)
    then obtain res where res: "isolate_loop f b e t1 (idx + 1) 0 0 = Some res" "isolate_spec b e t1 1 res" by blast
    have "isolate_spec b e t (1 + 1) res"
      by (rule isolate_spec_weaken [OF res(2) cut(2) t1(4) eq_imp_le [OF cnt(1)]])
    moreover have "(e \<le> r_base r) = False" "(r_base r + r_size r \<le> b) = False" "(r_base r < b) = True"
      using across Cons.prems(5) by auto
    ultimately show ?thesis
      by (simp only: fuel isolate_loop.simps Let_def idx t1(1) res(1) option.case if_True if_False one_add_one) blast
  qed
qed

lemma isolate_loop_correct:
  assumes "wf_array t" "wf_regions (live t)" "b < e" "t_cnt t + 2 \<le> t_max t"
  shows "\<exists>res. isolate_loop (t_cnt t + 4) b e t 0 0 0 = Some res \<and> isolate_spec b e t 2 res"
  using isolate_before [of t "[]" "live t" b e 0 "t_cnt t + 4"] assms length_live [OF assms(1)] by simp

end
