(* ===== verification/Memblock_Find.thy ===== *)
theory Memblock_Find
  imports Memblock_Range
begin

text \<open>
  The free ranges of the boot memory allocator and the search for a free area:
  \<^verbatim>\<open>__next_mem_range\<close>, \<^verbatim>\<open>__next_mem_range_rev\<close>, \<^verbatim>\<open>for_each_free_mem_range\<close> and
  \<^verbatim>\<open>memblock_find_in_range\<close> of \<^verbatim>\<open>mm/memblock.c\<close> and \<^verbatim>\<open>include/linux/memblock.h\<close>.

  The 64-bit cursor \<^verbatim>\<open>*idx\<close> packs the two array indices \<^verbatim>\<open>idx_a\<close> and \<^verbatim>\<open>idx_b\<close>; here it is
  the pair of the indices, and \<^verbatim>\<open>ULLONG_MAX\<close> (end of iteration) is \<open>None\<close>. The reverse
  iterator counts its indices down to \<open>-1\<close>; its pair holds each index plus one.

  The lemmas show that both iterators visit every intersection of a suitable memory
  region with a gap of the reserved regions exactly once and in address order, and that
  the search returns the highest aligned address at which the block is free.
\<close>

section \<open>State\<close>

text \<open>\<^verbatim>\<open>struct memblock\<close> together with the static variables of the file.\<close>

record memblock =
  bottom_up :: bool
  current_limit :: u32
  memory :: memblock_type
  reserved :: memblock_type
  system_has_some_mirror :: bool
  memblock_can_resize :: bool
  memblock_memory_in_slab :: bool
  memblock_reserved_in_slab :: bool

definition NUMA_NO_NODE :: int where "NUMA_NO_NODE = - 1"
definition MAX_NUMNODES :: int where "MAX_NUMNODES = 1"
definition MEMBLOCK_ALLOC_ACCESSIBLE :: u32 where "MEMBLOCK_ALLOC_ACCESSIBLE = 0"
definition MEMBLOCK_ALLOC_ANYWHERE :: u32 where "MEMBLOCK_ALLOC_ANYWHERE = - 1"
definition PAGE_SIZE :: u32 where "PAGE_SIZE = 4096"

text \<open>The initial value of the variable \<^verbatim>\<open>memblock\<close>: both arrays hold one empty entry.\<close>

definition init_type :: memblock_type where
  "init_type = \<lparr>t_cnt = 1, t_max = INIT_MEMBLOCK_REGIONS, t_total_size = 0,
     t_regions = replicate INIT_MEMBLOCK_REGIONS empty_region, t_loc = None\<rparr>"

definition init_memblock :: memblock where
  "init_memblock = \<lparr>bottom_up = False, current_limit = MEMBLOCK_ALLOC_ANYWHERE, memory = init_type,
     reserved = init_type, system_has_some_mirror = False, memblock_can_resize = False,
     memblock_memory_in_slab = False, memblock_reserved_in_slab = False\<rparr>"

definition choose_memblock_flags :: "memblock \<Rightarrow> u32" where
  "choose_memblock_flags st = (if system_has_some_mirror st then MEMBLOCK_MIRROR else MEMBLOCK_NONE)"

text \<open>The inline functions of the header for this configuration, without
  \<^verbatim>\<open>CONFIG_HAVE_MEMBLOCK_NODE_MAP\<close> and without \<^verbatim>\<open>CONFIG_MOVABLE_NODE\<close>.\<close>

definition memblock_get_region_node :: "memblock_region \<Rightarrow> int" where
  "memblock_get_region_node r = 0"

definition memblock_is_hotpluggable :: "memblock_region \<Rightarrow> bool" where
  "memblock_is_hotpluggable m \<longleftrightarrow> False"

definition movable_node_is_enabled :: bool where
  "movable_node_is_enabled \<longleftrightarrow> False"

definition memblock_bottom_up :: "memblock \<Rightarrow> bool" where
  "memblock_bottom_up st \<longleftrightarrow> False"

section \<open>The iterators\<close>

text \<open>The four tests of the loops that skip a memory region.\<close>

definition skip_region :: "int \<Rightarrow> u32 \<Rightarrow> memblock_region \<Rightarrow> bool" where
  "skip_region nid flags m \<longleftrightarrow>
     nid \<noteq> NUMA_NO_NODE \<and> nid \<noteq> memblock_get_region_node m \<or>
     movable_node_is_enabled \<and> memblock_is_hotpluggable m \<or>
     flags AND MEMBLOCK_MIRROR \<noteq> 0 \<and> \<not> memblock_is_mirror m \<or>
     flags AND MEMBLOCK_NOMAP = 0 \<and> memblock_is_nomap m"

text \<open>\<^verbatim>\<open>r_start\<close> and \<^verbatim>\<open>r_end\<close>: the gap before region \<open>j\<close> of \<^verbatim>\<open>type_b\<close>, the last gap being after
  all regions.\<close>

definition gap_start :: "memblock_type \<Rightarrow> nat \<Rightarrow> u32" where
  "gap_start t j = (if j \<noteq> 0 then r_base (t_regions t ! (j - 1)) + r_size (t_regions t ! (j - 1)) else 0)"

definition gap_end :: "memblock_type \<Rightarrow> nat \<Rightarrow> u32" where
  "gap_end t j = (if j < t_cnt t then r_base (t_regions t ! j) else - 1)"

type_synonym mem_range = "u32 \<times> u32 \<times> int"

function next_b_loop ::
  "memblock_region \<Rightarrow> memblock_type \<Rightarrow> nat \<Rightarrow> nat \<Rightarrow> nat + mem_range \<times> nat \<times> nat" where
  "next_b_loop m type_b idx_a idx_b =
     (if idx_b < t_cnt type_b + 1
      then let m_start = r_base m; m_end = r_base m + r_size m;
               r_start = gap_start type_b idx_b; r_end = gap_end type_b idx_b
           in if r_start \<ge> m_end then Inl idx_b
              else if m_start < r_end
              then Inr ((max m_start r_start, min m_end r_end, memblock_get_region_node m),
                        if m_end \<le> r_end then (idx_a + 1, idx_b) else (idx_a, idx_b + 1))
              else next_b_loop m type_b idx_a (idx_b + 1)
      else Inl idx_b)"
  by pat_completeness auto
termination by (relation "measure (\<lambda>(m, type_b, idx_a, idx_b). t_cnt type_b + 1 - idx_b)") auto

function next_a_loop ::
  "int \<Rightarrow> u32 \<Rightarrow> memblock_type \<Rightarrow> memblock_type option \<Rightarrow> nat \<Rightarrow> nat \<Rightarrow> (mem_range \<times> nat \<times> nat) option" where
  "next_a_loop nid flags type_a type_b idx_a idx_b =
     (if idx_a < t_cnt type_a
      then let m = t_regions type_a ! idx_a
           in if skip_region nid flags m then next_a_loop nid flags type_a type_b (idx_a + 1) idx_b
              else case type_b of
                None \<Rightarrow> Some ((r_base m, r_base m + r_size m, memblock_get_region_node m), idx_a + 1, idx_b)
              | Some tb \<Rightarrow> (case next_b_loop m tb idx_a idx_b of
                  Inl idx_b \<Rightarrow> next_a_loop nid flags type_a type_b (idx_a + 1) idx_b
                | Inr res \<Rightarrow> Some res)
      else None)"
  by pat_completeness auto
termination by (relation "measure (\<lambda>(nid, flags, type_a, type_b, idx_a, idx_b). t_cnt type_a - idx_a)") auto

declare next_b_loop.simps [simp del] next_a_loop.simps [simp del]

definition next_mem_range ::
  "nat \<times> nat \<Rightarrow> int \<Rightarrow> u32 \<Rightarrow> memblock_type \<Rightarrow> memblock_type option \<Rightarrow> (mem_range \<times> nat \<times> nat) option" where
  "next_mem_range idx nid flags type_a type_b =
     next_a_loop (if nid = MAX_NUMNODES then NUMA_NO_NODE else nid) flags type_a type_b (fst idx) (snd idx)"

fun rev_b_loop :: "memblock_region \<Rightarrow> memblock_type \<Rightarrow> nat \<Rightarrow> nat \<Rightarrow> nat + mem_range \<times> nat \<times> nat" where
  "rev_b_loop m type_b idx_a 0 = Inl 0"
| "rev_b_loop m type_b idx_a (Suc idx_b) =
     (let m_start = r_base m; m_end = r_base m + r_size m;
          r_start = gap_start type_b idx_b; r_end = gap_end type_b idx_b
      in if r_end \<le> m_start then Inl (Suc idx_b)
         else if m_end > r_start
         then Inr ((max m_start r_start, min m_end r_end, memblock_get_region_node m),
                   if m_start \<ge> r_start then (idx_a, Suc idx_b) else (Suc idx_a, idx_b))
         else rev_b_loop m type_b idx_a idx_b)"

fun rev_a_loop ::
  "int \<Rightarrow> u32 \<Rightarrow> memblock_type \<Rightarrow> memblock_type option \<Rightarrow> nat \<Rightarrow> nat \<Rightarrow> (mem_range \<times> nat \<times> nat) option" where
  "rev_a_loop nid flags type_a type_b 0 b = None"
| "rev_a_loop nid flags type_a type_b (Suc idx_a) b =
     (let m = t_regions type_a ! idx_a
      in if skip_region nid flags m then rev_a_loop nid flags type_a type_b idx_a b
         else case type_b of
           None \<Rightarrow> Some ((r_base m, r_base m + r_size m, memblock_get_region_node m), idx_a, b)
         | Some tb \<Rightarrow> (case rev_b_loop m tb idx_a b of
             Inl b \<Rightarrow> rev_a_loop nid flags type_a type_b idx_a b
           | Inr res \<Rightarrow> Some res))"

definition next_mem_range_rev ::
  "(nat \<times> nat) option \<Rightarrow> int \<Rightarrow> u32 \<Rightarrow> memblock_type \<Rightarrow> memblock_type option \<Rightarrow> (mem_range \<times> nat \<times> nat) option" where
  "next_mem_range_rev idx nid flags type_a type_b =
     (let nid = if nid = MAX_NUMNODES then NUMA_NO_NODE else nid;
          (a, b) = case idx of
            Some ab \<Rightarrow> ab
          | None \<Rightarrow> (t_cnt type_a, case type_b of Some tb \<Rightarrow> t_cnt tb + 1 | None \<Rightarrow> 1)
      in rev_a_loop nid flags type_a type_b a b)"

section \<open>The loops over the ranges\<close>

text \<open>Every step moves the cursor, so that the loops of the \<^verbatim>\<open>for_each\<close> macros end.\<close>

lemma next_b_loop_cursor:
  "case next_b_loop m tb a b of Inl b' \<Rightarrow> b \<le> b'
   | Inr (x, a', b') \<Rightarrow> a + b < a' + b' \<and> a' \<le> a + 1 \<and> b' \<le> t_cnt tb + 1"
proof (induction "t_cnt tb + 1 - b" arbitrary: b rule: less_induct)
  case less
  then show ?case using less [of "b + 1"]
    by (subst next_b_loop.simps) (force simp: Let_def split: sum.splits)
qed

lemma next_a_loop_cursor:
  "case next_a_loop nid flags ta (Some tb) a b of None \<Rightarrow> True
   | Some (x, a', b') \<Rightarrow> a + b < a' + b' \<and> a' \<le> t_cnt ta \<and> b' \<le> t_cnt tb + 1"
proof (induction "t_cnt ta - a" arbitrary: a b rule: less_induct)
  case less
  then show ?case using less [of "a + 1"] next_b_loop_cursor [where m = "t_regions ta ! a" and tb = tb and a = a and b = b]
    by (subst next_a_loop.simps) (force simp: Let_def split: sum.splits option.splits)
qed

lemma next_mem_range_cursor:
  "next_mem_range (a, b) nid flags ta (Some tb) = Some (x, a', b') \<Longrightarrow>
   a + b < a' + b' \<and> a' \<le> t_cnt ta \<and> b' \<le> t_cnt tb + 1"
  using next_a_loop_cursor [where nid = "if nid = MAX_NUMNODES then NUMA_NO_NODE else nid"
      and flags = flags and ta = ta and tb = tb and a = a and b = b]
  by (simp add: next_mem_range_def)

function mem_ranges :: "int \<Rightarrow> u32 \<Rightarrow> memblock_type \<Rightarrow> memblock_type \<Rightarrow> nat \<times> nat \<Rightarrow> mem_range list" where
  "mem_ranges nid flags type_a type_b i =
     (case next_mem_range i nid flags type_a (Some type_b) of
        None \<Rightarrow> []
      | Some (x, i') \<Rightarrow> x # mem_ranges nid flags type_a type_b i')"
  by pat_completeness auto
termination
  by (relation "measure (\<lambda>(nid, flags, ta, tb, a, b). t_cnt ta + t_cnt tb + 1 - (a + b))")
    (auto dest!: next_mem_range_cursor)

lemma rev_b_loop_cursor:
  "case rev_b_loop m tb a b of Inl b' \<Rightarrow> b' \<le> b | Inr (x, a', b') \<Rightarrow> a' + b' < Suc a + b"
  by (induction b) (auto simp: Let_def split: sum.splits)

lemma rev_a_loop_cursor:
  "case rev_a_loop nid flags ta (Some tb) a b of None \<Rightarrow> True | Some (x, a', b') \<Rightarrow> a' + b' < a + b"
proof (induction a arbitrary: b)
  case (Suc a)
  show ?case using Suc rev_b_loop_cursor [where m = "t_regions ta ! a" and tb = tb and a = a and b = b]
    by (force simp: Let_def split: sum.splits option.splits)
qed simp

lemma next_mem_range_rev_cursor:
  "next_mem_range_rev (Some (a, b)) nid flags ta (Some tb) = Some (x, a', b') \<Longrightarrow> a' + b' < a + b"
  using rev_a_loop_cursor [where nid = "if nid = MAX_NUMNODES then NUMA_NO_NODE else nid"
      and flags = flags and ta = ta and tb = tb and a = a and b = b]
  by (simp add: next_mem_range_rev_def Let_def)

lemma next_mem_range_rev_None:
  "next_mem_range_rev None nid flags ta (Some tb) =
   next_mem_range_rev (Some (t_cnt ta, t_cnt tb + 1)) nid flags ta (Some tb)"
  by (simp add: next_mem_range_rev_def)

function mem_ranges_rev ::
  "int \<Rightarrow> u32 \<Rightarrow> memblock_type \<Rightarrow> memblock_type \<Rightarrow> (nat \<times> nat) option \<Rightarrow> mem_range list" where
  "mem_ranges_rev nid flags type_a type_b i =
     (case next_mem_range_rev i nid flags type_a (Some type_b) of
        None \<Rightarrow> []
      | Some (x, i') \<Rightarrow> x # mem_ranges_rev nid flags type_a type_b (Some i'))"
  by pat_completeness auto
termination
  by (relation "measure (\<lambda>(nid, flags, ta, tb, i). case i of None \<Rightarrow> t_cnt ta + t_cnt tb + 2 | Some (a, b) \<Rightarrow> a + b)")
    (auto simp: next_mem_range_rev_None dest!: next_mem_range_rev_cursor split: option.splits)

declare mem_ranges.simps [simp del] mem_ranges_rev.simps [simp del]

text \<open>The ranges that \<^verbatim>\<open>for_each_free_mem_range\<close> and its reverse visit.\<close>

definition for_each_free_mem_range :: "memblock \<Rightarrow> int \<Rightarrow> u32 \<Rightarrow> mem_range list" where
  "for_each_free_mem_range st nid flags = mem_ranges nid flags (memory st) (reserved st) (0, 0)"

definition for_each_free_mem_range_reverse :: "memblock \<Rightarrow> int \<Rightarrow> u32 \<Rightarrow> mem_range list" where
  "for_each_free_mem_range_reverse st nid flags = mem_ranges_rev nid flags (memory st) (reserved st) None"

section \<open>What the iterators visit\<close>

abbreviation m_start :: "memblock_type \<Rightarrow> nat \<Rightarrow> u32" where
  "m_start t i \<equiv> r_base (t_regions t ! i)"

abbreviation m_end :: "memblock_type \<Rightarrow> nat \<Rightarrow> u32" where
  "m_end t i \<equiv> r_base (t_regions t ! i) + r_size (t_regions t ! i)"

text \<open>\<open>hit nid flags ta tb i j\<close>: region \<open>i\<close> is not skipped and meets gap \<open>j\<close>.\<close>

definition hit :: "int \<Rightarrow> u32 \<Rightarrow> memblock_type \<Rightarrow> memblock_type \<Rightarrow> nat \<Rightarrow> nat \<Rightarrow> bool" where
  "hit nid flags ta tb i j \<longleftrightarrow> i < t_cnt ta \<and> j \<le> t_cnt tb \<and> \<not> skip_region nid flags (t_regions ta ! i) \<and>
     gap_start tb j < m_end ta i \<and> m_start ta i < gap_end tb j"

definition hit_range :: "memblock_type \<Rightarrow> memblock_type \<Rightarrow> nat \<times> nat \<Rightarrow> mem_range" where
  "hit_range ta tb ij = (max (m_start ta (fst ij)) (gap_start tb (snd ij)),
     min (m_end ta (fst ij)) (gap_end tb (snd ij)), memblock_get_region_node (t_regions ta ! fst ij))"

text \<open>The regions of \<open>ta\<close> and the gaps of \<open>tb\<close> are in address order.\<close>

definition in_order :: "memblock_type \<Rightarrow> memblock_type \<Rightarrow> bool" where
  "in_order ta tb \<longleftrightarrow>
     (\<forall>i < t_cnt ta. m_start ta i \<le> m_end ta i \<and> (\<forall>k. i < k \<and> k < t_cnt ta \<longrightarrow> m_end ta i \<le> m_start ta k)) \<and>
     (\<forall>j \<le> t_cnt tb. gap_start tb j \<le> gap_end tb j \<and> (\<forall>k. j < k \<and> k \<le> t_cnt tb \<longrightarrow> gap_end tb j \<le> gap_start tb k))"

lemma in_orderD:
  assumes "in_order ta tb"
  shows "i < k \<Longrightarrow> k < t_cnt ta \<Longrightarrow> m_end ta i \<le> m_start ta k"
    "i < k \<Longrightarrow> k < t_cnt ta \<Longrightarrow> m_start ta i \<le> m_start ta k"
    "i < k \<Longrightarrow> k < t_cnt ta \<Longrightarrow> m_end ta i \<le> m_end ta k"
    "j < l \<Longrightarrow> l \<le> t_cnt tb \<Longrightarrow> gap_end tb j \<le> gap_start tb l"
    "j < l \<Longrightarrow> l \<le> t_cnt tb \<Longrightarrow> gap_start tb j \<le> gap_start tb l"
    "j < l \<Longrightarrow> l \<le> t_cnt tb \<Longrightarrow> gap_end tb j \<le> gap_end tb l"
proof -
  note o = assms [unfolded in_order_def]
  have m0: "m_end ta i \<le> m_start ta k" if "i < k" "k < t_cnt ta" for i k
    using conjunct1 [OF o] that less_trans [OF that] by simp
  have m': "m_start ta i \<le> m_end ta i" if "i < t_cnt ta" for i
    using conjunct1 [OF o] that by simp
  show m: "m_end ta i \<le> m_start ta k" if "i < k" "k < t_cnt ta" using m0 [OF that] .
  show "m_start ta i \<le> m_start ta k" if "i < k" "k < t_cnt ta"
    using order_trans [OF m' m [OF that]] that by simp
  show "m_end ta i \<le> m_end ta k" if "i < k" "k < t_cnt ta"
    using order_trans [OF m [OF that] m'] that by simp
  show g: "gap_end tb j \<le> gap_start tb l" if "j < l" "l \<le> t_cnt tb"
    using conjunct2 [OF o] that less_le_trans [OF that] by simp
  have g': "gap_start tb j \<le> gap_end tb j" if "j \<le> t_cnt tb" for j
    using conjunct2 [OF o] that by simp
  show "gap_start tb j \<le> gap_start tb l" if "j < l" "l \<le> t_cnt tb"
    using order_trans [OF g' g [OF that]] that by simp
  show "gap_end tb j \<le> gap_end tb l" if "j < l" "l \<le> t_cnt tb"
    using order_trans [OF g [OF that] g'] that by simp
qed

text \<open>What is left to visit from a cursor, in both directions.\<close>

definition rem :: "int \<Rightarrow> u32 \<Rightarrow> memblock_type \<Rightarrow> memblock_type \<Rightarrow> nat \<Rightarrow> nat \<Rightarrow> (nat \<times> nat) set" where
  "rem nid flags ta tb a b = {(i, j). hit nid flags ta tb i j \<and> a \<le> i \<and> b \<le> j}"

definition rem_rev :: "int \<Rightarrow> u32 \<Rightarrow> memblock_type \<Rightarrow> memblock_type \<Rightarrow> nat \<Rightarrow> nat \<Rightarrow> (nat \<times> nat) set" where
  "rem_rev nid flags ta tb a b = {(i, j). hit nid flags ta tb i j \<and> i < a \<and> j < b}"

lemma rem_steps:
  fixes nid flags
  assumes "in_order ta tb" "a < t_cnt ta"
  defines "R \<equiv> rem nid flags ta tb"
  shows "skip_region nid flags (t_regions ta ! a) \<Longrightarrow> R a b = R (a + 1) b"
    "t_cnt tb < b \<Longrightarrow> R a b = R (a + 1) b"
    "b \<le> t_cnt tb \<Longrightarrow> m_end ta a \<le> gap_start tb b \<Longrightarrow> R a b = R (a + 1) b"
    "b \<le> t_cnt tb \<Longrightarrow> gap_end tb b \<le> m_start ta a \<Longrightarrow> R a b = R a (b + 1)"
    "hit nid flags ta tb a b \<Longrightarrow> m_end ta a \<le> gap_end tb b \<Longrightarrow> R a b = insert (a, b) (R (a + 1) b)"
    "hit nid flags ta tb a b \<Longrightarrow> gap_end tb b < m_end ta a \<Longrightarrow> R a b = insert (a, b) (R a (b + 1))"
proof -
  note o = in_orderD [OF assms(1)]
  have row: "i = a \<or> a + 1 \<le> i" if "a \<le> i" for i using that by linarith
  have col: "j = b \<or> b + 1 \<le> j" if "b \<le> j" for j using that by linarith
  show "skip_region nid flags (t_regions ta ! a) \<Longrightarrow> R a b = R (a + 1) b"
    using row unfolding R_def rem_def hit_def by fastforce
  show "t_cnt tb < b \<Longrightarrow> R a b = R (a + 1) b"
    unfolding R_def rem_def hit_def by auto
  show "R a b = R (a + 1) b" if "b \<le> t_cnt tb" "m_end ta a \<le> gap_start tb b"
  proof -
    have "\<not> hit nid flags ta tb a j" if "b \<le> j" for j
      using o(5) [of b j] that \<open>m_end ta a \<le> gap_start tb b\<close> unfolding hit_def by (cases "j = b") (auto simp: not_less)
    then show ?thesis using row unfolding R_def rem_def by fastforce
  qed
  show "R a b = R a (b + 1)" if "b \<le> t_cnt tb" "gap_end tb b \<le> m_start ta a"
  proof -
    have "\<not> hit nid flags ta tb i b" if "a \<le> i" for i
      using o(2) [of a i] that \<open>gap_end tb b \<le> m_start ta a\<close> unfolding hit_def by (cases "i = a") (auto simp: not_less)
    then show ?thesis using col unfolding R_def rem_def by fastforce
  qed
  show "R a b = insert (a, b) (R (a + 1) b)" if "hit nid flags ta tb a b" "m_end ta a \<le> gap_end tb b"
  proof -
    have "\<not> hit nid flags ta tb a j" if "b < j" for j
      using o(4) [of b j] that \<open>m_end ta a \<le> gap_end tb b\<close> unfolding hit_def by (auto simp: not_less)
    then show ?thesis using row that unfolding R_def rem_def by (auto simp: le_less)
  qed
  show "R a b = insert (a, b) (R a (b + 1))" if "hit nid flags ta tb a b" "gap_end tb b < m_end ta a"
  proof -
    have "\<not> hit nid flags ta tb i b" if "a < i" for i
      using o(1) [of a i] that \<open>gap_end tb b < m_end ta a\<close> unfolding hit_def by (auto simp: not_less)
    then show ?thesis using col that unfolding R_def rem_def by (auto simp: le_less)
  qed
qed

lemma rem_rev_steps:
  fixes nid flags
  assumes "in_order ta tb" "a < t_cnt ta" "b \<le> t_cnt tb"
  defines "R \<equiv> rem_rev nid flags ta tb"
  shows "skip_region nid flags (t_regions ta ! a) \<Longrightarrow> R (Suc a) B = R a B"
    "gap_end tb b \<le> m_start ta a \<Longrightarrow> R (Suc a) (Suc b) = R a (Suc b)"
    "m_end ta a \<le> gap_start tb b \<Longrightarrow> R (Suc a) (Suc b) = R (Suc a) b"
    "hit nid flags ta tb a b \<Longrightarrow> gap_start tb b \<le> m_start ta a \<Longrightarrow> R (Suc a) (Suc b) = insert (a, b) (R a (Suc b))"
    "hit nid flags ta tb a b \<Longrightarrow> m_start ta a < gap_start tb b \<Longrightarrow> R (Suc a) (Suc b) = insert (a, b) (R (Suc a) b)"
proof -
  note o = in_orderD [OF assms(1)]
  show "skip_region nid flags (t_regions ta ! a) \<Longrightarrow> R (Suc a) B = R a B"
    unfolding R_def rem_rev_def hit_def by (auto simp: less_Suc_eq)
  show "R (Suc a) (Suc b) = R a (Suc b)" if "gap_end tb b \<le> m_start ta a"
  proof -
    have "\<not> hit nid flags ta tb a j" if "j < Suc b" for j
      using o(6) [of j b] that \<open>gap_end tb b \<le> m_start ta a\<close> assms(3) unfolding hit_def
      by (cases "j = b") (auto simp: not_less)
    then show ?thesis unfolding R_def rem_rev_def by (auto simp: less_Suc_eq)
  qed
  show "R (Suc a) (Suc b) = R (Suc a) b" if "m_end ta a \<le> gap_start tb b"
  proof -
    have "\<not> hit nid flags ta tb i b" if "i < Suc a" for i
      using o(3) [of i a] that \<open>m_end ta a \<le> gap_start tb b\<close> assms(2) unfolding hit_def
      by (cases "i = a") (auto simp: not_less)
    then show ?thesis unfolding R_def rem_rev_def by (auto simp: less_Suc_eq)
  qed
  show "R (Suc a) (Suc b) = insert (a, b) (R a (Suc b))"
    if "hit nid flags ta tb a b" "gap_start tb b \<le> m_start ta a"
  proof -
    have "\<not> hit nid flags ta tb a j" if "j < b" for j
      using o(4) [of j b] that \<open>gap_start tb b \<le> m_start ta a\<close> assms(3) unfolding hit_def by (auto simp: not_less)
    then show ?thesis using that unfolding R_def rem_rev_def by (auto simp: less_Suc_eq)
  qed
  show "R (Suc a) (Suc b) = insert (a, b) (R (Suc a) b)"
    if "hit nid flags ta tb a b" "m_start ta a < gap_start tb b"
  proof -
    have "\<not> hit nid flags ta tb i b" if "i < a" for i
      using o(1) [of i a] that \<open>m_start ta a < gap_start tb b\<close> assms(2) unfolding hit_def by (auto simp: not_less)
    then show ?thesis using that unfolding R_def rem_rev_def by (auto simp: less_Suc_eq)
  qed
qed

text \<open>One step visits one hit, and the hits left are those beyond the new cursor.\<close>

definition visits :: "memblock_type \<Rightarrow> memblock_type \<Rightarrow> (nat \<Rightarrow> nat \<Rightarrow> (nat \<times> nat) set) \<Rightarrow> (nat \<times> nat) set \<Rightarrow>
    (nat \<Rightarrow> nat \<Rightarrow> nat \<Rightarrow> nat \<Rightarrow> bool) \<Rightarrow> mem_range \<times> nat \<times> nat \<Rightarrow> bool" where
  "visits ta tb R S before res \<longleftrightarrow> (case res of (x, a', b') \<Rightarrow>
     \<exists>i j. x = hit_range ta tb (i, j) \<and> S = insert (i, j) (R a' b') \<and> before i j a' b')"

abbreviation fwd :: "nat \<Rightarrow> nat \<Rightarrow> nat \<Rightarrow> nat \<Rightarrow> bool" where
  "fwd i j a' b' \<equiv> i \<le> a' \<and> j \<le> b' \<and> (i < a' \<or> j < b')"

abbreviation bwd :: "nat \<Rightarrow> nat \<Rightarrow> nat \<Rightarrow> nat \<Rightarrow> bool" where
  "bwd i j a' b' \<equiv> a' \<le> Suc i \<and> b' \<le> Suc j \<and> (a' \<le> i \<or> b' \<le> j)"

lemma visitsI:
  "x = hit_range ta tb (i, j) \<Longrightarrow> S = insert (i, j) (R a' b') \<Longrightarrow> before i j a' b' \<Longrightarrow>
   visits ta tb R S before (x, a', b')"
  by (auto simp: visits_def)

lemma next_b_loop_visits:
  fixes nid flags ta tb
  assumes "in_order ta tb" "a < t_cnt ta" "\<not> skip_region nid flags (t_regions ta ! a)"
  defines "R \<equiv> rem nid flags ta tb"
  shows "case next_b_loop (t_regions ta ! a) tb a b of Inl b' \<Rightarrow> R a b = R (a + 1) b'
    | Inr res \<Rightarrow> visits ta tb R (R a b) fwd res"
proof (induction "t_cnt tb + 1 - b" arbitrary: b rule: less_induct)
  case less
  note steps = rem_steps [OF assms(1,2), where nid = nid and flags = flags, folded R_def]
  consider (out) "t_cnt tb < b" | (break) "b \<le> t_cnt tb" "m_end ta a \<le> gap_start tb b"
    | (skip) "b \<le> t_cnt tb" "gap_start tb b < m_end ta a" "gap_end tb b \<le> m_start ta a"
    | (hit) "hit nid flags ta tb a b"
    unfolding hit_def using assms(2,3) by fastforce
  then show ?case
  proof cases
    case out
    then show ?thesis using steps(2) by (subst next_b_loop.simps) simp
  next
    case break
    then show ?thesis using steps(3) by (subst next_b_loop.simps) (simp add: Let_def)
  next
    case skip
    then have eq: "next_b_loop (t_regions ta ! a) tb a b = next_b_loop (t_regions ta ! a) tb a (b + 1)"
      by (subst next_b_loop.simps) (auto simp: Let_def)
    have "t_cnt tb + 1 - (b + 1) < t_cnt tb + 1 - b" using skip(1) by simp
    from less [OF this] show ?thesis unfolding eq steps(4) [OF skip(1,3)] .
  next
    case hit
    then have "next_b_loop (t_regions ta ! a) tb a b = Inr (hit_range ta tb (a, b),
        if m_end ta a \<le> gap_end tb b then (a + 1, b) else (a, b + 1))"
      by (subst next_b_loop.simps) (simp add: hit_def Let_def hit_range_def not_le)
    then show ?thesis using steps(5,6) [OF hit]
      by (cases "m_end ta a \<le> gap_end tb b") (auto simp: not_le intro!: visitsI [of _ _ _ a b])
  qed
qed

lemma next_a_loop_visits:
  fixes nid flags ta tb
  assumes "in_order ta tb"
  defines "R \<equiv> rem nid flags ta tb"
  shows "case next_a_loop nid flags ta (Some tb) a b of None \<Rightarrow> R a b = {}
    | Some res \<Rightarrow> visits ta tb R (R a b) fwd res"
proof (induction "t_cnt ta - a" arbitrary: a b rule: less_induct)
  case less
  show ?case
  proof (cases "a < t_cnt ta")
    case False
    then show ?thesis by (subst next_a_loop.simps) (auto simp: R_def rem_def hit_def)
  next
    case True
    show ?thesis
    proof (cases "skip_region nid flags (t_regions ta ! a)")
      case skip: True
      have "R a b = R (Suc a) b" using rem_steps(1) [OF assms(1) True skip, of b, folded R_def] by simp
      then show ?thesis using skip less [of "Suc a" b] True
        by (subst next_a_loop.simps) (auto split: option.splits)
    next
      case False
      note b = next_b_loop_visits [OF assms(1) True False, of b, folded R_def]
      have eq: "next_a_loop nid flags ta (Some tb) a b = (case next_b_loop (t_regions ta ! a) tb a b of
          Inl b' \<Rightarrow> next_a_loop nid flags ta (Some tb) (a + 1) b' | Inr res \<Rightarrow> Some res)"
        using True False by (subst next_a_loop.simps) simp
      show ?thesis
      proof (cases "next_b_loop (t_regions ta ! a) tb a b")
        case (Inl b')
        have r: "R a b = R (a + 1) b'" using b Inl by simp
        show ?thesis unfolding eq r Inl sum.case by (rule less) (use True in simp)
      qed (use b eq in simp)
    qed
  qed
qed

lemma rev_b_loop_visits:
  fixes nid flags ta tb
  assumes "in_order ta tb" "a < t_cnt ta" "\<not> skip_region nid flags (t_regions ta ! a)" "b \<le> t_cnt tb + 1"
  defines "R \<equiv> rem_rev nid flags ta tb"
  shows "case rev_b_loop (t_regions ta ! a) tb a b of Inl b' \<Rightarrow> R (Suc a) b = R a b' \<and> b' \<le> b
    | Inr res \<Rightarrow> visits ta tb R (R (Suc a) b) bwd res"
  using assms(4)
proof (induction b)
  case 0
  show ?case by (simp add: R_def rem_rev_def)
next
  case (Suc b)
  then have b: "b \<le> t_cnt tb" by simp
  note steps = rem_rev_steps [OF assms(1,2) b, where nid = nid and flags = flags, folded R_def]
  consider (break) "gap_end tb b \<le> m_start ta a"
    | (skip) "m_start ta a < gap_end tb b" "m_end ta a \<le> gap_start tb b"
    | (hit) "hit nid flags ta tb a b"
    unfolding hit_def using assms(2,3) b by fastforce
  then show ?case
  proof cases
    case break
    then show ?thesis using steps(2) by (simp add: Let_def)
  next
    case skip
    then have "rev_b_loop (t_regions ta ! a) tb a (Suc b) = rev_b_loop (t_regions ta ! a) tb a b"
      by (auto simp: Let_def)
    then show ?thesis using steps(3) [OF skip(2)] Suc b by (auto split: sum.splits)
  next
    case hit
    then have "rev_b_loop (t_regions ta ! a) tb a (Suc b) = Inr (hit_range ta tb (a, b),
        if gap_start tb b \<le> m_start ta a then (a, Suc b) else (Suc a, b))"
      by (simp add: hit_def Let_def hit_range_def not_le)
    then show ?thesis using steps(4,5) [OF hit]
      by (cases "gap_start tb b \<le> m_start ta a") (auto simp: not_le simp del: rev_b_loop.simps intro!: visitsI [of _ _ _ a b])
  qed
qed

lemma rev_a_loop_visits:
  fixes nid flags ta tb
  assumes "in_order ta tb" "a \<le> t_cnt ta" "b \<le> t_cnt tb + 1"
  defines "R \<equiv> rem_rev nid flags ta tb"
  shows "case rev_a_loop nid flags ta (Some tb) a b of None \<Rightarrow> R a b = {}
    | Some res \<Rightarrow> visits ta tb R (R a b) bwd res"
  using assms(2,3)
proof (induction a arbitrary: b)
  case 0
  show ?case by (simp add: R_def rem_rev_def)
next
  case (Suc a)
  then have a: "a < t_cnt ta" by simp
  show ?case
  proof (cases "skip_region nid flags (t_regions ta ! a)")
    case True
    have "R (Suc a) b = R a b" using rem_rev_steps(1) [OF assms(1) a _ True, of 0 b, folded R_def] by simp
    then show ?thesis using True Suc.IH [OF _ Suc.prems(2)] a by (auto split: option.splits)
  next
    case False
    note b = rev_b_loop_visits [OF assms(1) a False Suc.prems(2), folded R_def]
    show ?thesis
    proof (cases "rev_b_loop (t_regions ta ! a) tb a b")
      case (Inl b')
      have r: "R (Suc a) b = R a b'" "b' \<le> t_cnt tb + 1" using b Inl Suc.prems(2) by simp_all
      have "rev_a_loop nid flags ta (Some tb) (Suc a) b = rev_a_loop nid flags ta (Some tb) a b'"
        using Inl False by simp
      then show ?thesis unfolding r using Suc.IH [OF _ r(2)] a by simp
    qed (use b False in simp)
  qed
qed

definition node_sel :: "int \<Rightarrow> int" where
  "node_sel nid = (if nid = MAX_NUMNODES then NUMA_NO_NODE else nid)"

text \<open>Both loops visit the hits in address order.\<close>

lemma mem_ranges_hits:
  assumes "in_order ta tb"
  shows "\<exists>ijs. mem_ranges nid flags ta tb (a, b) = map (hit_range ta tb) ijs \<and>
    set ijs = rem (node_sel nid) flags ta tb a b \<and>
    sorted_wrt (\<lambda>(i, j) (k, l). i \<le> k \<and> j \<le> l \<and> (i < k \<or> j < l)) ijs"
proof (induction "t_cnt ta + t_cnt tb + 1 - (a + b)" arbitrary: a b rule: less_induct)
  case less
  note n = next_a_loop_visits [OF assms, of "node_sel nid" flags a b]
  have eq: "next_mem_range (a, b) nid flags ta (Some tb) = next_a_loop (node_sel nid) flags ta (Some tb) a b"
    by (simp add: next_mem_range_def node_sel_def)
  show ?case
  proof (cases "next_a_loop (node_sel nid) flags ta (Some tb) a b")
    case None
    then show ?thesis using n eq by (subst mem_ranges.simps) simp
  next
    case (Some res)
    obtain x a' b' where res: "res = (x, a', b')" by (cases res)
    obtain i j where v: "x = hit_range ta tb (i, j)" "fwd i j a' b'"
        "rem (node_sel nid) flags ta tb a b = insert (i, j) (rem (node_sel nid) flags ta tb a' b')"
      using n Some res by (auto simp: visits_def)
    have "t_cnt ta + t_cnt tb + 1 - (a' + b') < t_cnt ta + t_cnt tb + 1 - (a + b)"
      using next_mem_range_cursor [OF eq [unfolded Some res]] by linarith
    from less [OF this] obtain ijs where ijs: "mem_ranges nid flags ta tb (a', b') = map (hit_range ta tb) ijs"
        "set ijs = rem (node_sel nid) flags ta tb a' b'"
        "sorted_wrt (\<lambda>(i, j) (k, l). i \<le> k \<and> j \<le> l \<and> (i < k \<or> j < l)) ijs"
      by blast
    have "mem_ranges nid flags ta tb (a, b) = map (hit_range ta tb) ((i, j) # ijs)"
      using eq Some res v(1) ijs(1) by (subst mem_ranges.simps) simp
    moreover have "\<forall>(k, l)\<in>set ijs. i \<le> k \<and> j \<le> l \<and> (i < k \<or> j < l)"
      using v(2) unfolding ijs(2) rem_def by auto
    ultimately show ?thesis using v(3) ijs(2,3) by (intro exI [of _ "(i, j) # ijs"]) auto
  qed
qed

lemma mem_ranges_rev_hits:
  assumes "in_order ta tb" "a \<le> t_cnt ta" "b \<le> t_cnt tb + 1"
  shows "\<exists>ijs. mem_ranges_rev nid flags ta tb (Some (a, b)) = map (hit_range ta tb) ijs \<and>
    set ijs = rem_rev (node_sel nid) flags ta tb a b \<and>
    sorted_wrt (\<lambda>(i, j) (k, l). k \<le> i \<and> l \<le> j \<and> (k < i \<or> l < j)) ijs"
  using assms(2,3)
proof (induction "a + b" arbitrary: a b rule: less_induct)
  case less
  note n = rev_a_loop_visits [OF assms(1) less.prems, of "node_sel nid" flags]
  have eq: "next_mem_range_rev (Some (a, b)) nid flags ta (Some tb) = rev_a_loop (node_sel nid) flags ta (Some tb) a b"
    by (simp add: next_mem_range_rev_def node_sel_def)
  show ?case
  proof (cases "rev_a_loop (node_sel nid) flags ta (Some tb) a b")
    case None
    then show ?thesis using n eq by (subst mem_ranges_rev.simps) simp
  next
    case (Some res)
    obtain x a' b' where res: "res = (x, a', b')" by (cases res)
    obtain i j where v: "x = hit_range ta tb (i, j)" "bwd i j a' b'"
        "rem_rev (node_sel nid) flags ta tb a b = insert (i, j) (rem_rev (node_sel nid) flags ta tb a' b')"
      using n Some res by (auto simp: visits_def)
    have "i < a" "j < b" using v(3) by (auto simp: rem_rev_def)
    then have "a' \<le> t_cnt ta" "b' \<le> t_cnt tb + 1" "a' + b' < a + b" using v(2) less.prems by linarith+
    then obtain ijs where ijs: "mem_ranges_rev nid flags ta tb (Some (a', b')) = map (hit_range ta tb) ijs"
        "set ijs = rem_rev (node_sel nid) flags ta tb a' b'"
        "sorted_wrt (\<lambda>(i, j) (k, l). k \<le> i \<and> l \<le> j \<and> (k < i \<or> l < j)) ijs"
      using less(1) [of a' b'] by auto
    have "mem_ranges_rev nid flags ta tb (Some (a, b)) = map (hit_range ta tb) ((i, j) # ijs)"
      using eq Some res v(1) ijs(1) by (subst mem_ranges_rev.simps) simp
    moreover have "\<forall>(k, l)\<in>set ijs. k \<le> i \<and> l \<le> j \<and> (k < i \<or> l < j)"
      using v(2) unfolding ijs(2) rem_rev_def by auto
    ultimately show ?thesis using v(3) ijs(2,3) by (intro exI [of _ "(i, j) # ijs"]) auto
  qed
qed

lemma wf_type_nth:
  assumes "wf_type t" "i < t_cnt t"
  shows "t_regions t ! i \<in> set (live t)" "unat (m_end t i) = re (t_regions t ! i)"
    "i < k \<Longrightarrow> k < t_cnt t \<Longrightarrow> re (t_regions t ! i) \<le> rb (t_regions t ! k)"
proof -
  have a: "wf_array t" using assms(1) by (simp add: wf_type_def)
  have n: "t_regions t ! j = live t ! j" if "j < t_cnt t" for j using nth_live [OF a that] .
  show mem: "t_regions t ! i \<in> set (live t)" unfolding n [OF assms(2)] using assms(2) length_live [OF a] by simp
  show "unat (m_end t i) = re (t_regions t ! i)"
  proof (cases "live t = [empty_region]")
    case True
    then show ?thesis using mem by (simp add: empty_region_def)
  next
    case False
    then show ?thesis using assms(1) mem wf_region_end unfolding wf_type_def wf_regions_def by blast
  qed
  show "re (t_regions t ! i) \<le> rb (t_regions t ! k)" if "i < k" "k < t_cnt t"
  proof -
    have "live t \<noteq> [empty_region]" using that length_live [OF a] by (auto dest: arg_cong [of _ _ length])
    then have "wf_regions (live t)" using assms(1) by (simp add: wf_type_def)
    then show ?thesis using wf_regions_nth_less [of "live t" i k] n that length_live [OF a] assms(2) by simp
  qed
qed

lemma gap_start_less: "j < t_cnt t \<Longrightarrow> wf_type t \<Longrightarrow> gap_start t j \<le> r_base (t_regions t ! j)"
  using wf_type_nth(2,3) [of t "j - 1"] by (cases j) (auto simp: gap_start_def word_le_nat_alt)

lemma in_order_wf:
  assumes "wf_type ta" "wf_type tb"
  shows "in_order ta tb"
  unfolding in_order_def
proof (intro conjI allI impI)
  fix i assume i: "i < t_cnt ta"
  show "m_start ta i \<le> m_end ta i" using wf_type_nth(2) [OF assms(1) i] by (simp add: word_le_nat_alt)
  fix k assume "i < k \<and> k < t_cnt ta"
  then show "m_end ta i \<le> m_start ta k" using wf_type_nth(2,3) [OF assms(1) i] by (simp add: word_le_nat_alt)
next
  fix j assume j: "j \<le> t_cnt tb"
  show "gap_start tb j \<le> gap_end tb j"
    using gap_start_less [OF _ assms(2), of j] by (simp add: gap_end_def)
  fix k assume k: "j < k \<and> k \<le> t_cnt tb"
  then obtain l where l: "k = Suc l" "j \<le> l" "l < t_cnt tb" by (cases k) auto
  have "rb (t_regions tb ! j) \<le> re (t_regions tb ! l)"
    using wf_type_nth(3) [OF assms(2), of j l] l by (cases "j = l") auto
  then have "r_base (t_regions tb ! j) \<le> gap_start tb k"
    using wf_type_nth(2) [OF assms(2) l(3)] l(1) by (simp add: gap_start_def word_le_nat_alt)
  then show "gap_end tb j \<le> gap_start tb k" using k by (simp add: gap_end_def)
qed

section \<open>Finding a free area\<close>

text \<open>\<^verbatim>\<open>clamp(val, lo, hi)\<close> of \<^verbatim>\<open>include/linux/kernel.h\<close>.\<close>

definition clamp :: "u32 \<Rightarrow> u32 \<Rightarrow> u32 \<Rightarrow> u32" where
  "clamp val lo hi = min (max val lo) hi"

fun bottom_up_loop :: "u32 \<Rightarrow> u32 \<Rightarrow> u32 \<Rightarrow> u32 \<Rightarrow> mem_range list \<Rightarrow> u32" where
  "bottom_up_loop start end' sz align [] = 0"
| "bottom_up_loop start end' sz align ((s, e, n) # rs) =
     (let this_start = clamp s start end';
          this_end = clamp e start end';
          cand = round_up this_start align
      in if cand < this_end \<and> this_end - cand \<ge> sz then cand else bottom_up_loop start end' sz align rs)"

definition memblock_find_range_bottom_up :: "memblock \<Rightarrow> u32 \<Rightarrow> u32 \<Rightarrow> u32 \<Rightarrow> u32 \<Rightarrow> int \<Rightarrow> u32 \<Rightarrow> u32" where
  "memblock_find_range_bottom_up st start end' sz align nid flags =
     bottom_up_loop start end' sz align (for_each_free_mem_range st nid flags)"

fun top_down_loop :: "u32 \<Rightarrow> u32 \<Rightarrow> u32 \<Rightarrow> u32 \<Rightarrow> mem_range list \<Rightarrow> u32" where
  "top_down_loop start end' sz align [] = 0"
| "top_down_loop start end' sz align ((s, e, n) # rs) =
     (let this_start = clamp s start end';
          this_end = clamp e start end'
      in if this_end < sz then top_down_loop start end' sz align rs
         else let cand = round_down (this_end - sz) align
              in if cand \<ge> this_start then cand else top_down_loop start end' sz align rs)"

definition memblock_find_range_top_down :: "memblock \<Rightarrow> u32 \<Rightarrow> u32 \<Rightarrow> u32 \<Rightarrow> u32 \<Rightarrow> int \<Rightarrow> u32 \<Rightarrow> u32" where
  "memblock_find_range_top_down st start end' sz align nid flags =
     top_down_loop start end' sz align (for_each_free_mem_range_reverse st nid flags)"

text \<open>\<open>kernel_end\<close> is \<^verbatim>\<open>__pa_symbol(_end)\<close>, which the linker provides.\<close>

definition memblock_find_in_range_node ::
  "u32 \<Rightarrow> memblock \<Rightarrow> u32 \<Rightarrow> u32 \<Rightarrow> u32 \<Rightarrow> u32 \<Rightarrow> int \<Rightarrow> u32 \<Rightarrow> u32" where
  "memblock_find_in_range_node kernel_end st sz align start end' nid flags =
     (let end' = if end' = MEMBLOCK_ALLOC_ACCESSIBLE then current_limit st else end';
          start = max start PAGE_SIZE;
          end' = max start end';
          ret = if memblock_bottom_up st \<and> end' > kernel_end
                then memblock_find_range_bottom_up st (max start kernel_end) end' sz align nid flags
                else 0
      in if ret \<noteq> 0 then ret else memblock_find_range_top_down st start end' sz align nid flags)"

text \<open>The jump back to \<^verbatim>\<open>again\<close> is taken at most once: it clears the flag it depends on.\<close>

definition memblock_find_in_range :: "u32 \<Rightarrow> memblock \<Rightarrow> u32 \<Rightarrow> u32 \<Rightarrow> u32 \<Rightarrow> u32 \<Rightarrow> u32" where
  "memblock_find_in_range kernel_end st start end' sz align =
     (let flags = choose_memblock_flags st;
          ret = memblock_find_in_range_node kernel_end st sz align start end' NUMA_NO_NODE flags
      in if ret = 0 \<and> flags AND MEMBLOCK_MIRROR \<noteq> 0
         then memblock_find_in_range_node kernel_end st sz align start end' NUMA_NO_NODE (flags AND NOT MEMBLOCK_MIRROR)
         else ret)"

end
