(* ===== verification/Memblock_Search.thy ===== *)
theory Memblock_Search
  imports Memblock_Find
begin

text \<open>
  The search for a free area (\<^verbatim>\<open>memblock_find_in_range_node\<close>, \<^verbatim>\<open>mm/memblock.c\<close>) is exact: what
  it returns is free, aligned and inside the limits, it is the highest such address, and it
  returns zero only if there is none.
\<close>

section \<open>The search returns the highest free address\<close>

lemma unat_round_down: "unat (round_down x (2 ^ k)) = unat x - unat x mod 2 ^ k"
  by (simp add: round_down_def round_mask_def exp_minus_one_mask unat_and_not_mask)

lemma unat_max: "unat (max a b :: u32) = max (unat a) (unat b)"
  by (simp add: max_def word_le_nat_alt)

lemma unat_clamp: "unat (clamp v lo hi) = min (max (unat v) (unat lo)) (unat hi)"
  by (simp add: clamp_def unat_min unat_max)

text \<open>\<open>fits k lo hi sz s e c\<close>: the block of \<open>sz\<close> bytes at \<open>c\<close> is aligned to \<open>2 ^ k\<close>, inside the limits
  \<open>lo\<close> and \<open>hi\<close> and inside the range from \<open>s\<close> to \<open>e\<close>.\<close>

definition fits :: "nat \<Rightarrow> nat \<Rightarrow> nat \<Rightarrow> nat \<Rightarrow> nat \<Rightarrow> nat \<Rightarrow> nat \<Rightarrow> bool" where
  "fits k lo hi sz s e c \<longleftrightarrow> 2 ^ k dvd c \<and> max s lo \<le> c \<and> c + sz \<le> min e hi"

lemma fits_highest:
  fixes s e lo hi sz k
  defines "E \<equiv> min (max e lo) hi" and "S \<equiv> min (max s lo) (hi :: nat)"
  defines "c \<equiv> (E - sz) - (E - sz) mod 2 ^ k"
  assumes "lo \<le> hi" "0 < sz"
  shows "sz \<le> E \<Longrightarrow> S \<le> c \<Longrightarrow> fits k lo hi sz s e c"
    "fits k lo hi sz s e c' \<Longrightarrow> sz \<le> E \<and> S \<le> c \<and> c' \<le> c"
proof -
  have m: "(E - sz) mod 2 ^ k < 2 ^ k" by simp
  have c: "2 ^ k dvd c" "c \<le> E - sz" "E - sz < c + 2 ^ k"
    unfolding c_def using m dvd_minus_mod [of "2 ^ k" "E - sz"] by linarith+
  show "fits k lo hi sz s e c" if "sz \<le> E" "S \<le> c"
  proof -
    have "S < E" using that c(2) assms(5) by linarith
    then have "S = max s lo" "E = min e hi" unfolding S_def E_def using assms(4) by (auto simp: min_def max_def split: if_splits)
    then show ?thesis using that c unfolding fits_def by auto
  qed
  show "sz \<le> E \<and> S \<le> c \<and> c' \<le> c" if f: "fits k lo hi sz s e c'"
  proof -
    have f: "2 ^ k dvd c'" "max s lo \<le> c'" "c' + sz \<le> min e hi" using f by (auto simp: fits_def)
    then have "c' + sz \<le> E" unfolding E_def using assms(4) by linarith
    moreover have "c' \<le> c" using dvd_between [OF f(1) c(1) order_refl] c(3) \<open>c' + sz \<le> E\<close> by linarith
    moreover have "S \<le> c'" using f(2) unfolding S_def by (auto simp: min_def max_def)
    ultimately show ?thesis by linarith
  qed
qed

lemma top_down_loop_correct:
  fixes k :: nat
  assumes "lo \<le> hi" "sz \<noteq> 0" "lo \<noteq> 0" "sorted_wrt (\<lambda>(s, e, n) (s', e', n'). e' \<le> s) rs"
  defines "c \<equiv> top_down_loop lo hi sz (2 ^ k) rs"
    and "F \<equiv> \<lambda>c. \<exists>(s, e, n)\<in>set rs. fits k (unat lo) (unat hi) (unat sz) (unat s) (unat e) c"
  shows "if c = 0 then \<forall>c'. \<not> F c' else F (unat c) \<and> (\<forall>c'. F c' \<longrightarrow> c' \<le> unat c)"
  using assms(4) unfolding c_def F_def
proof (induction rs)
  case Nil
  show ?case by simp
next
  case (Cons r rs)
  obtain s e n where r: "r = (s, e, n)" by (cases r)
  let ?E = "clamp e lo hi" and ?S = "clamp s lo hi"
  let ?c = "round_down (?E - sz) (2 ^ k)"
  let ?F = "fits k (unat lo) (unat hi) (unat sz) (unat s) (unat e)"
  have h: "unat lo \<le> unat hi" "0 < unat sz" "0 < unat lo"
    using assms(1-3) by (auto simp: word_le_nat_alt word_neq_0_conv word_less_nat_alt)
  note top = fits_highest [OF h(1,2), where e = "unat e" and s = "unat s" and k = k, folded unat_clamp]
  have cand: "sz \<le> ?E \<Longrightarrow> unat ?c = unat ?E - unat sz - (unat ?E - unat sz) mod 2 ^ k"
    by (simp add: unat_round_down unat_sub)
  show ?case
  proof (cases "sz \<le> ?E \<and> ?S \<le> ?c")
    case True
    have eq: "top_down_loop lo hi sz (2 ^ k) (r # rs) = ?c" using True r by (simp add: Let_def leD)
    have ok: "?F (unat ?c)" using True top(1) cand by (simp add: word_le_nat_alt)
    then have ne: "?c \<noteq> 0" using h(3) by (auto simp: fits_def)
    have "c' \<le> unat ?c" if F: "\<exists>(s, e, n)\<in>set (r # rs). fits k (unat lo) (unat hi) (unat sz) (unat s) (unat e) c'" for c'
    proof -
      obtain s' e' n' where x: "(s', e', n') \<in> set (r # rs)"
          "fits k (unat lo) (unat hi) (unat sz) (unat s') (unat e') c'"
        using F by blast
      show ?thesis
      proof (cases "(s', e', n') = r")
        case True
        then show ?thesis using top(2) x(2) \<open>sz \<le> ?E \<and> ?S \<le> ?c\<close> cand r by simp
      next
        case False
        then have "unat e' \<le> unat s" using Cons.prems x(1) r by (auto simp: word_le_nat_alt)
        moreover have "c' + unat sz \<le> unat e'" using x(2) by (simp add: fits_def)
        moreover have "unat s \<le> unat ?c" using ok by (simp add: fits_def)
        ultimately show ?thesis by linarith
      qed
    qed
    then have "\<forall>c'. (\<exists>(s, e, n)\<in>set (r # rs). fits k (unat lo) (unat hi) (unat sz) (unat s) (unat e) c') \<longrightarrow> c' \<le> unat ?c"
      by blast
    moreover have "\<exists>(s, e, n)\<in>set (r # rs). fits k (unat lo) (unat hi) (unat sz) (unat s) (unat e) (unat ?c)"
      using ok r by auto
    ultimately show ?thesis unfolding eq using ne by (simp only: if_False)
  next
    case False
    have eq: "top_down_loop lo hi sz (2 ^ k) (r # rs) = top_down_loop lo hi sz (2 ^ k) rs"
      using False r by (auto simp: Let_def)
    have "\<not> ?F c'" for c' using False top(2) [of c'] cand by (auto simp: word_le_nat_alt)
    then have f: "(\<exists>(s, e, n)\<in>set (r # rs). fits k (unat lo) (unat hi) (unat sz) (unat s) (unat e) c') \<longleftrightarrow>
        (\<exists>(s, e, n)\<in>set rs. fits k (unat lo) (unat hi) (unat sz) (unat s) (unat e) c')" for c'
      using r by auto
    have "sorted_wrt (\<lambda>(s, e, n) (s', e', n'). e' \<le> s) rs" using Cons.prems unfolding sorted_wrt.simps by blast
    from Cons.IH [OF this] show ?thesis unfolding eq f .
  qed
qed

text \<open>\<open>free_at\<close>: the \<open>sz\<close> bytes at \<open>c\<close> are inside one memory region that the caller accepts, and none
  of them is reserved.\<close>

definition free_at :: "int \<Rightarrow> u32 \<Rightarrow> memblock_type \<Rightarrow> memblock_type \<Rightarrow> nat \<Rightarrow> nat \<Rightarrow> bool" where
  "free_at nid flags ta tb sz c \<longleftrightarrow>
     (\<exists>r\<in>set (live ta). \<not> skip_region nid flags r \<and> {c..<c + sz} \<subseteq> raddrs r) \<and>
     {c..<c + sz} \<inter> addrs (live tb) = {}"

lemma in_live_nth:
  assumes "wf_type t" "r \<in> set (live t)"
  obtains i where "i < t_cnt t" "r = t_regions t ! i"
proof -
  have a: "wf_array t" using assms(1) by (simp add: wf_type_def)
  then show ?thesis using assms(2) that nth_live [OF a] length_live [OF a] by (metis in_set_conv_nth)
qed

lemma block_subset: "0 < sz \<Longrightarrow> {c..<c + sz} \<subseteq> raddrs r \<longleftrightarrow> rb r \<le> c \<and> c + sz \<le> re r"
  unfolding raddrs_def by (simp add: ivl_subset) linarith?

lemma gap_disjoint:
  assumes "wf_type t" "j \<le> t_cnt t" "unat (gap_start t j) \<le> c" "c + sz \<le> unat (gap_end t j)"
  shows "{c..<c + sz} \<inter> addrs (live t) = {}"
proof -
  have "{c..<c + sz} \<inter> raddrs r = {}" if r: "r \<in> set (live t)" for r
  proof -
    obtain i where i: "i < t_cnt t" "r = t_regions t ! i" using in_live_nth [OF assms(1) r] .
    have "re r \<le> c \<or> c + sz \<le> rb r"
    proof (cases "i < j")
      case True
      then obtain l where l: "j = Suc l" "i \<le> l" "l < t_cnt t" using assms(2) by (cases j) auto
      then have "re r \<le> re (t_regions t ! l)"
        using wf_type_nth(3) [OF assms(1) i(1), of l] i(2) by (cases "i = l") auto
      moreover have "unat (gap_start t j) = re (t_regions t ! l)"
        using wf_type_nth(2) [OF assms(1) l(3)] l(1) by (simp add: gap_start_def)
      ultimately show ?thesis using assms(3) by simp
    next
      case False
      then have "rb (t_regions t ! j) \<le> rb r"
        using wf_type_nth(3) [OF assms(1), of j i] i assms(2) by (cases "i = j") auto
      moreover have "gap_end t j = r_base (t_regions t ! j)" using False i(1) by (simp add: gap_end_def)
      ultimately show ?thesis using assms(4) by simp
    qed
    then show ?thesis unfolding raddrs_def by auto
  qed
  then show ?thesis unfolding addrs_def by blast
qed

lemma free_gap:
  assumes "wf_type t" "{c..<c + sz} \<inter> addrs (live t) = {}" "0 < sz" "c + sz < 2 ^ 32"
  obtains j where "j \<le> t_cnt t" "unat (gap_start t j) \<le> c" "c + sz \<le> unat (gap_end t j)"
proof -
  define P where "P j \<longleftrightarrow> t_cnt t \<le> j \<or> c < re (t_regions t ! j)" for j
  define j where "j = (LEAST j. P j)"
  have "P (t_cnt t)" by (simp add: P_def)
  then have P: "P j" "j \<le> t_cnt t" unfolding j_def by (auto intro: LeastI Least_le)
  have "unat (gap_start t j) \<le> c"
  proof (cases j)
    case (Suc l)
    then have "\<not> P l" using not_less_Least [of l P] j_def by simp
    then show ?thesis using wf_type_nth(2) [OF assms(1), of l] Suc by (simp add: P_def gap_start_def)
  qed (simp add: gap_start_def)
  moreover have "c + sz \<le> unat (gap_end t j)"
  proof (cases "j < t_cnt t")
    case True
    let ?r = "t_regions t ! j"
    have r: "?r \<in> set (live t)" "c < re ?r" using P(1) True wf_type_nth(1) [OF assms(1) True] by (auto simp: P_def)
    then have "raddrs ?r \<noteq> {}" using assms(1) wf_region_less
      unfolding wf_type_def wf_regions_def raddrs_def by (auto simp: empty_region_def)
    then have "rb ?r < re ?r" by (simp add: raddrs_def)
    moreover have "{c..<c + sz} \<inter> raddrs ?r = {}" using assms(2) r(1) unfolding addrs_def by blast
    ultimately have "c + sz \<le> rb ?r" using r(2) assms(3) unfolding raddrs_def
      by (metis atLeastLessThan_iff disjoint_iff le_add1 le_less_linear less_add_same_cancel1 nat_le_linear)
    then show ?thesis using True by (simp add: gap_end_def)
  next
    case False
    then show ?thesis using assms(4) by (simp add: gap_end_def unsigned_minus_1_eq_mask mask_eq_exp_minus_1)
  qed
  ultimately show ?thesis using that P(2) by blast
qed

lemma wf_type_end: "wf_type t \<Longrightarrow> r \<in> set (live t) \<Longrightarrow> re r < 2 ^ 32"
  by (auto simp: wf_type_def wf_regions_def wf_region_def empty_region_def)

text \<open>A block is free exactly if it is inside one of the visited ranges.\<close>

lemma hit_free:
  assumes "wf_type ta" "wf_type tb" "0 < sz"
  shows "(\<exists>i j. hit nid flags ta tb i j \<and>
      unat (max (m_start ta i) (gap_start tb j)) \<le> c \<and> c + sz \<le> unat (min (m_end ta i) (gap_end tb j))) \<longleftrightarrow>
    free_at nid flags ta tb sz c" (is "?L \<longleftrightarrow> ?R")
proof
  assume ?L
  then obtain i j where h: "hit nid flags ta tb i j" "unat (max (m_start ta i) (gap_start tb j)) \<le> c"
      "c + sz \<le> unat (min (m_end ta i) (gap_end tb j))" by blast
  have i: "i < t_cnt ta" "j \<le> t_cnt tb" "\<not> skip_region nid flags (t_regions ta ! i)" using h(1) by (auto simp: hit_def)
  have "{c..<c + sz} \<subseteq> raddrs (t_regions ta ! i)"
    using h(2,3) wf_type_nth(2) [OF assms(1) i(1)] block_subset [OF assms(3)] by (simp add: unat_max unat_min)
  moreover have "{c..<c + sz} \<inter> addrs (live tb) = {}"
    using gap_disjoint [OF assms(2) i(2), of c sz] h(2,3) by (simp add: unat_max unat_min)
  ultimately show ?R using wf_type_nth(1) [OF assms(1) i(1)] i(3) by (auto simp: free_at_def)
next
  assume ?R
  then obtain r where r: "r \<in> set (live ta)" "\<not> skip_region nid flags r" "rb r \<le> c" "c + sz \<le> re r"
      and d: "{c..<c + sz} \<inter> addrs (live tb) = {}"
    using block_subset [OF assms(3)] by (auto simp: free_at_def)
  obtain i where i: "i < t_cnt ta" "r = t_regions ta ! i" using in_live_nth [OF assms(1) r(1)] .
  have "c + sz < 2 ^ 32" using r(4) wf_type_end [OF assms(1) r(1)] by simp
  from free_gap [OF assms(2) d assms(3) this] obtain j
    where j: "j \<le> t_cnt tb" "unat (gap_start tb j) \<le> c" "c + sz \<le> unat (gap_end tb j)" .
  note e = wf_type_nth(2) [OF assms(1) i(1)]
  have h: "hit nid flags ta tb i j"
    using r i j e assms(3) by (simp add: hit_def word_less_nat_alt)
  show ?L
    by (rule exI [where x = i], rule exI [where x = j]) (use h r i j e in \<open>simp add: unat_max unat_min\<close>)
qed

lemma free_ranges_reverse:
  fixes nid flags
  assumes "wf_type ta" "wf_type tb"
  defines "rs \<equiv> mem_ranges_rev nid flags ta tb None"
  shows "sorted_wrt (\<lambda>(s, e, n) (s', e', n'). e' \<le> s) rs"
    "set rs = {hit_range ta tb (i, j) | i j. hit (node_sel nid) flags ta tb i j}"
proof -
  have o: "in_order ta tb" by (rule in_order_wf [OF assms(1,2)])
  have "rs = mem_ranges_rev nid flags ta tb (Some (t_cnt ta, t_cnt tb + 1))"
    unfolding rs_def by (subst (1 2) mem_ranges_rev.simps) (simp add: next_mem_range_rev_None)
  then obtain ijs where ijs: "rs = map (hit_range ta tb) ijs"
      "set ijs = rem_rev (node_sel nid) flags ta tb (t_cnt ta) (t_cnt tb + 1)"
      "sorted_wrt (\<lambda>(i, j) (k, l). k \<le> i \<and> l \<le> j \<and> (k < i \<or> l < j)) ijs"
    using mem_ranges_rev_hits [OF o, of "t_cnt ta" "t_cnt tb + 1" nid flags] by auto
  show "set rs = {hit_range ta tb (i, j) | i j. hit (node_sel nid) flags ta tb i j}"
    unfolding ijs(1) set_map ijs(2) rem_rev_def by (auto simp: hit_def less_Suc_eq_le)
  have lt: "min (m_end ta k) (gap_end tb l) \<le> max (m_start ta i) (gap_start tb j)"
    if "i < t_cnt ta" "j \<le> t_cnt tb" "k < i \<or> l < j" for i j k l
    using that in_orderD(1,4) [OF o] by (auto simp: min_le_iff_disj le_max_iff_disj)
  show "sorted_wrt (\<lambda>(s, e, n) (s', e', n'). e' \<le> s) rs"
    unfolding ijs(1) sorted_wrt_map
  proof (rule sorted_wrt_mono_rel [OF _ ijs(3)])
    fix x y assume "x \<in> set ijs" "y \<in> set ijs"
      and "(\<lambda>(i, j) (k, l). k \<le> i \<and> l \<le> j \<and> (k < i \<or> l < j)) x y"
    then show "(\<lambda>(s, e, n) (s', e', n'). e' \<le> s) (hit_range ta tb x) (hit_range ta tb y)"
      unfolding ijs(2) rem_rev_def using lt by (force simp: hit_range_def hit_def split: prod.splits)
  qed
qed

text \<open>The areas that the caller of the search accepts.\<close>

definition search_end :: "memblock \<Rightarrow> u32 \<Rightarrow> u32 \<Rightarrow> u32" where
  "search_end st start end' =
     max (max start PAGE_SIZE) (if end' = MEMBLOCK_ALLOC_ACCESSIBLE then current_limit st else end')"

definition area_ok :: "memblock \<Rightarrow> nat \<Rightarrow> nat \<Rightarrow> u32 \<Rightarrow> u32 \<Rightarrow> int \<Rightarrow> u32 \<Rightarrow> nat \<Rightarrow> bool" where
  "area_ok st sz k start end' nid flags c \<longleftrightarrow>
     2 ^ k dvd c \<and> max (unat start) (unat PAGE_SIZE) \<le> c \<and> c + sz \<le> unat (search_end st start end') \<and>
     free_at (node_sel nid) flags (memory st) (reserved st) sz c"

lemma find_in_range_node_correct:
  fixes k :: nat and kernel_end flags nid end' start
  assumes "wf_type (memory st)" "wf_type (reserved st)" "sz \<noteq> 0"
  defines "c \<equiv> memblock_find_in_range_node kernel_end st sz (2 ^ k) start end' nid flags"
    and "F \<equiv> area_ok st (unat sz) k start end' nid flags"
  shows "if c = 0 then \<forall>c'. \<not> F c' else F (unat c) \<and> (\<forall>c'. F c' \<longrightarrow> c' \<le> unat c)"
proof -
  let ?lo = "max start PAGE_SIZE" and ?hi = "search_end st start end'"
  let ?rs = "mem_ranges_rev nid flags (memory st) (reserved st) None"
  have sz: "0 < unat sz" using assms(3) by (simp add: word_neq_0_conv word_less_nat_alt)
  have eq: "c = top_down_loop ?lo ?hi sz (2 ^ k) ?rs"
    unfolding c_def by (simp add: memblock_find_in_range_node_def search_end_def Let_def memblock_bottom_up_def
        memblock_find_range_top_down_def for_each_free_mem_range_reverse_def)
  have le: "?lo \<le> ?hi" by (simp add: search_end_def)
  have ne: "?lo \<noteq> 0" by (auto simp: max_def PAGE_SIZE_def)
  have F: "(\<exists>(s, e, n)\<in>set ?rs. fits k (unat ?lo) (unat ?hi) (unat sz) (unat s) (unat e) c') = F c'" for c'
  proof -
    have "(\<exists>(s, e, n)\<in>set ?rs. fits k (unat ?lo) (unat ?hi) (unat sz) (unat s) (unat e) c') \<longleftrightarrow>
        2 ^ k dvd c' \<and> unat ?lo \<le> c' \<and> c' + unat sz \<le> unat ?hi \<and>
        (\<exists>i j. hit (node_sel nid) flags (memory st) (reserved st) i j \<and>
          unat (max (m_start (memory st) i) (gap_start (reserved st) j)) \<le> c' \<and>
          c' + unat sz \<le> unat (min (m_end (memory st) i) (gap_end (reserved st) j)))"
      unfolding free_ranges_reverse(2) [OF assms(1,2)] fits_def hit_range_def by fastforce
    then show ?thesis unfolding hit_free [OF assms(1,2) sz] by (simp only: F_def area_ok_def unat_max)
  qed
  from top_down_loop_correct [OF le assms(3) ne free_ranges_reverse(1) [OF assms(1,2)], of k nid flags]
  show ?thesis unfolding eq F .
qed

lemma sorted_wrt_unique:
  assumes "sorted_wrt R xs" "sorted_wrt R ys" "set xs = set ys" "\<And>x y. R x y \<Longrightarrow> \<not> R y x"
  shows "xs = ys"
  using assms(1-3)
proof (induction xs arbitrary: ys)
  case (Cons x xs)
  then obtain y ys' where ys: "ys = y # ys'" by (cases ys) auto
  have "x = y" using Cons.prems assms(4) unfolding ys by (metis insertE list.simps(15) list.set_intros(1) sorted_wrt.simps(2))
  moreover have "x \<notin> set xs" "y \<notin> set ys'" using Cons.prems assms(4) [of x x] assms(4) [of y y] ys by auto
  ultimately have "set xs = set ys'" using Cons.prems(3) ys insert_ident by (metis list.simps(15))
  then show ?case using Cons ys \<open>x = y\<close> by auto
qed simp

lemma free_ranges_equal:
  assumes "wf_type ta" "wf_type tb"
  shows "mem_ranges_rev nid flags ta tb None = rev (mem_ranges nid flags ta tb (0, 0))"
proof -
  have o: "in_order ta tb" by (rule in_order_wf [OF assms(1,2)])
  let ?R = "\<lambda>(i, j) (k, l). i \<le> k \<and> j \<le> l \<and> (i < k \<or> j < (l :: nat))"
  let ?n = "node_sel nid"
  obtain xs where xs: "mem_ranges nid flags ta tb (0, 0) = map (hit_range ta tb) xs"
      "set xs = rem ?n flags ta tb 0 0" "sorted_wrt ?R xs"
    using mem_ranges_hits [OF o, of nid flags 0 0] by blast
  have "mem_ranges_rev nid flags ta tb None = mem_ranges_rev nid flags ta tb (Some (t_cnt ta, t_cnt tb + 1))"
    by (subst (1 2) mem_ranges_rev.simps) (simp add: next_mem_range_rev_None)
  then obtain ys where ys: "mem_ranges_rev nid flags ta tb None = map (hit_range ta tb) ys"
      "set ys = rem_rev ?n flags ta tb (t_cnt ta) (t_cnt tb + 1)"
      "sorted_wrt (\<lambda>(i, j) (k, l). k \<le> i \<and> l \<le> j \<and> (k < i \<or> l < j)) ys"
    using mem_ranges_rev_hits [OF o, of "t_cnt ta" "t_cnt tb + 1" nid flags] by auto
  have "sorted_wrt ?R (rev ys)"
    unfolding sorted_wrt_rev by (rule sorted_wrt_mono_rel [OF _ ys(3)]) auto
  moreover have "set (rev ys) = set xs" unfolding set_rev xs(2) ys(2) rem_def rem_rev_def by (auto simp: hit_def)
  ultimately have "rev ys = xs" by (intro sorted_wrt_unique [OF _ xs(3)]) auto
  then have "ys = rev xs" by auto
  then show ?thesis using xs(1) ys(1) by (simp add: rev_map)
qed

text \<open>A small memory map: one gigabyte at \<open>0x40000000\<close> with the first eight megabytes reserved.\<close>

definition one_region :: "u32 \<Rightarrow> u32 \<Rightarrow> memblock_type" where
  "one_region b s = \<lparr>t_cnt = 1, t_max = 4, t_total_size = s,
     t_regions = \<lparr>r_base = b, r_size = s, r_flags = 0\<rparr> # replicate 3 empty_region, t_loc = None\<rparr>"

definition example_memblock :: memblock where
  "example_memblock = init_memblock\<lparr>memory := one_region 0x40000000 0x40000000,
     reserved := one_region 0x40000000 0x800000\<rparr>"

lemma wf_one_region: "s \<noteq> 0 \<Longrightarrow> unat b + unat s < 2 ^ 32 \<Longrightarrow> wf_type (one_region b s) \<and> total_ok (one_region b s)"
  by (simp add: wf_type_def one_region_def wf_array_def live_def wf_regions_def wf_region_def total_ok_def)

lemma wf_example: "wf_type (memory example_memblock)" "wf_type (reserved example_memblock)"
  using wf_one_region by (simp_all add: example_memblock_def init_memblock_def)

section \<open>Properties\<close>

text \<open>C2: On well-formed arrays the search of \<^verbatim>\<open>memblock_find_in_range_node\<close> is exact: if it returns
  a nonzero address, that address is a multiple of the alignment, at or above both the start and
  the first page, its block ends at or below the limit, lies inside one memory region of the wanted kind
  and meets no reserved byte, and no higher address has these properties; if it returns zero,
  no address has them.\<close>

theorem memblock_find_in_range_node_exact:
  assumes "wf_type (memory st)" "wf_type (reserved st)" "sz \<noteq> 0"
  shows "let c = memblock_find_in_range_node kernel_end st sz (2 ^ k) start end' nid flags;
             F = area_ok st (unat sz) k start end' nid flags
    in if c = 0 then \<forall>c'. \<not> F c' else F (unat c) \<and> (\<forall>c'. F c' \<longrightarrow> c' \<le> unat c)"
  unfolding Let_def by (rule find_in_range_node_correct [OF assms])

theorem memblock_find_in_range_node_exact_witness:
  "let c = memblock_find_in_range_node 0 example_memblock 0x1000 (2 ^ 12) 0 0 NUMA_NO_NODE 0;
       F = area_ok example_memblock (unat (0x1000 :: u32)) 12 0 0 NUMA_NO_NODE 0
   in if c = 0 then \<forall>c'. \<not> F c' else F (unat c) \<and> (\<forall>c'. F c' \<longrightarrow> c' \<le> unat c)"
proof -
  have "(0x1000 :: u32) \<noteq> 0" by simp
  from memblock_find_in_range_node_exact [OF wf_example this] show ?thesis .
qed

text \<open>C8: The two iterators over the free ranges agree: on well-formed arrays the reverse iterator
  visits exactly the ranges of the forward iterator, in the opposite order.\<close>

theorem free_mem_range_reverse_eq:
  assumes "wf_type (memory st)" "wf_type (reserved st)"
  shows "for_each_free_mem_range_reverse st nid flags = rev (for_each_free_mem_range st nid flags)"
  unfolding for_each_free_mem_range_def for_each_free_mem_range_reverse_def by (rule free_ranges_equal [OF assms])

theorem free_mem_range_reverse_eq_witness:
  "for_each_free_mem_range_reverse example_memblock NUMA_NO_NODE 0 =
   rev (for_each_free_mem_range example_memblock NUMA_NO_NODE 0)"
  by (rule free_mem_range_reverse_eq [OF wf_example])

end
