(* ===== verification/Memblock_Ops.thy ===== *)
theory Memblock_Ops
  imports Memblock_Search
begin

text \<open>
  The operations of the boot memory allocator on its two arrays of regions,
  \<^verbatim>\<open>mm/memblock.c\<close>: growing an array, adding, isolating, removing and flagging ranges.

  \<^verbatim>\<open>memblock_double_array\<close> allocates the new array from the allocator itself, so it calls
  \<^verbatim>\<open>memblock_reserve\<close> and \<^verbatim>\<open>memblock_free\<close>, which may need to grow the reserved array
  in turn. The operations on ranges take the function that grows an array as their argument
  \<open>dbl\<close>, and \<open>memblock_double_array\<close> is the recursion through it, to a given depth. Growing the
  memory array may grow the reserved array, which then has room for its own two calls, so that
  the depth \<open>RESIZE_DEPTH\<close> is enough. \<open>None\<close> stands for \<^verbatim>\<open>BUG_ON\<close>.

  The environment gives what lies outside the file: whether the slab allocator runs, the
  physical address that \<^verbatim>\<open>kmalloc\<close> returns for a size (zero for \<^verbatim>\<open>NULL\<close>), and the end of the
  kernel image.
\<close>

section \<open>State and environment\<close>

record boot_env =
  slab_is_available :: bool
  kmalloc_pa :: "u32 \<Rightarrow> u32"
  kernel_end :: u32

datatype which = Memory | Reserved

fun get_type :: "which \<Rightarrow> memblock \<Rightarrow> memblock_type" where
  "get_type Memory st = memory st"
| "get_type Reserved st = reserved st"

fun put_type :: "which \<Rightarrow> memblock_type \<Rightarrow> memblock \<Rightarrow> memblock" where
  "put_type Memory t st = st\<lparr>memory := t\<rparr>"
| "put_type Reserved t st = st\<lparr>reserved := t\<rparr>"

fun get_in_slab :: "which \<Rightarrow> memblock \<Rightarrow> bool" where
  "get_in_slab Memory st = memblock_memory_in_slab st"
| "get_in_slab Reserved st = memblock_reserved_in_slab st"

fun put_in_slab :: "which \<Rightarrow> bool \<Rightarrow> memblock \<Rightarrow> memblock" where
  "put_in_slab Memory b st = st\<lparr>memblock_memory_in_slab := b\<rparr>"
| "put_in_slab Reserved b st = st\<lparr>memblock_reserved_in_slab := b\<rparr>"

text \<open>A function that grows an array: the array, the range to avoid, the state; it returns the
  error code and the new state.\<close>

type_synonym doubler = "which \<Rightarrow> u32 \<Rightarrow> u32 \<Rightarrow> memblock \<Rightarrow> (int \<times> memblock) option"

section \<open>Adding a range\<close>

text \<open>\<^verbatim>\<open>while (type->cnt + n > type->max) if (memblock_double_array(...) < 0) return -ENOMEM;\<close>. The
  result tells whether the loop ended with enough room.\<close>

fun resize_loop :: "nat \<Rightarrow> doubler \<Rightarrow> which \<Rightarrow> nat \<Rightarrow> u32 \<Rightarrow> u32 \<Rightarrow> memblock \<Rightarrow> (bool \<times> memblock) option" where
  "resize_loop 0 dbl w n base sz st = None"
| "resize_loop (Suc fuel) dbl w n base sz st =
     (if t_cnt (get_type w st) + n > t_max (get_type w st)
      then (case dbl w base sz st of
              None \<Rightarrow> None
            | Some (r, st') \<Rightarrow> if r < 0 then Some (False, st') else resize_loop fuel dbl w n base sz st')
      else Some (True, st))"

definition memblock_add_range :: "doubler \<Rightarrow> which \<Rightarrow> u32 \<Rightarrow> u32 \<Rightarrow> u32 \<Rightarrow> memblock \<Rightarrow> (int \<times> memblock) option" where
  "memblock_add_range dbl w base sz flags st =
     (let sz = memblock_cap_size base sz;
          end' = base + sz;
          t = get_type w st
      in if sz = 0 then Some (0, st)
         else if r_size (t_regions t ! 0) = 0
         then Some (0, put_type w (t\<lparr>t_regions := (t_regions t)[0 := \<lparr>r_base = base, r_size = sz, r_flags = flags\<rparr>],
                                     t_total_size := sz\<rparr>) st)
         else case add_pass False flags base end' t of
             None \<Rightarrow> None
           | Some (nr_new, _) \<Rightarrow>
               if nr_new = 0 then Some (0, st)
               else case resize_loop (t_cnt t + nr_new + 1) dbl w nr_new base sz st of
                   None \<Rightarrow> None
                 | Some (False, st) \<Rightarrow> Some (- ENOMEM, st)
                 | Some (True, st) \<Rightarrow>
                     (case add_pass True flags base end' (get_type w st) of
                        None \<Rightarrow> None
                      | Some (nr_new, t) \<Rightarrow>
                          if nr_new = 0 then Some (0, put_type w t st)
                          else map_option (\<lambda>t. (0, put_type w t st)) (memblock_merge_regions t)))"

section \<open>Isolating and removing a range\<close>

definition memblock_isolate_range ::
  "doubler \<Rightarrow> which \<Rightarrow> u32 \<Rightarrow> u32 \<Rightarrow> memblock \<Rightarrow> (int \<times> nat \<times> nat \<times> memblock) option" where
  "memblock_isolate_range dbl w base sz st =
     (let sz = memblock_cap_size base sz;
          end' = base + sz;
          t = get_type w st
      in if sz = 0 then Some (0, 0, 0, st)
         else case resize_loop (t_cnt t + 3) dbl w 2 base sz st of
             None \<Rightarrow> None
           | Some (False, st) \<Rightarrow> Some (- ENOMEM, 0, 0, st)
           | Some (True, st) \<Rightarrow>
               map_option (\<lambda>(t, start_rgn, end_rgn). (0, start_rgn, end_rgn, put_type w t st))
                 (isolate_loop (t_cnt (get_type w st) + 4) base end' (get_type w st) 0 0 0))"

text \<open>\<^verbatim>\<open>for (i = end_rgn - 1; i >= start_rgn; i--) memblock_remove_region(type, i);\<close> with
  \<open>n = end_rgn - start_rgn\<close>.\<close>

fun remove_loop :: "memblock_type \<Rightarrow> nat \<Rightarrow> nat \<Rightarrow> memblock_type" where
  "remove_loop t start_rgn 0 = t"
| "remove_loop t start_rgn (Suc n) = remove_loop (memblock_remove_region t (start_rgn + n)) start_rgn n"

definition memblock_remove_range :: "doubler \<Rightarrow> which \<Rightarrow> u32 \<Rightarrow> u32 \<Rightarrow> memblock \<Rightarrow> (int \<times> memblock) option" where
  "memblock_remove_range dbl w base sz st =
     (case memblock_isolate_range dbl w base sz st of
        None \<Rightarrow> None
      | Some (ret, start_rgn, end_rgn, st) \<Rightarrow>
          if ret \<noteq> 0 then Some (ret, st)
          else Some (0, put_type w (remove_loop (get_type w st) start_rgn (end_rgn - start_rgn)) st))"

section \<open>Growing an array\<close>

definition sizeof_region :: u32 where "sizeof_region = 12"

definition PAGE_ALIGN :: "u32 \<Rightarrow> u32" where "PAGE_ALIGN x = ALIGN x PAGE_SIZE"

text \<open>The address of the new array: from the slab allocator, or a free area outside the range that
  is about to be reserved.\<close>

definition new_array_addr :: "boot_env \<Rightarrow> which \<Rightarrow> u32 \<Rightarrow> u32 \<Rightarrow> u32 \<Rightarrow> memblock \<Rightarrow> u32" where
  "new_array_addr env w new_area_start new_area_size new_size st =
     (if slab_is_available env then kmalloc_pa env new_size
      else let new_area_start = if w \<noteq> Reserved then 0 else new_area_start;
               new_area_size = if w \<noteq> Reserved then 0 else new_area_size;
               new_alloc_size = PAGE_ALIGN new_size;
               addr = memblock_find_in_range (kernel_end env) st (new_area_start + new_area_size)
                        (current_limit st) new_alloc_size PAGE_SIZE
           in if addr = 0 \<and> new_area_size \<noteq> 0
              then memblock_find_in_range (kernel_end env) st 0 (min new_area_start (current_limit st))
                     new_alloc_size PAGE_SIZE
              else addr)"

definition double_array :: "doubler \<Rightarrow> boot_env \<Rightarrow> doubler" where
  "double_array dbl env w new_area_start new_area_size st =
     (if \<not> memblock_can_resize st then Some (- 1, st)
      else let t = get_type w st;
               old_size = of_nat (t_max t) * sizeof_region;
               new_size = push_bit 1 old_size;
               addr = new_array_addr env w new_area_start new_area_size new_size st
           in if addr = 0 then Some (- 1, st)
              else let st1 = put_type w
                         (t\<lparr>t_regions := t_regions t @ replicate (t_max t) empty_region,
                            t_max := t_max t * 2, t_loc := Some addr\<rparr>) st;
                       freed = (case t_loc t of
                           Some old_array \<Rightarrow>
                             if get_in_slab w st then Some st1
                             else map_option snd (memblock_remove_range dbl Reserved old_array (PAGE_ALIGN old_size) st1)
                         | None \<Rightarrow> Some st1)
                   in case freed of
                       None \<Rightarrow> None
                     | Some st2 \<Rightarrow>
                         if slab_is_available env then Some (0, put_in_slab w True st2)
                         else case memblock_add_range dbl Reserved addr (PAGE_ALIGN new_size) 0 st2 of
                             None \<Rightarrow> None
                           | Some (r, st3) \<Rightarrow> if r \<noteq> 0 then None else Some (0, put_in_slab w False st3))"

primrec memblock_double_array :: "nat \<Rightarrow> boot_env \<Rightarrow> doubler" where
  "memblock_double_array 0 env = double_array (\<lambda>w b s st. None) env"
| "memblock_double_array (Suc depth) env = double_array (memblock_double_array depth env) env"

definition RESIZE_DEPTH :: nat where "RESIZE_DEPTH = 2"

section \<open>The interface\<close>

definition memblock_add :: "boot_env \<Rightarrow> u32 \<Rightarrow> u32 \<Rightarrow> memblock \<Rightarrow> (int \<times> memblock) option" where
  "memblock_add env base sz = memblock_add_range (memblock_double_array RESIZE_DEPTH env) Memory base sz 0"

definition memblock_reserve :: "boot_env \<Rightarrow> u32 \<Rightarrow> u32 \<Rightarrow> memblock \<Rightarrow> (int \<times> memblock) option" where
  "memblock_reserve env base sz = memblock_add_range (memblock_double_array RESIZE_DEPTH env) Reserved base sz 0"

definition memblock_remove :: "boot_env \<Rightarrow> u32 \<Rightarrow> u32 \<Rightarrow> memblock \<Rightarrow> (int \<times> memblock) option" where
  "memblock_remove env base sz = memblock_remove_range (memblock_double_array RESIZE_DEPTH env) Memory base sz"

definition memblock_free :: "boot_env \<Rightarrow> u32 \<Rightarrow> u32 \<Rightarrow> memblock \<Rightarrow> (int \<times> memblock) option" where
  "memblock_free env base sz = memblock_remove_range (memblock_double_array RESIZE_DEPTH env) Reserved base sz"

text \<open>\<^verbatim>\<open>for (i = start_rgn; i < end_rgn; i++)\<close> of \<^verbatim>\<open>memblock_setclr_flag\<close>.\<close>

fun setclr_loop :: "bool \<Rightarrow> u32 \<Rightarrow> memblock_region list \<Rightarrow> nat \<Rightarrow> nat \<Rightarrow> memblock_region list" where
  "setclr_loop set' flag rs i 0 = rs"
| "setclr_loop set' flag rs i (Suc n) =
     setclr_loop set' flag
       (rs[i := (if set' then memblock_set_region_flags flag (rs ! i) else memblock_clear_region_flags flag (rs ! i))])
       (i + 1) n"

definition memblock_setclr_flag :: "boot_env \<Rightarrow> u32 \<Rightarrow> u32 \<Rightarrow> bool \<Rightarrow> u32 \<Rightarrow> memblock \<Rightarrow> (int \<times> memblock) option" where
  "memblock_setclr_flag env base sz set' flag st =
     (case memblock_isolate_range (memblock_double_array RESIZE_DEPTH env) Memory base sz st of
        None \<Rightarrow> None
      | Some (ret, start_rgn, end_rgn, st) \<Rightarrow>
          if ret \<noteq> 0 then Some (ret, st)
          else let t = memory st;
                   t = t\<lparr>t_regions := setclr_loop set' flag (t_regions t) start_rgn (end_rgn - start_rgn)\<rparr>
               in map_option (\<lambda>t. (0, st\<lparr>memory := t\<rparr>)) (memblock_merge_regions t))"

definition memblock_mark_hotplug :: "boot_env \<Rightarrow> u32 \<Rightarrow> u32 \<Rightarrow> memblock \<Rightarrow> (int \<times> memblock) option" where
  "memblock_mark_hotplug env base sz = memblock_setclr_flag env base sz True MEMBLOCK_HOTPLUG"

definition memblock_clear_hotplug :: "boot_env \<Rightarrow> u32 \<Rightarrow> u32 \<Rightarrow> memblock \<Rightarrow> (int \<times> memblock) option" where
  "memblock_clear_hotplug env base sz = memblock_setclr_flag env base sz False MEMBLOCK_HOTPLUG"

definition memblock_mark_mirror :: "boot_env \<Rightarrow> u32 \<Rightarrow> u32 \<Rightarrow> memblock \<Rightarrow> (int \<times> memblock) option" where
  "memblock_mark_mirror env base sz st =
     memblock_setclr_flag env base sz True MEMBLOCK_MIRROR (st\<lparr>system_has_some_mirror := True\<rparr>)"

definition memblock_mark_nomap :: "boot_env \<Rightarrow> u32 \<Rightarrow> u32 \<Rightarrow> memblock \<Rightarrow> (int \<times> memblock) option" where
  "memblock_mark_nomap env base sz = memblock_setclr_flag env base sz True MEMBLOCK_NOMAP"

section \<open>Effect on the map of addresses\<close>

text \<open>The end of a range, capped at the highest address; and the three changes of the map from
  addresses to flags: filling a range, clearing it, and changing its flags.\<close>

definition range_end :: "u32 \<Rightarrow> u32 \<Rightarrow> nat" where
  "range_end base sz = min (unat base + unat sz) (2 ^ 32 - 1)"

definition map_fill :: "(nat \<Rightarrow> u32 option) \<Rightarrow> nat \<Rightarrow> nat \<Rightarrow> u32 \<Rightarrow> nat \<Rightarrow> u32 option" where
  "map_fill m lo hi f a = (case m a of Some x \<Rightarrow> Some x | None \<Rightarrow> if lo \<le> a \<and> a < hi then Some f else None)"

definition map_clear :: "(nat \<Rightarrow> u32 option) \<Rightarrow> nat \<Rightarrow> nat \<Rightarrow> nat \<Rightarrow> u32 option" where
  "map_clear m lo hi a = (if lo \<le> a \<and> a < hi then None else m a)"

definition map_flags :: "(u32 \<Rightarrow> u32) \<Rightarrow> (nat \<Rightarrow> u32 option) \<Rightarrow> nat \<Rightarrow> nat \<Rightarrow> nat \<Rightarrow> u32 option" where
  "map_flags g m lo hi a = (if lo \<le> a \<and> a < hi then map_option g (m a) else m a)"

text \<open>No two neighbours of a minimal list could be merged.\<close>

definition minimal :: "memblock_region list \<Rightarrow> bool" where
  "minimal rs \<longleftrightarrow> successively (\<lambda>a b. r_base a + r_size a \<noteq> r_base b \<or> r_flags a \<noteq> r_flags b) rs"

lemma cap_size:
  fixes base sz
  defines "s \<equiv> memblock_cap_size base sz"
  shows "unat base + unat s < 2 ^ 32" "unat (base + s) = range_end base sz"
    "s \<noteq> 0 \<Longrightarrow> base < base + s" "s = 0 \<Longrightarrow> range_end base sz \<le> unat base"
proof -
  have "unat (- 1 - base) = 2 ^ 32 - 1 - unat base"
    using unat_less_32 [of base] by (subst unat_sub) (auto simp: unsigned_minus_1_eq_mask mask_eq_exp_minus_1 word_order.extremum)
  then have s: "unat s = min (unat sz) (2 ^ 32 - 1 - unat base)"
    unfolding s_def memblock_cap_size_def by (simp add: unat_min)
  show b: "unat base + unat s < 2 ^ 32" unfolding s using unat_less_32 [of base] by simp
  show e: "unat (base + s) = range_end base sz"
    unfolding unat_add_32 [OF b] unfolding s range_end_def using unat_less_32 [of base] by simp
  show "base < base + s" if "s \<noteq> 0"
    using that unat_add_32 [OF b] by (simp add: word_less_nat_alt word_neq_0_conv)
  show "range_end base sz \<le> unat base" if "s = 0" using e that by simp
qed

lemma length_fill_le: "length (fill flags e b rs) \<le> 2 * length rs + 1"
  by (induction rs arbitrary: b) (auto simp: le_SucI intro: le_trans)

lemma fill_same: "length (fill flags e b rs) = length rs \<Longrightarrow> fill flags e b rs = rs"
proof (induction rs arbitrary: b)
  case (Cons r rs)
  then show ?case
    using length_fill [of rs flags e b] length_fill [of rs flags e "min (r_base r + r_size r) e"] by (auto split: if_splits)
qed (simp split: if_splits)

lemma amap_fill_map: "wf_regions rs \<Longrightarrow> amap (fill flags e b rs) = map_fill (amap rs) (unat b) (unat e) flags"
  by (rule ext) (simp add: amap_fill map_fill_def)

lemma same_total_ok: "same_total t t' \<Longrightarrow> total_ok t \<Longrightarrow> total_ok t'"
  by (simp add: same_total_def total_ok_def)

text \<open>The inserting pass followed by the merge.\<close>

lemma insert_and_merge:
  assumes "wf_array t" "wf_regions (live t)" "total_ok t" "length (fill flags e b (live t)) \<le> t_max t"
  obtains t1 t2 where "add_pass True flags b e t = Some (length (fill flags e b (live t)) - t_cnt t, t1)"
    "memblock_merge_regions t1 = Some t2" "wf_type t2" "total_ok t2" "t_loc t2 = t_loc t" "minimal (live t2)"
    "amap (live t2) = map_fill (amap (live t)) (unat b) (unat e) flags"
proof -
  obtain t1 where t1: "add_pass True flags b e t = Some (length (fill flags e b (live t)) - t_cnt t, t1)"
      "wf_array t1" "live t1 = fill flags e b (live t)" "same_total t t1"
    using add_pass_insert [OF assms(1,4)] .
  have w: "wf_regions (live t1)" unfolding t1(3) by (rule fill_wf [OF assms(2)])
  obtain t2 where t2: "memblock_merge_regions t1 = Some t2" "wf_array t2" "live t2 = merge_list (live t1)"
      "t_total_size t2 = t_total_size t1" "t_loc t2 = t_loc t1"
    using memblock_merge_regions_live [OF t1(2) w] by blast
  have "total_ok t1" using same_total_ok [OF t1(4) assms(3)] .
  then have "total_ok t2" unfolding total_ok_def t2(3,4) merge_list_sum .
  moreover have "wf_type t2" using merge_list_wf [OF w] t2(2,3) by (simp add: wf_type_def)
  moreover have "amap (live t2) = map_fill (amap (live t)) (unat b) (unat e) flags"
    using merge_list_wf [OF w] amap_fill_map [OF assms(2)] unfolding t2(3) t1(3) by simp
  moreover have "minimal (live t2)" unfolding t2(3) minimal_def by (rule merge_list_minimal)
  moreover have "t_loc t2 = t_loc t" using t2(5) t1(4) by (simp add: same_total_def)
  ultimately show ?thesis using that t1(1) t2(1) by blast
qed

lemma map_fill_none: "hi \<le> lo \<Longrightarrow> map_fill m lo hi f = m"
  by (rule ext) (simp add: map_fill_def split: option.splits)

lemma wf_type_cases:
  assumes "wf_type t"
  obtains "t_cnt t = 1" "live t = [empty_region]" "r_size (t_regions t ! 0) = 0"
  | "wf_array t" "wf_regions (live t)" "r_size (t_regions t ! 0) \<noteq> 0"
proof -
  have a: "wf_array t" using assms by (simp add: wf_type_def)
  then have "0 < t_cnt t" by (simp add: wf_array_def)
  then have n: "t_regions t ! 0 = live t ! 0" "live t ! 0 \<in> set (live t)" "length (live t) = t_cnt t"
    using nth_live [OF a, of 0] length_live [OF a] by auto
  show ?thesis
  proof (cases "live t = [empty_region]")
    case True
    then show ?thesis using that(1) n by (simp add: empty_region_def)
  next
    case False
    then have w: "wf_regions (live t)" using assms by (simp add: wf_type_def)
    then have "r_size (t_regions t ! 0) \<noteq> 0" using n(1,2) by (simp add: wf_regions_def wf_region_def)
    with w a show ?thesis using that(2) by blast
  qed
qed

text \<open>The special case of the empty array.\<close>

lemma fill_empty_array:
  fixes flags
  assumes "wf_type t" "live t = [empty_region]" "sz \<noteq> 0" "unat base + unat sz < 2 ^ 32"
  defines "t' \<equiv> t\<lparr>t_regions := (t_regions t)[0 := \<lparr>r_base = base, r_size = sz, r_flags = flags\<rparr>], t_total_size := sz\<rparr>"
  shows "wf_type t'" "total_ok t'" "minimal (live t')"
    "amap (live t') = map_fill (amap (live t)) (unat base) (unat (base + sz)) flags"
proof -
  have a: "wf_array t" using assms(1) by (simp add: wf_type_def)
  then have c: "t_cnt t = 1" using assms(2) length_live [OF a] by simp
  obtain r rs where "t_regions t = r # rs" using a c by (cases "t_regions t") (auto simp: wf_array_def)
  then have l: "live t' = [\<lparr>r_base = base, r_size = sz, r_flags = flags\<rparr>]" using c by (simp add: t'_def live_def)
  show "wf_type t'" using a c assms(3,4) unfolding wf_type_def l
    by (auto simp: wf_array_def t'_def wf_regions_def wf_region_def)
  show "total_ok t'" unfolding total_ok_def l by (simp add: t'_def)
  show "minimal (live t')" unfolding l by (simp add: minimal_def)
  show "amap (live t') = map_fill (amap (live t)) (unat base) (unat (base + sz)) flags"
    unfolding l assms(2) unat_add_32 [OF assms(4)] by (rule ext) (auto simp: map_fill_def raddrs_def empty_region_def)
qed

text \<open>What an addition may do.\<close>

definition add_outcome :: "which \<Rightarrow> u32 \<Rightarrow> u32 \<Rightarrow> u32 \<Rightarrow> memblock \<Rightarrow> int \<Rightarrow> memblock \<Rightarrow> bool" where
  "add_outcome w base sz flags st r st' \<longleftrightarrow>
     (\<forall>w'. w' \<noteq> w \<longrightarrow> get_type w' st' = get_type w' st) \<and>
     (if r = 0
      then amap (live (get_type w st')) = map_fill (amap (live (get_type w st))) (unat base) (range_end base sz) flags \<and>
           (minimal (live (get_type w st)) \<longrightarrow> minimal (live (get_type w st')))
      else r = - ENOMEM \<and> live (get_type w st') = live (get_type w st) \<and>
           t_max (get_type w st) < 2 * t_cnt (get_type w st) + 1)"

text \<open>A range is separated from the regions: those of \<open>B\<close> are inside, the others outside.\<close>

definition separated :: "nat \<Rightarrow> nat \<Rightarrow> memblock_region list \<Rightarrow> memblock_region list \<Rightarrow> memblock_region list \<Rightarrow> bool" where
  "separated lo hi A B C \<longleftrightarrow> (\<forall>r\<in>set A \<union> set C. raddrs r \<inter> {lo..<hi} = {}) \<and> (\<forall>r\<in>set B. raddrs r \<subseteq> {lo..<hi})"

lemma isolated_separated: "isolated b e A B C \<Longrightarrow> separated (unat b) (unat e) A B C"
  unfolding isolated_def separated_def raddrs_def by fastforce

lemma isolate_empty:
  assumes "wf_type t" "live t = [empty_region]" "b < e"
  shows "isolate_loop (t_cnt t + 4) b e t 0 0 0 = Some (t, 0, 0)"
proof -
  have a: "wf_array t" using assms(1) by (simp add: wf_type_def)
  have "t_cnt t = 1" "t_regions t ! 0 = empty_region"
    using assms(2) length_live [OF a] nth_live [OF a, of 0] by auto
  then show ?thesis using assms(3) by (auto simp: empty_region_def numeral_eq_Suc Let_def word_le_nat_alt word_less_nat_alt)
qed

lemma isolate_array:
  assumes "wf_type t" "total_ok t" "b < e" "t_cnt t + 2 \<le> t_max t"
  obtains t' s d A B C where "isolate_loop (t_cnt t + 4) b e t 0 0 0 = Some (t', s, d)" "wf_type t'" "total_ok t'"
    "t_loc t' = t_loc t" "amap (live t') = amap (live t)" "live t' = A @ B @ C"
    "separated (unat b) (unat e) A B C" "rgn_indices A B = (s, d)" "B \<noteq> [] \<Longrightarrow> wf_regions (live t')"
  using assms(1)
proof (cases rule: wf_type_cases)
  case 1
  have "separated (unat b) (unat e) [empty_region] [] []" by (simp add: separated_def)
  then show ?thesis
    using that [OF isolate_empty [OF assms(1) 1(2) assms(3)] assms(1,2), of "[empty_region]" "[]" "[]"] 1(2)
    by (simp add: rgn_indices_def)
next
  case 2
  obtain res where res: "isolate_loop (t_cnt t + 4) b e t 0 0 0 = Some res" "isolate_spec b e t 2 res"
    using isolate_loop_correct [OF 2(1,2) assms(3,4)] by blast
  obtain t' s d where r: "res = (t', s, d)" by (cases res)
  have t': "wf_array t'" "wf_regions (live t')" "amap (live t') = amap (live t)" "same_total t t'"
    using res(2) unfolding isolate_spec_def r by auto
  obtain A B C where l: "live t' = A @ B @ C" "isolated b e A B C" "rgn_indices A B = (s, d)"
    using res(2) unfolding isolate_spec_def r by auto
  have "wf_type t'" "t_loc t' = t_loc t" using t' by (simp_all add: wf_type_def same_total_def)
  then show ?thesis
    using that [OF res(1) [unfolded r] _ same_total_ok [OF t'(4) assms(2)] _ t'(3) l(1) isolated_separated [OF l(2)] l(3)]
      t'(2) by blast
qed

lemma remove_loop_live:
  assumes "wf_array t" "live t = A @ B @ C" "total_ok t"
  defines "t' \<equiv> remove_loop t (length A) (length B)"
  shows "wf_array t'" "live t' = (if A @ C = [] then if B = [] then [] else [empty_region] else A @ C)" "total_ok t'" "t_loc t' = t_loc t"
proof -
  have "wf_array t' \<and> live t' = (if A @ C = [] then if B = [] then [] else [empty_region] else A @ C) \<and>
      total_ok t' \<and> t_loc t' = t_loc t"
    unfolding t'_def using assms(1-3)
  proof (induction B arbitrary: t rule: rev_induct)
    case Nil
    then show ?case by simp
  next
    case (snoc r B)
    let ?i = "length A + length B"
    let ?t = "memblock_remove_region t ?i"
    have i: "?i < t_cnt t" using length_live [OF snoc.prems(1)] snoc.prems(2) by simp
    have l: "take ?i (live t) @ drop (Suc ?i) (live t) = A @ B @ C" "live t ! ?i = r"
      unfolding snoc.prems(2) by (simp_all add: nth_append)
    note rr = remove_region_live [OF snoc.prems(1) i, unfolded l]
    have "sum_list (map r_size (live t)) = sum_list (map r_size (A @ B @ C)) + r_size r"
      unfolding snoc.prems(2) by simp
    then have tot: "t_total_size ?t = sum_list (map r_size (A @ B @ C))"
      using rr(5) snoc.prems(3) by (simp add: total_ok_def)
    show ?case
    proof (cases "A @ B @ C = []")
      case True
      then show ?thesis using rr tot by (simp add: total_ok_def empty_region_def)
    next
      case False
      then have "live ?t = A @ B @ C" using rr(2) by simp
      moreover have "total_ok ?t" using tot calculation by (simp add: total_ok_def)
      moreover have "A @ C = [] \<Longrightarrow> B \<noteq> []" using False by simp
      ultimately show ?thesis using snoc.IH [OF rr(1)] rr(4) by auto
    qed
  qed
  then show "wf_array t'" "live t' = (if A @ C = [] then if B = [] then [] else [empty_region] else A @ C)"
    "total_ok t'" "t_loc t' = t_loc t" by auto
qed

lemma amap_separated_remove:
  assumes "separated lo hi A B C"
  shows "amap (A @ C) = map_clear (amap (A @ B @ C)) lo hi"
proof (rule ext)
  fix a
  show "amap (A @ C) a = map_clear (amap (A @ B @ C)) lo hi a"
  proof (cases "lo \<le> a \<and> a < hi")
    case True
    then have "a \<in> {lo..<hi}" by simp
    then have "amap (A @ C) a = None" using assms unfolding amap_None separated_def set_append by blast
    then show ?thesis using True by (simp add: map_clear_def)
  next
    case False
    then have "amap B a = None" using assms unfolding amap_None separated_def by fastforce
    then show ?thesis using False by (auto simp: map_clear_def amap_append split: option.splits)
  qed
qed

definition remove_outcome :: "which \<Rightarrow> u32 \<Rightarrow> u32 \<Rightarrow> memblock \<Rightarrow> int \<Rightarrow> memblock \<Rightarrow> bool" where
  "remove_outcome w base sz st r st' \<longleftrightarrow>
     (\<forall>w'. w' \<noteq> w \<longrightarrow> get_type w' st' = get_type w' st) \<and>
     (if r = 0
      then amap (live (get_type w st')) = map_clear (amap (live (get_type w st))) (unat base) (range_end base sz)
      else r = - ENOMEM \<and> live (get_type w st') = live (get_type w st) \<and>
           t_max (get_type w st) < t_cnt (get_type w st) + 2)"

lemma remove_separated:
  assumes "wf_type t" "total_ok t" "live t = A @ B @ C" "separated lo hi A B C" "rgn_indices A B = (s, d)"
    and "B \<noteq> [] \<longrightarrow> wf_regions (live t)"
  defines "t' \<equiv> remove_loop t s (d - s)"
  shows "wf_type t'" "total_ok t'" "t_loc t' = t_loc t" "amap (live t') = map_clear (amap (live t)) lo hi"
proof -
  have a: "wf_array t" using assms(1) by (simp add: wf_type_def)
  have "wf_type t' \<and> total_ok t' \<and> t_loc t' = t_loc t \<and> amap (live t') = map_clear (amap (live t)) lo hi"
  proof (cases "B = []")
    case True
    then have "t' = t" using assms(5) by (auto simp: t'_def rgn_indices_def)
    then show ?thesis using assms(1-3) amap_separated_remove [OF assms(4)] True by simp
  next
    case False
    then have eq: "t' = remove_loop t (length A) (length B)" using assms(5) by (auto simp: rgn_indices_def t'_def)
    note t' = remove_loop_live [OF a assms(3,2), folded eq]
    have w: "wf_regions (A @ C)" using assms(3,6) False by (auto simp: wf_regions_append)
    have "amap [empty_region] = amap []" by (rule ext) simp
    then have "amap (live t') = amap (A @ C)" unfolding t'(2) using False by simp
    then show ?thesis using t' w False amap_separated_remove [OF assms(4)] assms(3) by (auto simp: wf_type_def)
  qed
  then show "wf_type t'" "total_ok t'" "t_loc t' = t_loc t" "amap (live t') = map_clear (amap (live t)) lo hi" by auto
qed

section \<open>The contract of growing an array\<close>

lemma get_put_type [simp]:
  "get_type w (put_type w t st) = t" "w' \<noteq> w \<Longrightarrow> get_type w' (put_type w t st) = get_type w' st"
  by (cases w; cases w'; simp)+

lemma get_put_in_slab [simp]:
  "get_type w (put_in_slab w' b st) = get_type w st" "get_in_slab w (put_type w' t st) = get_in_slab w st"
  "get_in_slab w (put_in_slab w b st) = b" "w \<noteq> w' \<Longrightarrow> get_in_slab w (put_in_slab w' b st) = get_in_slab w st"
  "memblock_can_resize (put_type w t st) = memblock_can_resize st"
  "memblock_can_resize (put_in_slab w b st) = memblock_can_resize st"
  by (cases w; cases w'; simp)+

definition same_live :: "which \<Rightarrow> memblock \<Rightarrow> memblock \<Rightarrow> bool" where
  "same_live w st st' \<longleftrightarrow> live (get_type w st') = live (get_type w st) \<and>
     (\<forall>w'. w' \<noteq> w \<longrightarrow> get_type w' st' = get_type w' st)"

lemma same_live_refl [simp]: "same_live w st st"
  by (simp add: same_live_def)

lemma same_live_trans: "same_live w st st' \<Longrightarrow> same_live w st' st'' \<Longrightarrow> same_live w st st''"
  by (simp add: same_live_def)

text \<open>What the operations rely on: growing an array keeps the regions, and if it does not fail it
  doubles the capacity.\<close>

locale resizer =
  fixes dbl :: doubler and inv :: "memblock \<Rightarrow> bool"
  assumes dbl_total: "inv st \<Longrightarrow> \<exists>r st'. dbl w b s st = Some (r, st') \<and> inv st' \<and> same_live w st st' \<and>
      (r < 0 \<longrightarrow> st' = st) \<and> (0 \<le> r \<longrightarrow> t_max (get_type w st') = 2 * t_max (get_type w st))"
    and inv_wf: "inv st \<Longrightarrow> wf_type (get_type w st) \<and> total_ok (get_type w st)"
    and inv_put: "inv st \<Longrightarrow> wf_type t \<Longrightarrow> total_ok t \<Longrightarrow> t_loc t = t_loc (get_type w st) \<Longrightarrow> inv (put_type w t st)"
begin

lemma inv_array: "inv st \<Longrightarrow> wf_array (get_type w st)"
  using inv_wf [of st w] by (simp add: wf_type_def)

lemma same_cnt: "inv st \<Longrightarrow> inv st' \<Longrightarrow> same_live w st st' \<Longrightarrow> t_cnt (get_type w st') = t_cnt (get_type w st)"
  using length_live [OF inv_array [of st w]] length_live [OF inv_array [of st' w]] by (simp add: same_live_def)

lemma resize_total:
  assumes "inv st" "t_cnt (get_type w st) + n \<le> fuel + t_max (get_type w st)"
  shows "\<exists>ok st'. resize_loop (Suc fuel) dbl w n b s st = Some (ok, st') \<and> inv st' \<and> same_live w st st' \<and>
    t_max (get_type w st) \<le> t_max (get_type w st') \<and>
    (ok \<longleftrightarrow> t_cnt (get_type w st') + n \<le> t_max (get_type w st'))"
  using assms
proof (induction fuel arbitrary: st)
  case 0
  then show ?case by auto
next
  case (Suc fuel)
  show ?case
  proof (cases "t_cnt (get_type w st) + n > t_max (get_type w st)")
    case False
    then show ?thesis using Suc.prems(1) by auto
  next
    case True
    obtain r st1 where d: "dbl w b s st = Some (r, st1)" "inv st1" "same_live w st st1" "r < 0 \<longrightarrow> st1 = st"
        "0 \<le> r \<longrightarrow> t_max (get_type w st1) = 2 * t_max (get_type w st)"
      using dbl_total [OF Suc.prems(1)] by blast
    have c: "t_cnt (get_type w st1) = t_cnt (get_type w st)" by (rule same_cnt [OF Suc.prems(1) d(2,3)])
    have m: "1 \<le> t_max (get_type w st)" using inv_array [OF Suc.prems(1), of w] by (simp add: wf_array_def)
    show ?thesis
    proof (cases "r < 0")
      case r: True
      then have "resize_loop (Suc (Suc fuel)) dbl w n b s st = Some (False, st)" using True d by simp
      then show ?thesis using True Suc.prems(1) by auto
    next
      case False
      then have "t_max (get_type w st1) = 2 * t_max (get_type w st)" using d(5) by simp
      then have le: "t_cnt (get_type w st1) + n \<le> fuel + t_max (get_type w st1)" "t_max (get_type w st) \<le> t_max (get_type w st1)"
        using c m Suc.prems(2) by linarith+
      have eq: "resize_loop (Suc (Suc fuel)) dbl w n b s st = resize_loop (Suc fuel) dbl w n b s st1"
        using True False d(1) by simp
      from Suc.IH [OF d(2) le(1)] show ?thesis
        unfolding eq using d(3) same_live_trans le(2) by (blast intro: order_trans)
    qed
  qed
qed

lemma add_range_insert:
  assumes "inv st" "wf_array (get_type w st)" "wf_regions (live (get_type w st))" "r_size (t_regions (get_type w st) ! 0) \<noteq> 0"
    and "memblock_cap_size base sz \<noteq> 0"
    and "length (fill flags (base + memblock_cap_size base sz) base (live (get_type w st))) \<noteq> t_cnt (get_type w st)"
  shows "\<exists>r st'. memblock_add_range dbl w base sz flags st = Some (r, st') \<and> inv st' \<and> add_outcome w base sz flags st r st'"
proof -
  let ?t = "get_type w st" and ?s = "memblock_cap_size base sz"
  let ?F = "fill flags (base + ?s) base (live ?t)"
  let ?n = "length ?F - t_cnt ?t"
  have le: "t_cnt ?t \<le> length ?F" using length_fill [of "live ?t"] length_live [OF assms(2)] by simp
  then have n: "?n \<noteq> 0" using assms(6) by simp
  obtain ok st1 where r: "resize_loop (t_cnt ?t + ?n + 1) dbl w ?n base ?s st = Some (ok, st1)" "inv st1" "same_live w st st1"
      "t_max ?t \<le> t_max (get_type w st1)" "ok \<longleftrightarrow> t_cnt (get_type w st1) + ?n \<le> t_max (get_type w st1)"
    using resize_total [OF assms(1), of w ?n "t_cnt ?t + ?n" base ?s] by auto
  let ?t1 = "get_type w st1"
  have l: "live ?t1 = live ?t" and c: "t_cnt ?t1 = t_cnt ?t"
    using r(3) same_cnt [OF assms(1) r(2,3)] by (simp_all add: same_live_def)
  have eq: "memblock_add_range dbl w base sz flags st = (if \<not> ok then Some (- ENOMEM, st1) else
      case add_pass True flags base (base + ?s) ?t1 of None \<Rightarrow> None | Some (nr_new, t) \<Rightarrow>
        if nr_new = 0 then Some (0, put_type w t st1)
        else map_option (\<lambda>t. (0, put_type w t st1)) (memblock_merge_regions t))"
    using assms(4,5) add_pass_count [OF assms(2), of flags base "base + ?s"] n r(1) by (simp add: memblock_add_range_def Let_def)
  show ?thesis
  proof (cases ok)
    case False
    then have "t_max ?t < 2 * t_cnt ?t + 1"
      using r(4,5) c le length_fill_le [of flags "base + ?s" base "live ?t"] length_live [OF assms(2)] by linarith
    then show ?thesis unfolding eq using False r(2,3) l by (auto simp: add_outcome_def same_live_def errno_defs)
  next
    case True
    have w: "wf_array ?t1" "wf_regions (live ?t1)" "total_ok ?t1" "length (fill flags (base + ?s) base (live ?t1)) \<le> t_max ?t1"
      using inv_wf [OF r(2), of w] inv_array [OF r(2)] assms(3) l True r(5) c le by auto
    obtain t1 t2 where t: "add_pass True flags base (base + ?s) ?t1 = Some (length (fill flags (base + ?s) base (live ?t1)) - t_cnt ?t1, t1)"
        "memblock_merge_regions t1 = Some t2" "wf_type t2" "total_ok t2" "t_loc t2 = t_loc ?t1" "minimal (live t2)"
        "amap (live t2) = map_fill (amap (live ?t1)) (unat base) (unat (base + ?s)) flags"
      using insert_and_merge [OF w] .
    have "inv (put_type w t2 st1)" by (rule inv_put [OF r(2) t(3-5)])
    moreover have "memblock_add_range dbl w base sz flags st = Some (0, put_type w t2 st1)"
      unfolding eq using True t(1,2) l c n by simp
    ultimately show ?thesis using t(6,7) l r(3) cap_size(2) [of base sz] by (auto simp: add_outcome_def same_live_def)
  qed
qed

lemma add_range_total:
  assumes "inv st"
  shows "\<exists>r st'. memblock_add_range dbl w base sz flags st = Some (r, st') \<and> inv st' \<and> add_outcome w base sz flags st r st'"
proof -
  let ?t = "get_type w st" and ?s = "memblock_cap_size base sz"
  let ?F = "fill flags (base + ?s) base (live ?t)"
  note cap = cap_size [of base sz]
  have wf: "wf_type ?t" "total_ok ?t" using inv_wf [OF assms] by auto
  show ?thesis
  proof (cases "?s = 0")
    case True
    then have "memblock_add_range dbl w base sz flags st = Some (0, st)" by (simp add: memblock_add_range_def)
    then show ?thesis using assms map_fill_none [OF cap(4) [OF True]] by (auto simp: add_outcome_def)
  next
    case s: False
    show ?thesis using wf(1)
    proof (cases rule: wf_type_cases)
      case 1
      let ?t' = "?t\<lparr>t_regions := (t_regions ?t)[0 := \<lparr>r_base = base, r_size = ?s, r_flags = flags\<rparr>], t_total_size := ?s\<rparr>"
      note f = fill_empty_array [OF wf(1) 1(2) s cap(1), of flags]
      have "memblock_add_range dbl w base sz flags st = Some (0, put_type w ?t' st)"
        using s 1(3) by (simp add: memblock_add_range_def Let_def)
      moreover have "inv (put_type w ?t' st)" by (rule inv_put [OF assms f(1,2)]) simp
      ultimately show ?thesis using f(3,4) cap(2) by (auto simp: add_outcome_def)
    next
      case 2
      show ?thesis
      proof (cases "length ?F = t_cnt ?t")
        case True
        then have "memblock_add_range dbl w base sz flags st = Some (0, st)"
          using s 2(3) add_pass_count [OF 2(1)] by (simp add: memblock_add_range_def Let_def)
        moreover have "amap (live ?t) = map_fill (amap (live ?t)) (unat base) (range_end base sz) flags"
          using fill_same [of flags "base + ?s" base "live ?t"] True length_live [OF 2(1)]
            amap_fill_map [OF 2(2), of flags "base + ?s" base] cap(2) by simp
        ultimately show ?thesis using assms by (auto simp: add_outcome_def)
      next
        case False
        then show ?thesis by (rule add_range_insert [OF assms 2 s])
      qed
    qed
  qed
qed

lemma isolate_range_total:
  assumes "inv st"
  shows "\<exists>ret s d st'. memblock_isolate_range dbl w base sz st = Some (ret, s, d, st') \<and> inv st' \<and>
    (\<forall>w'. w' \<noteq> w \<longrightarrow> get_type w' st' = get_type w' st) \<and>
    (if ret = 0
     then amap (live (get_type w st')) = amap (live (get_type w st)) \<and>
       (\<exists>A B C. live (get_type w st') = A @ B @ C \<and> separated (unat base) (range_end base sz) A B C \<and>
         rgn_indices A B = (s, d) \<and> (B \<noteq> [] \<longrightarrow> wf_regions (live (get_type w st'))))
     else ret = - ENOMEM \<and> live (get_type w st') = live (get_type w st) \<and>
       t_max (get_type w st) < t_cnt (get_type w st) + 2)"
proof -
  let ?t = "get_type w st" and ?s = "memblock_cap_size base sz"
  note cap = cap_size [of base sz]
  show ?thesis
  proof (cases "?s = 0")
    case True
    then have "separated (unat base) (range_end base sz) (live ?t) [] []" using cap(4) by (auto simp: separated_def)
    moreover have "memblock_isolate_range dbl w base sz st = Some (0, 0, 0, st)"
      using True by (simp add: memblock_isolate_range_def)
    ultimately show ?thesis using assms by (force simp: rgn_indices_def)
  next
    case s: False
    obtain ok st1 where r: "resize_loop (t_cnt ?t + 3) dbl w 2 base ?s st = Some (ok, st1)" "inv st1" "same_live w st st1"
        "t_max ?t \<le> t_max (get_type w st1)" "ok \<longleftrightarrow> t_cnt (get_type w st1) + 2 \<le> t_max (get_type w st1)"
      using resize_total [OF assms, of w 2 "t_cnt ?t + 2" base ?s] by (auto simp: numeral_3_eq_3)
    let ?t1 = "get_type w st1"
    have l: "live ?t1 = live ?t" "\<forall>v. v \<noteq> w \<longrightarrow> get_type v st1 = get_type v st" and c: "t_cnt ?t1 = t_cnt ?t"
      using r(3) same_cnt [OF assms r(2,3)] by (simp_all add: same_live_def)
    show ?thesis
    proof (cases ok)
      case False
      then have "memblock_isolate_range dbl w base sz st = Some (- ENOMEM, 0, 0, st1)"
        using s r(1) by (simp add: memblock_isolate_range_def Let_def)
      then show ?thesis using False r(2,4,5) l c by (auto simp: errno_defs)
    next
      case True
      have wf: "wf_type ?t1" "total_ok ?t1" using inv_wf [OF r(2), of w] by auto
      obtain t' x y A B C where t': "isolate_loop (t_cnt ?t1 + 4) base (base + ?s) ?t1 0 0 0 = Some (t', x, y)"
          "wf_type t'" "total_ok t'" "t_loc t' = t_loc ?t1" "amap (live t') = amap (live ?t1)" "live t' = A @ B @ C"
          "separated (unat base) (unat (base + ?s)) A B C" "rgn_indices A B = (x, y)" "B \<noteq> [] \<Longrightarrow> wf_regions (live t')"
        using isolate_array [OF wf cap(3) [OF s]] True r(5) by blast
      have "memblock_isolate_range dbl w base sz st = Some (0, x, y, put_type w t' st1)"
        using s r(1) True t'(1) by (simp add: memblock_isolate_range_def Let_def)
      moreover have "inv (put_type w t' st1)" by (rule inv_put [OF r(2) t'(2-4)])
      ultimately show ?thesis using t'(5-9) l cap(2) by auto
    qed
  qed
qed

lemma remove_range_total:
  assumes "inv st"
  shows "\<exists>r st'. memblock_remove_range dbl w base sz st = Some (r, st') \<and> inv st' \<and> remove_outcome w base sz st r st'"
proof -
  obtain ret s d st1 where i: "memblock_isolate_range dbl w base sz st = Some (ret, s, d, st1)" "inv st1"
      "\<forall>w'. w' \<noteq> w \<longrightarrow> get_type w' st1 = get_type w' st"
      "if ret = 0
       then amap (live (get_type w st1)) = amap (live (get_type w st)) \<and>
         (\<exists>A B C. live (get_type w st1) = A @ B @ C \<and> separated (unat base) (range_end base sz) A B C \<and>
           rgn_indices A B = (s, d) \<and> (B \<noteq> [] \<longrightarrow> wf_regions (live (get_type w st1))))
       else ret = - ENOMEM \<and> live (get_type w st1) = live (get_type w st) \<and> t_max (get_type w st) < t_cnt (get_type w st) + 2"
    using isolate_range_total [OF assms, of w base sz] by blast
  show ?thesis
  proof (cases "ret = 0")
    case False
    then show ?thesis using i by (auto simp: memblock_remove_range_def remove_outcome_def)
  next
    case True
    let ?t' = "remove_loop (get_type w st1) s (d - s)"
    obtain A B C where abc: "live (get_type w st1) = A @ B @ C" "separated (unat base) (range_end base sz) A B C"
        "rgn_indices A B = (s, d)" "B \<noteq> [] \<longrightarrow> wf_regions (live (get_type w st1))"
        and m: "amap (live (get_type w st1)) = amap (live (get_type w st))"
      using i(4) unfolding if_P [OF True] by blast
    have wf: "wf_type (get_type w st1)" "total_ok (get_type w st1)" using inv_wf [OF i(2)] by auto
    note t' = remove_separated [OF wf abc]
    have "memblock_remove_range dbl w base sz st = Some (0, put_type w ?t' st1)"
      using i(1) True by (simp add: memblock_remove_range_def)
    moreover have "inv (put_type w ?t' st1)" by (rule inv_put [OF i(2) t'(1-3)])
    ultimately show ?thesis using t'(4) m i(3) by (auto simp: remove_outcome_def)
  qed
qed

end

section \<open>The arrays grow as the operations expect\<close>

text \<open>The invariant of the allocator: both arrays are well formed and their totals are the sums of
  the region sizes; an array that is not the static one was allocated by the slab allocator; and
  the arrays are not resized before the slab allocator runs.\<close>

definition memblock_inv :: "boot_env \<Rightarrow> memblock \<Rightarrow> bool" where
  "memblock_inv env st \<longleftrightarrow>
     (\<forall>w. wf_type (get_type w st) \<and> total_ok (get_type w st) \<and> (t_loc (get_type w st) \<noteq> None \<longrightarrow> get_in_slab w st)) \<and>
     (memblock_can_resize st \<longrightarrow> slab_is_available env)"

lemma memblock_inv_iff:
  "memblock_inv env st \<longleftrightarrow>
     (\<forall>w \<in> {Memory, Reserved}. wf_type (get_type w st) \<and> total_ok (get_type w st) \<and>
        (t_loc (get_type w st) \<noteq> None \<longrightarrow> get_in_slab w st)) \<and>
     (memblock_can_resize st \<longrightarrow> slab_is_available env)"
  unfolding memblock_inv_def by (metis (full_types) insertCI which.exhaust)

lemma grown_array:
  fixes addr
  assumes "wf_type t" "total_ok t"
  defines "t' \<equiv> t\<lparr>t_regions := t_regions t @ replicate (t_max t) empty_region, t_max := t_max t * 2, t_loc := Some addr\<rparr>"
  shows "live t' = live t" "wf_type t'" "total_ok t'" "t_max t' = 2 * t_max t"
proof -
  have a: "wf_array t" using assms(1) by (simp add: wf_type_def)
  then show l: "live t' = live t" by (simp add: live_def t'_def wf_array_def)
  have "wf_array t'" using a by (simp add: wf_array_def t'_def)
  then show "wf_type t'" using assms(1) l by (simp add: wf_type_def)
  show "total_ok t'" using assms(2) l by (simp add: total_ok_def t'_def)
  show "t_max t' = 2 * t_max t" by (simp add: t'_def)
qed

lemma double_array_total:
  assumes "memblock_inv env st"
  shows "\<exists>r st'. double_array dbl env w b s st = Some (r, st') \<and> memblock_inv env st' \<and> same_live w st st' \<and>
    (r < 0 \<longrightarrow> st' = st) \<and> (0 \<le> r \<longrightarrow> t_max (get_type w st') = 2 * t_max (get_type w st))"
proof (cases "memblock_can_resize st")
  case False
  then show ?thesis using assms by (auto simp: double_array_def)
next
  case True
  then have slab: "slab_is_available env" using assms by (simp add: memblock_inv_def)
  let ?t = "get_type w st"
  let ?addr = "new_array_addr env w b s (push_bit 1 (of_nat (t_max ?t) * sizeof_region)) st"
  show ?thesis
  proof (cases "?addr = 0")
    case z: True
    then show ?thesis using assms True by (auto simp: double_array_def Let_def)
  next
    case False
    let ?t' = "?t\<lparr>t_regions := t_regions ?t @ replicate (t_max ?t) empty_region, t_max := t_max ?t * 2, t_loc := Some ?addr\<rparr>"
    let ?st' = "put_in_slab w True (put_type w ?t' st)"
    have wf: "wf_type ?t" "total_ok ?t" "t_loc ?t \<noteq> None \<Longrightarrow> get_in_slab w st"
      using assms by (simp_all add: memblock_inv_def)
    note g = grown_array [OF wf(1,2), of ?addr]
    have d: "double_array dbl env w b s st = Some (0, ?st')"
      using True False slab wf(3) by (auto simp: double_array_def Let_def split: option.splits)
    have other: "get_type w' ?st' = get_type w' st" "get_in_slab w' ?st' = get_in_slab w' st" if "w' \<noteq> w" for w'
      using that by simp_all
    have "memblock_inv env ?st'"
      unfolding memblock_inv_def
    proof (intro conjI allI impI)
      fix w'
      show "wf_type (get_type w' ?st')" "total_ok (get_type w' ?st')" "t_loc (get_type w' ?st') \<noteq> None \<Longrightarrow> get_in_slab w' ?st'"
        using g(2,3) other [of w'] assms by (cases "w' = w"; simp add: memblock_inv_def)+
    qed (use slab in simp)
    moreover have "same_live w st ?st'" using g(1) other(1) by (simp add: same_live_def)
    ultimately show ?thesis using d g(4) by auto
  qed
qed

lemma memblock_inv_put:
  assumes "memblock_inv env st" "wf_type t" "total_ok t" "t_loc t = t_loc (get_type w st)"
  shows "memblock_inv env (put_type w t st)"
  unfolding memblock_inv_def
proof (intro conjI allI impI)
  fix w'
  show "wf_type (get_type w' (put_type w t st))" "total_ok (get_type w' (put_type w t st))"
    "t_loc (get_type w' (put_type w t st)) \<noteq> None \<Longrightarrow> get_in_slab w' (put_type w t st)"
    using assms by (cases "w' = w"; simp add: memblock_inv_def)+
qed (use assms(1) in \<open>simp add: memblock_inv_def\<close>)

lemma double_array_cases:
  obtains dbl where "memblock_double_array depth env = double_array dbl env"
  by (cases depth) auto

interpretation mb: resizer "memblock_double_array depth env" "memblock_inv env" for depth env
proof
  fix st w b s assume "memblock_inv env st"
  then show "\<exists>r st'. memblock_double_array depth env w b s st = Some (r, st') \<and> memblock_inv env st' \<and> same_live w st st' \<and>
      (r < 0 \<longrightarrow> st' = st) \<and> (0 \<le> r \<longrightarrow> t_max (get_type w st') = 2 * t_max (get_type w st))"
    using double_array_total double_array_cases [of depth env] by metis
next
  fix st w assume "memblock_inv env st"
  then show "wf_type (get_type w st) \<and> total_ok (get_type w st)" by (simp add: memblock_inv_def)
next
  fix st t w assume "memblock_inv env st" "wf_type t" "total_ok t" "t_loc t = t_loc (get_type w st)"
  then show "memblock_inv env (put_type w t st)" by (rule memblock_inv_put)
qed

section \<open>Setting and clearing flags\<close>

definition flag_change :: "bool \<Rightarrow> u32 \<Rightarrow> u32 \<Rightarrow> u32" where
  "flag_change set' flag f = (if set' then f OR flag else f AND NOT flag)"

definition change_region :: "bool \<Rightarrow> u32 \<Rightarrow> memblock_region \<Rightarrow> memblock_region" where
  "change_region set' flag r = r\<lparr>r_flags := flag_change set' flag (r_flags r)\<rparr>"

lemma change_region_props [simp]:
  "r_base (change_region set' flag r) = r_base r" "r_size (change_region set' flag r) = r_size r"
  "r_flags (change_region set' flag r) = flag_change set' flag (r_flags r)"
  by (simp_all add: change_region_def)

lemma setclr_loop_eq: "setclr_loop set' flag (xs @ ys @ zs) (length xs) (length ys) = xs @ map (change_region set' flag) ys @ zs"
proof (induction ys arbitrary: xs)
  case (Cons y ys)
  have "(if set' then memblock_set_region_flags flag y else memblock_clear_region_flags flag y) = change_region set' flag y"
    by (simp add: memblock_set_region_flags_def memblock_clear_region_flags_def change_region_def flag_change_def)
  then show ?case using Cons [of "xs @ [change_region set' flag y]"] by (cases set') (simp_all add: nth_append)
qed simp

lemma wf_regions_change: "wf_regions (A @ map (change_region set' flag) B @ C) \<longleftrightarrow> wf_regions (A @ B @ C)"
proof -
  have "wf_regions (map (change_region set' flag) B) \<longleftrightarrow> wf_regions B"
    by (simp add: wf_regions_def wf_region_def sorted_wrt_map)
  then show ?thesis by (simp add: wf_regions_append ball_Un)
qed

lemma amap_change: "amap (map (change_region set' flag) B) a = map_option (flag_change set' flag) (amap B a)"
  by (induction B) (simp_all add: raddrs_def)

lemma amap_separated_change:
  assumes "separated lo hi A B C"
  shows "amap (A @ map (change_region set' flag) B @ C) = map_flags (flag_change set' flag) (amap (A @ B @ C)) lo hi"
proof (rule ext)
  fix a
  show "amap (A @ map (change_region set' flag) B @ C) a = map_flags (flag_change set' flag) (amap (A @ B @ C)) lo hi a"
  proof (cases "lo \<le> a \<and> a < hi")
    case True
    then have "a \<in> {lo..<hi}" by simp
    then have "amap A a = None" "amap C a = None" using assms unfolding amap_None separated_def by blast+
    then show ?thesis using True by (auto simp: map_flags_def amap_append amap_change split: option.splits)
  next
    case False
    then have "amap B a = None" using assms unfolding amap_None separated_def by fastforce
    then show ?thesis using False by (auto simp: map_flags_def amap_append amap_change split: option.splits)
  qed
qed

definition flag_outcome :: "u32 \<Rightarrow> u32 \<Rightarrow> bool \<Rightarrow> u32 \<Rightarrow> memblock \<Rightarrow> int \<Rightarrow> memblock \<Rightarrow> bool" where
  "flag_outcome base sz set' flag st r st' \<longleftrightarrow>
     reserved st' = reserved st \<and>
     (if r = 0
      then amap (live (memory st')) = map_flags (flag_change set' flag) (amap (live (memory st))) (unat base) (range_end base sz) \<and>
           minimal (live (memory st'))
      else r = - ENOMEM \<and> live (memory st') = live (memory st) \<and> t_max (memory st) < t_cnt (memory st) + 2)"

text \<open>The flags are changed and the regions merged.\<close>

lemma setclr_array:
  assumes "wf_type t" "total_ok t" "live t = A @ B @ C" "separated lo hi A B C" "rgn_indices A B = (s, d)"
    and "B \<noteq> [] \<longrightarrow> wf_regions (live t)"
  obtains t' where "memblock_merge_regions (t\<lparr>t_regions := setclr_loop set' flag (t_regions t) s (d - s)\<rparr>) = Some t'"
    "wf_type t'" "total_ok t'" "t_loc t' = t_loc t" "minimal (live t')"
    "amap (live t') = map_flags (flag_change set' flag) (amap (live t)) lo hi"
proof -
  let ?rs = "setclr_loop set' flag (t_regions t) s (d - s)"
  let ?t = "t\<lparr>t_regions := ?rs\<rparr>"
  let ?L = "A @ map (change_region set' flag) B @ C"
  have a: "wf_array t" using assms(1) by (simp add: wf_type_def)
  have tr: "t_regions t = A @ B @ C @ drop (t_cnt t) (t_regions t)"
    using assms(3) append_take_drop_id [of "t_cnt t" "t_regions t"] by (simp add: live_def)
  have "?rs = ?L @ drop (t_cnt t) (t_regions t)"
  proof (cases "B = []")
    case True
    then show ?thesis using assms(5) tr by (auto simp: rgn_indices_def)
  next
    case False
    then have "s = length A" "d - s = length B" using assms(5) by (auto simp: rgn_indices_def)
    then show ?thesis using setclr_loop_eq [of set' flag A B "C @ drop (t_cnt t) (t_regions t)"] by (subst tr) simp
  qed
  moreover have n: "length ?L = t_cnt t" using assms(3) length_live [OF a] by simp
  ultimately have t: "wf_array ?t" "live ?t = ?L"
    using a by (auto simp: wf_array_def live_def)
  have tot: "total_ok ?t" using assms(2,3) unfolding total_ok_def t(2) by (simp add: comp_def)
  note am = amap_separated_change [OF assms(4), of set' flag, folded assms(3) t(2)]
  show ?thesis using assms(1)
  proof (cases rule: wf_type_cases)
    case 1
    then have "B = []" using assms(6) by (auto simp: wf_regions_def wf_region_def empty_region_def)
    then have l: "live ?t = [empty_region]" using t(2) assms(3) 1(2) by simp
    moreover have "memblock_merge_regions ?t = Some ?t"
      unfolding memblock_merge_regions_def by (subst merge_loop.simps) (simp add: 1(1))
    ultimately show ?thesis using that t(1) tot am by (simp add: wf_type_def minimal_def)
  next
    case 2
    have w: "wf_regions (live ?t)" unfolding t(2) wf_regions_change using 2(2) assms(3) by simp
    obtain t' where t': "memblock_merge_regions ?t = Some t'" "wf_array t'" "live t' = merge_list (live ?t)"
        "t_total_size t' = t_total_size ?t" "t_loc t' = t_loc ?t"
      using memblock_merge_regions_live [OF t(1) w] by blast
    have "total_ok t'" using tot unfolding total_ok_def t'(3,4) merge_list_sum .
    then show ?thesis using that [OF t'(1)] t'(2,3,5) merge_list_wf [OF w] am merge_list_minimal [of "live ?t"]
      by (simp add: wf_type_def minimal_def)
  qed
qed

lemma memblock_setclr_flag_total:
  assumes "memblock_inv env st"
  shows "\<exists>r st'. memblock_setclr_flag env base sz set' flag st = Some (r, st') \<and> memblock_inv env st' \<and>
    flag_outcome base sz set' flag st r st'"
proof -
  obtain ret s d st1 where i: "memblock_isolate_range (memblock_double_array RESIZE_DEPTH env) Memory base sz st = Some (ret, s, d, st1)"
      "memblock_inv env st1" "\<forall>w'. w' \<noteq> Memory \<longrightarrow> get_type w' st1 = get_type w' st"
      "if ret = 0
       then amap (live (get_type Memory st1)) = amap (live (get_type Memory st)) \<and>
         (\<exists>A B C. live (get_type Memory st1) = A @ B @ C \<and> separated (unat base) (range_end base sz) A B C \<and>
           rgn_indices A B = (s, d) \<and> (B \<noteq> [] \<longrightarrow> wf_regions (live (get_type Memory st1))))
       else ret = - ENOMEM \<and> live (get_type Memory st1) = live (get_type Memory st) \<and>
         t_max (get_type Memory st) < t_cnt (get_type Memory st) + 2"
    using mb.isolate_range_total [OF assms, of RESIZE_DEPTH Memory base sz] by blast
  have res: "reserved st1 = reserved st" using i(3) [rule_format, of Reserved] by simp
  show ?thesis
  proof (cases "ret = 0")
    case False
    then show ?thesis using i(1,2,4) res by (auto simp: memblock_setclr_flag_def flag_outcome_def)
  next
    case True
    obtain A B C where abc: "live (memory st1) = A @ B @ C" "separated (unat base) (range_end base sz) A B C"
        "rgn_indices A B = (s, d)" "B \<noteq> [] \<longrightarrow> wf_regions (live (memory st1))"
        and m: "amap (live (memory st1)) = amap (live (memory st))"
      using i(4) unfolding if_P [OF True] get_type.simps by blast
    have wf: "wf_type (memory st1)" "total_ok (memory st1)" using mb.inv_wf [OF i(2), of Memory] by auto
    obtain t' where t': "memblock_merge_regions ((memory st1)\<lparr>t_regions := setclr_loop set' flag (t_regions (memory st1)) s (d - s)\<rparr>) = Some t'"
        "wf_type t'" "total_ok t'" "t_loc t' = t_loc (memory st1)" "minimal (live t')"
        "amap (live t') = map_flags (flag_change set' flag) (amap (live (memory st1))) (unat base) (range_end base sz)"
      using setclr_array [OF wf abc] .
    have "memblock_setclr_flag env base sz set' flag st = Some (0, st1\<lparr>memory := t'\<rparr>)"
      using i(1) True t'(1) by (simp add: memblock_setclr_flag_def Let_def)
    moreover have "memblock_inv env (st1\<lparr>memory := t'\<rparr>)" using memblock_inv_put [OF i(2) t'(2,3), of Memory] t'(4) by simp
    ultimately show ?thesis using t'(5,6) m res by (auto simp: flag_outcome_def)
  qed
qed

section \<open>Properties\<close>

definition early_env :: boot_env where
  "early_env = \<lparr>slab_is_available = False, kmalloc_pa = (\<lambda>sz. 0), kernel_end = 0\<rparr>"

lemma example_inv: "memblock_inv early_env example_memblock"
  using wf_one_region unfolding memblock_inv_iff
  by (simp add: example_memblock_def init_memblock_def early_env_def one_region_def)


text \<open>C1: Adding a range refines the abstract update of the map from addresses to flags. In every
  state that satisfies the invariant, \<^verbatim>\<open>memblock_add_range\<close> returns (no \<^verbatim>\<open>BUG_ON\<close> fires and its
  loops end), keeps the invariant and leaves the other array alone. If it returns zero, the addresses of
  the range that were not covered before carry the given flags, all others are as before, and a minimal
  array stays minimal; otherwise it returns \<^verbatim>\<open>-ENOMEM\<close>, nothing has changed, and the array was too
  small.\<close>

theorem memblock_add_range_refines:
  assumes "memblock_inv env st"
  shows "\<exists>r st'. memblock_add_range (memblock_double_array depth env) w base sz flags st = Some (r, st') \<and>
    memblock_inv env st' \<and> add_outcome w base sz flags st r st'"
  by (rule mb.add_range_total [OF assms])

theorem memblock_add_range_refines_witness:
  "\<exists>r st'. memblock_add_range (memblock_double_array 2 early_env) Reserved 0x50000000 0x1000 0 example_memblock = Some (r, st') \<and>
    memblock_inv early_env st' \<and> add_outcome Reserved 0x50000000 0x1000 0 example_memblock r st'"
  by (rule memblock_add_range_refines [OF example_inv])

text \<open>C4: Removing a range refines clearing it in the map from addresses to flags: under the invariant
  \<^verbatim>\<open>memblock_remove_range\<close> returns, keeps the invariant and leaves the other array alone; on success
  exactly the addresses of the range are gone, and on \<^verbatim>\<open>-ENOMEM\<close> nothing has changed and the array had
  no room for the two regions that a split may add.\<close>

theorem memblock_remove_range_refines:
  assumes "memblock_inv env st"
  shows "\<exists>r st'. memblock_remove_range (memblock_double_array depth env) w base sz st = Some (r, st') \<and>
    memblock_inv env st' \<and> remove_outcome w base sz st r st'"
  by (rule mb.remove_range_total [OF assms])

theorem memblock_remove_range_refines_witness:
  "\<exists>r st'. memblock_remove_range (memblock_double_array 2 early_env) Memory 0x50000000 0x1000 example_memblock = Some (r, st') \<and>
    memblock_inv early_env st' \<and> remove_outcome Memory 0x50000000 0x1000 example_memblock r st'"
  by (rule memblock_remove_range_refines [OF example_inv])

text \<open>C6: Marking a range sets or clears the flag on exactly the addresses of the range that are memory,
  merges the regions again and keeps the invariant; it fails only with \<^verbatim>\<open>-ENOMEM\<close>, without effect.\<close>

theorem memblock_setclr_flag_refines:
  assumes "memblock_inv env st"
  shows "\<exists>r st'. memblock_setclr_flag env base sz set' flag st = Some (r, st') \<and> memblock_inv env st' \<and>
    flag_outcome base sz set' flag st r st'"
  by (rule memblock_setclr_flag_total [OF assms])

theorem memblock_setclr_flag_refines_witness:
  "\<exists>r st'. memblock_setclr_flag early_env 0x50000000 0x100000 True MEMBLOCK_NOMAP example_memblock = Some (r, st') \<and>
    memblock_inv early_env st' \<and> flag_outcome 0x50000000 0x100000 True MEMBLOCK_NOMAP example_memblock r st'"
  by (rule memblock_setclr_flag_refines [OF example_inv])




text \<open>C7: Reserving a range that meets no reserved byte and freeing it again restores the reserved
  addresses, whatever regions were merged or split in between.\<close>

theorem memblock_reserve_free:
  assumes "memblock_inv env st" "addrs (live (reserved st)) \<inter> {unat base..<range_end base sz} = {}"
    and "memblock_reserve env base sz st = Some (0, st1)" "memblock_free env base sz st1 = Some (0, st2)"
  shows "amap (live (reserved st2)) = amap (live (reserved st)) \<and> memory st2 = memory st"
proof -
  have 1: "memblock_inv env st1" "add_outcome Reserved base sz 0 st 0 st1"
    using mb.add_range_total [OF assms(1), of RESIZE_DEPTH Reserved base sz 0] assms(3) by (auto simp: memblock_reserve_def)
  have 2: "remove_outcome Reserved base sz st1 0 st2"
    using mb.remove_range_total [OF 1(1), of RESIZE_DEPTH Reserved base sz] assms(4) by (auto simp: memblock_free_def)
  have none: "amap (live (reserved st)) a = None" if "unat base \<le> a" "a < range_end base sz" for a
    using assms(2) that unfolding dom_amap [symmetric] by auto
  have "amap (live (reserved st2)) = map_clear (map_fill (amap (live (reserved st))) (unat base) (range_end base sz) 0)
      (unat base) (range_end base sz)"
    using 1(2) 2 by (simp add: add_outcome_def remove_outcome_def)
  also have "\<dots> = amap (live (reserved st))"
    by (rule ext) (auto simp: map_clear_def map_fill_def none split: option.splits)
  finally show ?thesis
    using 1(2) 2 by (metis (full_types) add_outcome_def get_type.simps(1) remove_outcome_def which.distinct(1))
qed

theorem memblock_reserve_free_witness:
  "\<exists>st1 st2. memblock_reserve early_env 0x50000000 0x1000 example_memblock = Some (0, st1) \<and>
    memblock_free early_env 0x50000000 0x1000 st1 = Some (0, st2) \<and>
    amap (live (reserved st2)) = amap (live (reserved example_memblock)) \<and> memory st2 = memory example_memblock"
proof -
  let ?st1 = "snd (the (memblock_reserve early_env 0x50000000 0x1000 example_memblock))"
  let ?st2 = "snd (the (memblock_free early_env 0x50000000 0x1000 ?st1))"
  have 1: "memblock_reserve early_env 0x50000000 0x1000 example_memblock = Some (0, ?st1)" by code_simp
  have 2: "memblock_free early_env 0x50000000 0x1000 ?st1 = Some (0, ?st2)" by code_simp
  have "addrs (live (reserved example_memblock)) \<inter> {unat (0x50000000 :: u32)..<range_end 0x50000000 0x1000} = {}"
    by (simp add: example_memblock_def one_region_def live_def addrs_def raddrs_def)
  from memblock_reserve_free [OF example_inv this 1 2] show ?thesis using 1 2 by blast
qed

end
