(* ===== verification/Memblock_Api.thy ===== *)
theory Memblock_Api
  imports Memblock_Ops
begin

text \<open>
  The allocation and query functions of the boot memory allocator, \<^verbatim>\<open>mm/memblock.c\<close>: the
  \<^verbatim>\<open>memblock_alloc\<close> family, \<^verbatim>\<open>memblock_virt_alloc\<close>, limits on the memory, trimming, and
  the functions that ask whether an address is memory or reserved.

  An allocation returns the physical address, zero for failure; \<^verbatim>\<open>panic\<close> and \<^verbatim>\<open>BUG_ON\<close> are
  \<open>None\<close>. The virtual address that \<^verbatim>\<open>memblock_virt_alloc\<close> returns is identified with the physical
  one, clearing the block and the calls to kmemleak are left out, and the block that
  \<^verbatim>\<open>kzalloc_node\<close> returns once the slab allocator runs is a parameter.
\<close>

section \<open>Allocation\<close>

definition SMP_CACHE_BYTES :: u32 where "SMP_CACHE_BYTES = 64"

definition memblock_alloc_range_nid ::
  "boot_env \<Rightarrow> u32 \<Rightarrow> u32 \<Rightarrow> u32 \<Rightarrow> u32 \<Rightarrow> int \<Rightarrow> u32 \<Rightarrow> memblock \<Rightarrow> (u32 \<times> memblock) option" where
  "memblock_alloc_range_nid env sz align start end' nid flags st =
     (let align = if align = 0 then SMP_CACHE_BYTES else align;
          found = memblock_find_in_range_node (kernel_end env) st sz align start end' nid flags
      in if found = 0 then Some (0, st)
         else map_option (\<lambda>(r, st'). (if r = 0 then found else 0, st')) (memblock_reserve env found sz st))"

definition memblock_alloc_range ::
  "boot_env \<Rightarrow> u32 \<Rightarrow> u32 \<Rightarrow> u32 \<Rightarrow> u32 \<Rightarrow> u32 \<Rightarrow> memblock \<Rightarrow> (u32 \<times> memblock) option" where
  "memblock_alloc_range env sz align start end' flags = memblock_alloc_range_nid env sz align start end' NUMA_NO_NODE flags"

definition memblock_alloc_base_nid ::
  "boot_env \<Rightarrow> u32 \<Rightarrow> u32 \<Rightarrow> u32 \<Rightarrow> int \<Rightarrow> u32 \<Rightarrow> memblock \<Rightarrow> (u32 \<times> memblock) option" where
  "memblock_alloc_base_nid env sz align max_addr nid flags = memblock_alloc_range_nid env sz align 0 max_addr nid flags"

definition memblock_alloc_nid :: "boot_env \<Rightarrow> u32 \<Rightarrow> u32 \<Rightarrow> int \<Rightarrow> memblock \<Rightarrow> (u32 \<times> memblock) option" where
  "memblock_alloc_nid env sz align nid st =
     (let flags = choose_memblock_flags st
      in case memblock_alloc_base_nid env sz align MEMBLOCK_ALLOC_ACCESSIBLE nid flags st of
           None \<Rightarrow> None
         | Some (ret, st) \<Rightarrow>
             if ret = 0 \<and> flags AND MEMBLOCK_MIRROR \<noteq> 0
             then memblock_alloc_base_nid env sz align MEMBLOCK_ALLOC_ACCESSIBLE nid (flags AND NOT MEMBLOCK_MIRROR) st
             else Some (ret, st))"

definition memblock_alloc_base' :: "boot_env \<Rightarrow> u32 \<Rightarrow> u32 \<Rightarrow> u32 \<Rightarrow> memblock \<Rightarrow> (u32 \<times> memblock) option" where
  "memblock_alloc_base' env sz align max_addr = memblock_alloc_base_nid env sz align max_addr NUMA_NO_NODE MEMBLOCK_NONE"

definition memblock_alloc_base :: "boot_env \<Rightarrow> u32 \<Rightarrow> u32 \<Rightarrow> u32 \<Rightarrow> memblock \<Rightarrow> (u32 \<times> memblock) option" where
  "memblock_alloc_base env sz align max_addr st =
     (case memblock_alloc_base' env sz align max_addr st of
        None \<Rightarrow> None
      | Some (alloc, st) \<Rightarrow> if alloc = 0 then None else Some (alloc, st))"

definition memblock_alloc :: "boot_env \<Rightarrow> u32 \<Rightarrow> u32 \<Rightarrow> memblock \<Rightarrow> (u32 \<times> memblock) option" where
  "memblock_alloc env sz align = memblock_alloc_base env sz align MEMBLOCK_ALLOC_ACCESSIBLE"

definition memblock_alloc_try_nid :: "boot_env \<Rightarrow> u32 \<Rightarrow> u32 \<Rightarrow> int \<Rightarrow> memblock \<Rightarrow> (u32 \<times> memblock) option" where
  "memblock_alloc_try_nid env sz align nid st =
     (case memblock_alloc_nid env sz align nid st of
        None \<Rightarrow> None
      | Some (res, st) \<Rightarrow>
          if res \<noteq> 0 then Some (res, st)
          else memblock_alloc_base env sz align MEMBLOCK_ALLOC_ACCESSIBLE st)"

text \<open>The part of \<^verbatim>\<open>memblock_virt_alloc_internal\<close> from the label \<^verbatim>\<open>again\<close>: each jump back first
  drops the lower limit, then the wish for mirrored memory.\<close>

lemma clear_mirror: "(flags AND NOT MEMBLOCK_MIRROR) AND MEMBLOCK_MIRROR = 0"
  by (rule bit_eqI) (auto simp: bit_and_iff bit_not_iff)

function virt_alloc_again :: "boot_env \<Rightarrow> u32 \<Rightarrow> u32 \<Rightarrow> u32 \<Rightarrow> u32 \<Rightarrow> int \<Rightarrow> u32 \<Rightarrow> memblock \<Rightarrow> u32" where
  "virt_alloc_again env sz align min_addr max_addr nid flags st =
     (let alloc = memblock_find_in_range_node (kernel_end env) st sz align min_addr max_addr nid flags
      in if alloc \<noteq> 0 then alloc
         else let alloc = (if nid \<noteq> NUMA_NO_NODE
                           then memblock_find_in_range_node (kernel_end env) st sz align min_addr max_addr NUMA_NO_NODE flags
                           else 0)
              in if alloc \<noteq> 0 then alloc
                 else if min_addr \<noteq> 0 then virt_alloc_again env sz align 0 max_addr nid flags st
                 else if flags AND MEMBLOCK_MIRROR \<noteq> 0
                 then virt_alloc_again env sz align min_addr max_addr nid (flags AND NOT MEMBLOCK_MIRROR) st
                 else 0)"
  by pat_completeness auto
termination
  by (relation "measure (\<lambda>(env, sz, align, min_addr, max_addr, nid, flags, st).
      (if min_addr \<noteq> 0 then 1 else 0) + (if flags AND MEMBLOCK_MIRROR \<noteq> 0 then 1 else 0))")
    (auto simp: clear_mirror)

declare virt_alloc_again.simps [simp del]

definition memblock_virt_alloc_internal ::
  "boot_env \<Rightarrow> (u32 \<Rightarrow> int \<Rightarrow> u32) \<Rightarrow> u32 \<Rightarrow> u32 \<Rightarrow> u32 \<Rightarrow> u32 \<Rightarrow> int \<Rightarrow> memblock \<Rightarrow> (u32 \<times> memblock) option" where
  "memblock_virt_alloc_internal env kzalloc_node sz align min_addr max_addr nid st =
     (let flags = choose_memblock_flags st;
          nid = if nid = MAX_NUMNODES then NUMA_NO_NODE else nid
      in if slab_is_available env then Some (kzalloc_node sz nid, st)
         else let align = if align = 0 then SMP_CACHE_BYTES else align;
                  max_addr = if max_addr > current_limit st then current_limit st else max_addr;
                  alloc = virt_alloc_again env sz align min_addr max_addr nid flags st
              in if alloc = 0 then Some (0, st)
                 else map_option (\<lambda>(r, st'). (alloc, st')) (memblock_reserve env alloc sz st))"

definition memblock_virt_alloc_try_nid_nopanic ::
  "boot_env \<Rightarrow> (u32 \<Rightarrow> int \<Rightarrow> u32) \<Rightarrow> u32 \<Rightarrow> u32 \<Rightarrow> u32 \<Rightarrow> u32 \<Rightarrow> int \<Rightarrow> memblock \<Rightarrow> (u32 \<times> memblock) option" where
  "memblock_virt_alloc_try_nid_nopanic env kzalloc_node sz align min_addr max_addr nid =
     memblock_virt_alloc_internal env kzalloc_node sz align min_addr max_addr nid"

definition memblock_virt_alloc_try_nid ::
  "boot_env \<Rightarrow> (u32 \<Rightarrow> int \<Rightarrow> u32) \<Rightarrow> u32 \<Rightarrow> u32 \<Rightarrow> u32 \<Rightarrow> u32 \<Rightarrow> int \<Rightarrow> memblock \<Rightarrow> (u32 \<times> memblock) option" where
  "memblock_virt_alloc_try_nid env kzalloc_node sz align min_addr max_addr nid st =
     (case memblock_virt_alloc_internal env kzalloc_node sz align min_addr max_addr nid st of
        None \<Rightarrow> None
      | Some (ptr, st) \<Rightarrow> if ptr \<noteq> 0 then Some (ptr, st) else None)"

definition memblock_free_early :: "boot_env \<Rightarrow> u32 \<Rightarrow> u32 \<Rightarrow> memblock \<Rightarrow> memblock option" where
  "memblock_free_early env base sz st =
     map_option snd (memblock_remove_range (memblock_double_array RESIZE_DEPTH env) Reserved base sz st)"

definition PAGE_SHIFT :: nat where "PAGE_SHIFT = 12"
definition PFN_UP :: "u32 \<Rightarrow> u32" where "PFN_UP x = drop_bit PAGE_SHIFT (x + PAGE_SIZE - 1)"
definition PFN_DOWN :: "u32 \<Rightarrow> u32" where "PFN_DOWN x = drop_bit PAGE_SHIFT x"
definition PFN_PHYS :: "u32 \<Rightarrow> u32" where "PFN_PHYS x = push_bit PAGE_SHIFT x"

text \<open>\<^verbatim>\<open>__memblock_free_late\<close>: the page frames given to the page allocator, and the new count of
  pages.\<close>

definition memblock_free_late :: "u32 \<Rightarrow> u32 \<Rightarrow> nat \<Rightarrow> nat list \<times> nat" where
  "memblock_free_late base sz totalram_pages =
     (let pfns = [unat (PFN_UP base)..<unat (PFN_DOWN (base + sz))]
      in (pfns, totalram_pages + length pfns))"

section \<open>Sizes and limits\<close>

definition memblock_phys_mem_size :: "memblock \<Rightarrow> u32" where
  "memblock_phys_mem_size st = t_total_size (memory st)"

definition memblock_reserved_size :: "memblock \<Rightarrow> u32" where
  "memblock_reserved_size st = t_total_size (reserved st)"

definition memblock_region_memory_base_pfn :: "memblock_region \<Rightarrow> u32" where
  "memblock_region_memory_base_pfn r = PFN_UP (r_base r)"

definition memblock_region_memory_end_pfn :: "memblock_region \<Rightarrow> u32" where
  "memblock_region_memory_end_pfn r = PFN_DOWN (r_base r + r_size r)"

definition memblock_region_reserved_base_pfn :: "memblock_region \<Rightarrow> u32" where
  "memblock_region_reserved_base_pfn r = PFN_DOWN (r_base r)"

definition memblock_region_reserved_end_pfn :: "memblock_region \<Rightarrow> u32" where
  "memblock_region_reserved_end_pfn r = PFN_UP (r_base r + r_size r)"

definition memblock_mem_size :: "memblock \<Rightarrow> u32 \<Rightarrow> u32" where
  "memblock_mem_size st limit_pfn =
     PFN_PHYS (fold (\<lambda>r pages. pages + (min (memblock_region_memory_end_pfn r) limit_pfn -
                                       min (memblock_region_memory_base_pfn r) limit_pfn))
                 (take (t_cnt (memory st)) (t_regions (memory st))) 0)"

definition memblock_start_of_DRAM :: "memblock \<Rightarrow> u32" where
  "memblock_start_of_DRAM st = r_base (t_regions (memory st) ! 0)"

definition memblock_end_of_DRAM :: "memblock \<Rightarrow> u32" where
  "memblock_end_of_DRAM st =
     (let idx = t_cnt (memory st) - 1
      in r_base (t_regions (memory st) ! idx) + r_size (t_regions (memory st) ! idx))"

fun max_addr_loop :: "memblock_region list \<Rightarrow> u32 \<Rightarrow> u32" where
  "max_addr_loop [] limit = - 1"
| "max_addr_loop (r # rs) limit = (if limit \<le> r_size r then r_base r + limit else max_addr_loop rs (limit - r_size r))"

definition find_max_addr :: "memblock \<Rightarrow> u32 \<Rightarrow> u32" where
  "find_max_addr st limit = max_addr_loop (take (t_cnt (memory st)) (t_regions (memory st))) limit"

definition memblock_enforce_memory_limit :: "boot_env \<Rightarrow> u32 \<Rightarrow> memblock \<Rightarrow> memblock option" where
  "memblock_enforce_memory_limit env limit st =
     (if limit = 0 then Some st
      else let max_addr = find_max_addr st limit
           in if max_addr = - 1 then Some st
              else case memblock_remove_range (memblock_double_array RESIZE_DEPTH env) Memory max_addr (- 1) st of
                  None \<Rightarrow> None
                | Some (_, st) \<Rightarrow>
                    map_option snd (memblock_remove_range (memblock_double_array RESIZE_DEPTH env) Reserved max_addr (- 1) st))"

text \<open>\<^verbatim>\<open>for (i = end_rgn - 1; i >= start_rgn; i--)\<close> of \<^verbatim>\<open>memblock_mem_limit_remove_map\<close>, with
  \<open>n = end_rgn - start_rgn\<close>.\<close>

fun remove_map_loop :: "memblock_type \<Rightarrow> nat \<Rightarrow> nat \<Rightarrow> memblock_type" where
  "remove_map_loop t start_rgn 0 = t"
| "remove_map_loop t start_rgn (Suc n) =
     remove_map_loop
       (if \<not> memblock_is_nomap (t_regions t ! (start_rgn + n)) then memblock_remove_region t (start_rgn + n) else t)
       start_rgn n"

definition memblock_mem_limit_remove_map :: "boot_env \<Rightarrow> u32 \<Rightarrow> memblock \<Rightarrow> memblock option" where
  "memblock_mem_limit_remove_map env limit st =
     (if limit = 0 then Some st
      else let max_addr = find_max_addr st limit
           in if max_addr = - 1 then Some st
              else case memblock_isolate_range (memblock_double_array RESIZE_DEPTH env) Memory max_addr (- 1) st of
                  None \<Rightarrow> None
                | Some (ret, start_rgn, end_rgn, st) \<Rightarrow>
                    if ret \<noteq> 0 then Some st
                    else map_option snd
                      (memblock_remove_range (memblock_double_array RESIZE_DEPTH env) Reserved max_addr (- 1)
                        (st\<lparr>memory := remove_map_loop (memory st) start_rgn (end_rgn - start_rgn)\<rparr>)))"

definition memblock_set_current_limit :: "u32 \<Rightarrow> memblock \<Rightarrow> memblock" where
  "memblock_set_current_limit limit st = st\<lparr>current_limit := limit\<rparr>"

definition memblock_get_current_limit :: "memblock \<Rightarrow> u32" where
  "memblock_get_current_limit st = current_limit st"

definition memblock_allow_resize :: "memblock \<Rightarrow> memblock" where
  "memblock_allow_resize st = st\<lparr>memblock_can_resize := True\<rparr>"

section \<open>Queries\<close>

definition memblock_is_reserved :: "memblock \<Rightarrow> u32 \<Rightarrow> bool" where
  "memblock_is_reserved st addr \<longleftrightarrow> memblock_search (reserved st) addr \<noteq> - 1"

definition memblock_is_memory :: "memblock \<Rightarrow> u32 \<Rightarrow> bool" where
  "memblock_is_memory st addr \<longleftrightarrow> memblock_search (memory st) addr \<noteq> - 1"

definition memblock_is_map_memory :: "memblock \<Rightarrow> u32 \<Rightarrow> bool" where
  "memblock_is_map_memory st addr \<longleftrightarrow>
     (let i = memblock_search (memory st) addr
      in if i = - 1 then False else \<not> memblock_is_nomap (t_regions (memory st) ! nat i))"

definition memblock_is_region_memory :: "memblock \<Rightarrow> u32 \<Rightarrow> u32 \<Rightarrow> bool" where
  "memblock_is_region_memory st base sz \<longleftrightarrow>
     (let idx = memblock_search (memory st) base;
          end' = base + memblock_cap_size base sz;
          r = t_regions (memory st) ! nat idx
      in if idx = - 1 then False else r_base r \<le> base \<and> r_base r + r_size r \<ge> end')"

definition memblock_is_region_reserved :: "memblock \<Rightarrow> u32 \<Rightarrow> u32 \<Rightarrow> bool" where
  "memblock_is_region_reserved st base sz \<longleftrightarrow> memblock_overlaps_region (reserved st) base (memblock_cap_size base sz)"

definition memblock_reserved_memory_within :: "memblock \<Rightarrow> u32 \<Rightarrow> u32 \<Rightarrow> u32" where
  "memblock_reserved_memory_within st start_addr end_addr =
     fold (\<lambda>r sz. if r_base r + r_size r < start_addr then sz
                  else if r_base r > end_addr then sz
                  else sz + (r_base r + r_size r - r_base r))
       (take (t_cnt (reserved st)) (t_regions (reserved st))) 0"

text \<open>\<^verbatim>\<open>__next_reserved_mem_region\<close>: the inclusive bounds of the next region and the next index;
  \<open>None\<close> is the end of the iteration.\<close>

definition next_reserved_mem_region :: "memblock \<Rightarrow> nat \<Rightarrow> (u32 \<times> u32 \<times> nat) option" where
  "next_reserved_mem_region st idx =
     (if idx < t_cnt (reserved st)
      then let r = t_regions (reserved st) ! idx
           in Some (r_base r, r_base r + r_size r - 1, idx + 1)
      else None)"

section \<open>Trimming\<close>

text \<open>The loop of \<^verbatim>\<open>memblock_trim_memory\<close>; \<open>i\<close> is the index of \<^verbatim>\<open>r\<close>. A removal keeps the index, and
  leaves at least the empty entry, so that the loop takes as many rounds as there were entries,
  and one more.\<close>

primrec trim_loop :: "nat \<Rightarrow> u32 \<Rightarrow> memblock_type \<Rightarrow> nat \<Rightarrow> memblock_type option" where
  "trim_loop 0 align t i = None"
| "trim_loop (Suc fuel) align t i =
     (if i < t_cnt t
      then let r = t_regions t ! i;
               orig_start = r_base r;
               orig_end = r_base r + r_size r;
               start = round_up orig_start align;
               end' = round_down orig_end align
           in if start = orig_start \<and> end' = orig_end then trim_loop fuel align t (i + 1)
              else if start < end'
              then trim_loop fuel align
                     (t\<lparr>t_regions := (t_regions t)[i := r\<lparr>r_base := start, r_size := end' - start\<rparr>]\<rparr>) (i + 1)
              else trim_loop fuel align (memblock_remove_region t i) i
      else Some t)"

definition memblock_trim_memory :: "u32 \<Rightarrow> memblock \<Rightarrow> memblock option" where
  "memblock_trim_memory align st =
     map_option (\<lambda>t. st\<lparr>memory := t\<rparr>) (trim_loop (t_cnt (memory st) + 2) align (memory st) 0)"

section \<open>Allocated blocks\<close>

lemma inv_types:
  assumes "memblock_inv env st"
  shows "wf_type (memory st)" "wf_type (reserved st)" "total_ok (memory st)" "total_ok (reserved st)"
  using mb.inv_wf [OF assms, of Memory] mb.inv_wf [OF assms, of Reserved] by auto

text \<open>A block that the caller may use: free before and reserved afterwards, nothing else changed.\<close>

definition allocated :: "memblock \<Rightarrow> nat \<Rightarrow> nat \<Rightarrow> memblock \<Rightarrow> bool" where
  "allocated st a n st' \<longleftrightarrow>
     {a..<a + n} \<subseteq> addrs (live (memory st)) \<and> {a..<a + n} \<inter> addrs (live (reserved st)) = {} \<and>
     amap (live (reserved st')) = map_fill (amap (live (reserved st))) a (a + n) 0 \<and>
     memory st' = memory st"

lemma add_outcome_memory: "add_outcome Reserved c sz f st r st' \<Longrightarrow> memory st' = memory st"
  by (drule add_outcome_def [THEN iffD1], drule conjunct1, drule spec [of _ Memory]) simp

lemma free_block_reserved:
  assumes "memblock_inv env st" "free_at nid flags (memory st) (reserved st) (unat sz) (unat c)" "sz \<noteq> 0"
    and "memblock_reserve env c sz st = Some (0, st')"
  shows "allocated st (unat c) (unat sz) st'"
proof -
  have sz: "0 < unat sz" using assms(3) by (simp add: word_neq_0_conv word_less_nat_alt)
  obtain r where r: "r \<in> set (live (memory st))" "{unat c..<unat c + unat sz} \<subseteq> raddrs r"
    using assms(2) by (auto simp: free_at_def)
  have "unat c + unat sz < 2 ^ 32"
    using block_subset [OF sz, of "unat c" r] r(2) wf_type_end [OF inv_types(1) [OF assms(1)] r(1)] by linarith
  then have e: "range_end c sz = unat c + unat sz" by (simp add: range_end_def)
  have o: "add_outcome Reserved c sz 0 st 0 st'"
    using mb.add_range_total [OF assms(1), of RESIZE_DEPTH Reserved c sz 0] assms(4) by (auto simp: memblock_reserve_def)
  then have "amap (live (reserved st')) = map_fill (amap (live (reserved st))) (unat c) (unat c + unat sz) 0"
    unfolding add_outcome_def e by simp
  moreover have "{unat c..<unat c + unat sz} \<subseteq> addrs (live (memory st))" using r unfolding addrs_def by blast
  ultimately show ?thesis using assms(2) add_outcome_memory [OF o] by (simp add: allocated_def free_at_def)
qed

lemma memblock_reserve_total:
  assumes "memblock_inv env st"
  shows "\<exists>r st'. memblock_reserve env c sz st = Some (r, st') \<and> memblock_inv env st' \<and> add_outcome Reserved c sz 0 st r st'"
  unfolding memblock_reserve_def by (rule mb.add_range_total [OF assms])

lemma alloc_range_nid_total:
  assumes "memblock_inv env st" "sz \<noteq> 0" "k < 32"
  shows "\<exists>a st'. memblock_alloc_range_nid env sz (2 ^ k) start end' nid flags st = Some (a, st') \<and> memblock_inv env st' \<and>
    (if a \<noteq> 0
     then area_ok st (unat sz) k start end' nid flags (unat a) \<and> allocated st (unat a) (unat sz) st'
     else live (reserved st') = live (reserved st) \<and> memory st' = memory st \<and>
       ((\<forall>c. \<not> area_ok st (unat sz) k start end' nid flags c) \<or> t_max (reserved st) < 2 * t_cnt (reserved st) + 1))"
proof -
  let ?c = "memblock_find_in_range_node (kernel_end env) st sz (2 ^ k) start end' nid flags"
  have k: "(2 :: u32) ^ k \<noteq> 0" using is_power_of_2_exp [OF assms(3)] by (simp add: is_power_of_2_def)
  note f = find_in_range_node_correct [OF inv_types(1,2) [OF assms(1)] assms(2), where kernel_end = "kernel_end env" and
      k = k and start = start and end' = end' and nid = nid and flags = flags]
  show ?thesis
  proof (cases "?c = 0")
    case True
    then have "memblock_alloc_range_nid env sz (2 ^ k) start end' nid flags st = Some (0, st)"
      using k by (simp add: memblock_alloc_range_nid_def)
    then show ?thesis using f True assms(1) by auto
  next
    case False
    obtain r st' where r: "memblock_reserve env ?c sz st = Some (r, st')" "memblock_inv env st'" "add_outcome Reserved ?c sz 0 st r st'"
      using memblock_reserve_total [OF assms(1)] by blast
    have a: "memblock_alloc_range_nid env sz (2 ^ k) start end' nid flags st = Some (if r = 0 then ?c else 0, st')"
      using False k r(1) by (simp add: memblock_alloc_range_nid_def Let_def)
    show ?thesis
    proof (cases "r = 0")
      case True
      have ok: "area_ok st (unat sz) k start end' nid flags (unat ?c)" using f False by simp
      then have "allocated st (unat ?c) (unat sz) st'"
        using free_block_reserved [OF assms(1) _ assms(2)] r(1) True by (auto simp: area_ok_def)
      then show ?thesis using a r(2) True False ok by auto
    next
      case f: False
      have "memory st' = memory st" by (rule add_outcome_memory [OF r(3)])
      then show ?thesis using a r(2,3) f by (auto simp: add_outcome_def)
    qed
  qed
qed

end
