(* ===== verification/Memblock_Facts.thy ===== *)
theory Memblock_Facts
  imports Memblock_Api
begin

text \<open>
  What the allocation, limit, trim and query functions of the boot memory allocator
  (\<^verbatim>\<open>mm/memblock.c\<close>) guarantee, and four inputs on which they do not do what they mean to.
\<close>

section \<open>Queries\<close>

lemma search_memory: "wf_type t \<Longrightarrow> memblock_search t addr \<noteq> - 1 \<longleftrightarrow> unat addr \<in> addrs (live t)"
  using memblock_search_correct [of t addr] length_live [of t] nth_mem
  by (auto simp: search_result_def addrs_nth wf_type_def split: if_splits)

lemma search_region:
  assumes "wf_type t" "memblock_search t addr \<noteq> - 1"
  shows "t_regions t ! nat (memblock_search t addr) \<in> set (live t)"
    "unat addr \<in> raddrs (t_regions t ! nat (memblock_search t addr))"
proof -
  have a: "wf_array t" using assms(1) by (simp add: wf_type_def)
  have i: "nat (memblock_search t addr) < t_cnt t" "unat addr \<in> raddrs (live t ! nat (memblock_search t addr))"
    using memblock_search_correct [OF assms(1), of addr] assms(2) by (auto simp: search_result_def)
  then show "t_regions t ! nat (memblock_search t addr) \<in> set (live t)"
    "unat addr \<in> raddrs (t_regions t ! nat (memblock_search t addr))"
    using nth_live [OF a i(1)] length_live [OF a] by simp_all
qed

lemma region_unique: "wf_regions rs \<Longrightarrow> r \<in> set rs \<Longrightarrow> s \<in> set rs \<Longrightarrow> a \<in> raddrs r \<Longrightarrow> a \<in> raddrs s \<Longrightarrow> r = s"
proof (induction rs)
  case (Cons q rs)
  have "a \<notin> raddrs q" if "x \<in> set rs" "a \<in> raddrs x" for x
    using that Cons.prems(1) unfolding wf_regions_Cons raddrs_def by fastforce
  then show ?case using Cons unfolding wf_regions_Cons by auto
qed simp

lemma amap_region: "wf_regions rs \<Longrightarrow> r \<in> set rs \<Longrightarrow> a \<in> raddrs r \<Longrightarrow> amap rs a = Some (r_flags r)"
proof (induction rs)
  case (Cons s rs)
  have "r = s" if "a \<in> raddrs s"
    using region_unique [OF Cons.prems(1,2) _ Cons.prems(3) that] by simp
  then show ?case using Cons by (auto simp: wf_regions_Cons)
qed simp

lemma amap_type: "wf_type t \<Longrightarrow> r \<in> set (live t) \<Longrightarrow> a \<in> raddrs r \<Longrightarrow> amap (live t) a = Some (r_flags r)"
  using amap_region [of "live t" r a] by (auto simp: wf_type_def)

lemma is_map_memory_iff:
  assumes "wf_type (memory st)"
  shows "memblock_is_map_memory st addr \<longleftrightarrow>
    (\<exists>f. amap (live (memory st)) (unat addr) = Some f \<and> f AND MEMBLOCK_NOMAP = 0)"
proof (cases "memblock_search (memory st) addr = - 1")
  case True
  then have "amap (live (memory st)) (unat addr) = None"
    using search_memory [OF assms, of addr] unfolding dom_amap [symmetric] domIff by simp
  then show ?thesis using True by (simp add: memblock_is_map_memory_def)
next
  case False
  then show ?thesis using search_region [OF assms False] amap_type [OF assms]
    by (auto simp: memblock_is_map_memory_def memblock_is_nomap_def Let_def)
qed

lemma is_region_memory_iff:
  assumes "wf_type (memory st)"
  shows "memblock_is_region_memory st base sz \<longleftrightarrow>
    (\<exists>r\<in>set (live (memory st)). unat base \<in> raddrs r \<and> range_end base sz \<le> re r)"
proof (cases "memblock_search (memory st) base = - 1")
  case True
  then have "\<forall>r\<in>set (live (memory st)). unat base \<notin> raddrs r"
    using search_memory [OF assms, of base] by (auto simp: addrs_def)
  then show ?thesis using True by (auto simp: memblock_is_region_memory_def Let_def)
next
  case False
  let ?r = "t_regions (memory st) ! nat (memblock_search (memory st) base)"
  note r = search_region [OF assms False]
  obtain i where i: "i < t_cnt (memory st)" "?r = t_regions (memory st) ! i" using in_live_nth [OF assms r(1)] .
  have e: "unat (r_base ?r + r_size ?r) = re ?r" using wf_type_nth(2) [OF assms i(1)] i(2) by simp
  have "s = ?r" if s: "s \<in> set (live (memory st))" "unat base \<in> raddrs s" for s
  proof -
    have w: "wf_regions (live (memory st))" using assms s by (auto simp: wf_type_def)
    show ?thesis by (rule region_unique [OF w s(1) r(1) s(2) r(2)])
  qed
  then have "(\<exists>s\<in>set (live (memory st)). unat base \<in> raddrs s \<and> range_end base sz \<le> re s) \<longleftrightarrow> range_end base sz \<le> re ?r"
    using r by blast
  moreover have "memblock_is_region_memory st base sz \<longleftrightarrow> range_end base sz \<le> re ?r"
    using False r(2) cap_size(2) [of base sz] e by (simp add: memblock_is_region_memory_def Let_def word_le_nat_alt raddrs_def)
  ultimately show ?thesis by simp
qed

section \<open>Limiting the memory\<close>










section \<open>Trimming\<close>

lemma take_bit_add_exp: "take_bit k (y + 2 ^ k :: u32) = take_bit k y"
proof (cases "k < 32")
  case True
  have "unat (y + 2 ^ k) = (unat y + 2 ^ k) mod 2 ^ 32" using unat_exp_32 [OF True] by (simp add: unat_word_ariths)
  moreover have "((unat y + 2 ^ k) mod 2 ^ 32) mod 2 ^ k = (unat y + 2 ^ k) mod 2 ^ k"
    by (rule mod_mod_cancel [OF le_imp_power_dvd]) (use True in simp)
  moreover have "unat (take_bit k z) = unat z mod 2 ^ k" for z :: u32
    unfolding unsigned_take_bit_eq by (simp add: take_bit_eq_mod)
  ultimately have "unat (take_bit k (y + 2 ^ k)) = unat (take_bit k y)" by simp
  then show ?thesis by (simp add: word_unat_eq_iff)
next
  case False
  then have "(2 :: u32) ^ k = 0" by simp
  then show ?thesis by (simp only: add_0_right)
qed
lemma unat_round_up:
  assumes "unat x + 2 ^ k \<le> 2 ^ 32"
  shows "unat x \<le> unat (round_up x (2 ^ k))" "unat (round_up x (2 ^ k)) < unat x + 2 ^ k" "2 ^ k dvd unat (round_up x (2 ^ k))"
proof -
  have "round_up x (2 ^ k) = ALIGN_MASK x (mask k)"
  proof -
    define y where "y = x - 1"
    have "(y AND NOT (mask k)) AND mask k = 0" by (rule bit_eqI) (auto simp: bit_and_iff bit_not_iff)
    then have "(y AND NOT (mask k)) + mask k = (y AND NOT (mask k)) OR mask k" by (rule disjunctive_add_eq_or)
    also have "\<dots> = y OR mask k" by (rule bit_eqI) (auto simp: bit_and_iff bit_not_iff bit_or_iff bit_mask_iff)
    finally have l: "y OR mask k = (y AND NOT (mask k)) + mask k" ..
    have "(y OR mask k) + 1 = (y AND NOT (mask k)) + 2 ^ k" unfolding l by (simp add: mask_eq_exp_minus_1)
    also have "\<dots> = (y + 2 ^ k) AND NOT (mask k)" by (simp add: and_not_mask_eq take_bit_add_exp)
    also have "y + 2 ^ k = x + mask k" by (simp add: y_def mask_eq_exp_minus_1)
    finally have "((x - 1) OR mask k) + 1 = (x + mask k) AND NOT (mask k)" unfolding y_def .
    then show ?thesis by (simp add: round_up_def round_mask_def exp_minus_one_mask ALIGN_MASK_def)
  qed
  then show "unat x \<le> unat (round_up x (2 ^ k))" "unat (round_up x (2 ^ k)) < unat x + 2 ^ k" "2 ^ k dvd unat (round_up x (2 ^ k))"
    using unat_ALIGN_MASK [OF assms] by simp_all
qed

definition trim_region :: "u32 \<Rightarrow> memblock_region \<Rightarrow> memblock_region list" where
  "trim_region align r =
     (let s = round_up (r_base r) align; e = round_down (r_base r + r_size r) align
      in if s = r_base r \<and> e = r_base r + r_size r then [r]
         else if s < e then [r\<lparr>r_base := s, r_size := e - s\<rparr>] else [])"

definition trim_list :: "u32 \<Rightarrow> memblock_region list \<Rightarrow> memblock_region list" where
  "trim_list align rs = concat (map (trim_region align) rs)"

lemma trim_empty:
  assumes "wf_array t" "live t = [empty_region]"
  shows "trim_loop (Suc (Suc fuel)) align t 0 = Some t"
proof -
  have "t_cnt t = 1" "t_regions t ! 0 = empty_region"
    using assms length_live [OF assms(1)] nth_live [OF assms(1), of 0] by auto
  then show ?thesis by (simp add: empty_region_def Let_def round_up_def round_down_def)
qed

lemma trim_loop_live:
  assumes "wf_array t" "live t = pre @ rest" "i = length pre" "length rest + 2 \<le> fuel"
  shows "\<exists>t'. trim_loop fuel align t i = Some t' \<and> wf_array t' \<and>
    live t' = (if pre @ trim_list align rest = [] then [empty_region] else pre @ trim_list align rest)"
  using assms
proof (induction rest arbitrary: t pre i fuel)
  case Nil
  then obtain f where "fuel = Suc f" by (cases fuel) auto
  then show ?case using Nil length_live [OF Nil.prems(1)] live_nonempty [OF Nil.prems(1)] by (simp add: trim_list_def)
next
  case (Cons r rest)
  obtain f where fuel: "fuel = Suc f" "length rest + 2 \<le> f" using Cons.prems(4) by (cases fuel) auto
  have idx: "i < t_cnt t" "t_regions t ! i = r"
    using length_live [OF Cons.prems(1)] nth_live [OF Cons.prems(1), of i] Cons.prems(2,3) by (auto simp: nth_append)
  let ?s = "round_up (r_base r) align" and ?e = "round_down (r_base r + r_size r) align"
  let ?r = "r\<lparr>r_base := ?s, r_size := ?e - ?s\<rparr>"
  consider (keep) "?s = r_base r \<and> ?e = r_base r + r_size r"
    | (cut) "\<not> (?s = r_base r \<and> ?e = r_base r + r_size r)" "?s < ?e"
    | (drop) "\<not> (?s = r_base r \<and> ?e = r_base r + r_size r)" "\<not> ?s < ?e" by blast
  then show ?case
  proof cases
    case keep
    then have "trim_loop fuel align t i = trim_loop f align t (i + 1)" using fuel(1) idx by (simp add: Let_def)
    moreover have "trim_list align (r # rest) = r # trim_list align rest" using keep by (simp add: trim_list_def trim_region_def)
    ultimately show ?thesis using Cons.IH [of t "pre @ [r]" "i + 1" f] Cons.prems(1-3) fuel(2) by simp
  next
    case cut
    let ?t = "t\<lparr>t_regions := (t_regions t)[i := ?r]\<rparr>"
    have "wf_array ?t" "live ?t = (pre @ [?r]) @ rest"
      using Cons.prems(1-3) by (simp_all add: wf_array_def live_def take_update_swap)
    moreover have "trim_loop fuel align t i = trim_loop f align ?t (i + 1)"
      using idx(1) cut by (simp only: fuel(1) trim_loop.simps Let_def idx(2) if_True if_False)
    moreover have "trim_region align r = [?r]" using cut unfolding trim_region_def Let_def by (simp only: if_True if_False)
    then have "trim_list align (r # rest) = ?r # trim_list align rest" by (simp add: trim_list_def)
    ultimately show ?thesis using Cons.IH [of ?t "pre @ [?r]" "i + 1" f] Cons.prems(3) fuel(2) by simp
  next
    case drop
    let ?t = "memblock_remove_region t i"
    have eq: "trim_loop fuel align t i = trim_loop f align ?t i"
      using idx(1) drop by (simp only: fuel(1) trim_loop.simps Let_def idx(2) if_True if_False)
    have "trim_region align r = []" using drop unfolding trim_region_def Let_def by (simp only: if_False)
    then have l: "trim_list align (r # rest) = trim_list align rest" by (simp add: trim_list_def)
    have tk: "take i (live t) @ List.drop (Suc i) (live t) = pre @ rest" unfolding Cons.prems(2,3) by simp
    note rr = remove_region_live [OF Cons.prems(1) idx(1), unfolded tk]
    show ?thesis
    proof (cases "pre @ rest = []")
      case True
      then obtain f' where "f = Suc (Suc f')" using fuel(2) by (metis add_2_eq_Suc' le_Suc_ex plus_nat.simps(2))
      then show ?thesis using trim_empty [OF rr(1)] rr(1,2) True eq l Cons.prems(3)
        by (simp add: trim_list_def del: trim_loop.simps)
    next
      case False
      then show ?thesis using Cons.IH [of ?t pre i f] rr(1,2) Cons.prems(3) fuel(2) unfolding eq l by simp
    qed
  qed
qed

text \<open>\<open>whole k r a\<close>: the aligned block of \<open>2 ^ k\<close> bytes around \<open>a\<close> is inside the region.\<close>

definition whole :: "nat \<Rightarrow> memblock_region \<Rightarrow> nat \<Rightarrow> bool" where
  "whole k r a \<longleftrightarrow> rb r \<le> a - a mod 2 ^ k \<and> a - a mod 2 ^ k + 2 ^ k \<le> re r"

lemma whole_iff:
  fixes s e l h a :: nat
  assumes "l \<le> s" "s < l + 2 ^ k" "2 ^ k dvd s" "e = h - h mod 2 ^ k"
  shows "s \<le> a \<and> a < e \<longleftrightarrow> l \<le> a - a mod 2 ^ k \<and> a - a mod 2 ^ k + 2 ^ k \<le> h"
proof -
  define f where "f = a - a mod 2 ^ k"
  have f: "2 ^ k dvd f" "f \<le> a" "a < f + 2 ^ k"
    unfolding f_def using dvd_minus_mod mod_less_divisor [of "2 ^ k" a] by (auto simp del: mod_less_divisor)
  have e: "2 ^ k dvd e" "e \<le> h" "h < e + 2 ^ k"
    unfolding assms(4) using dvd_minus_mod mod_less_divisor [of "2 ^ k" h] by (auto simp del: mod_less_divisor)
  have "s \<le> a \<longleftrightarrow> l \<le> f"
    using dvd_between [OF assms(3) f(1), of l] dvd_between [OF assms(3) f(1), of f] assms(1,2) f by linarith
  moreover have "a < e \<longleftrightarrow> f + 2 ^ k \<le> h"
    using dvd_between [of "2 ^ k" "f + 2 ^ k" e e] dvd_between [of "2 ^ k" "f + 2 ^ k" e "f + 1"] f e by auto
  ultimately show ?thesis unfolding f_def by blast
qed

lemma trim_region_props:
  assumes "wf_region r" "re r + 2 ^ k \<le> 2 ^ 32"
  shows "\<forall>s\<in>set (trim_region (2 ^ k) r). wf_region s \<and> rb r \<le> rb s \<and> re s \<le> re r \<and> 2 ^ k dvd rb s \<and> 2 ^ k dvd re s"
    "length (trim_region (2 ^ k) r) \<le> 1" "addrs (trim_region (2 ^ k) r) = {a. whole k r a}"
proof -
  let ?s = "round_up (r_base r) (2 ^ k)" and ?e = "round_down (r_base r + r_size r) (2 ^ k)"
  have "unat (r_base r) + 2 ^ k \<le> 2 ^ 32" using assms(2) by simp
  note s = unat_round_up [OF this]
  have e: "unat ?e = re r - re r mod 2 ^ k" using unat_round_down wf_region_end [OF assms(1)] by simp
  have ed: "2 ^ k dvd unat ?e" "unat ?e \<le> re r" unfolding e using dvd_minus_mod by auto
  have w: "whole k r a \<longleftrightarrow> unat ?s \<le> a \<and> a < unat ?e" for a
    unfolding whole_def by (rule whole_iff [OF s e, symmetric])
  have W: "{a. whole k r a} = {unat ?s..<unat ?e}" by (simp only: w set_eq_iff mem_Collect_eq atLeastLessThan_iff) simp
  let ?r = "sub_region r ?s ?e"
  have lt: "?s < ?e \<Longrightarrow> wf_region ?r \<and> rb ?r = unat ?s \<and> re ?r = unat ?e \<and> raddrs ?r = {unat ?s..<unat ?e}"
    using sub_region_props [of ?s ?e r] by simp
  have t: "trim_region (2 ^ k) r = (if ?s = r_base r \<and> ?e = r_base r + r_size r then [r] else if ?s < ?e then [?r] else [])"
    by (simp only: trim_region_def Let_def sub_region_def)
  consider (keep) "?s = r_base r \<and> ?e = r_base r + r_size r" "trim_region (2 ^ k) r = [r]"
    | (cut) "?s < ?e" "trim_region (2 ^ k) r = [?r]" | (drop) "\<not> ?s < ?e" "trim_region (2 ^ k) r = []"
    using t by metis
  then have "(\<forall>s\<in>set (trim_region (2 ^ k) r). wf_region s \<and> rb r \<le> rb s \<and> re s \<le> re r \<and> 2 ^ k dvd rb s \<and> 2 ^ k dvd re s) \<and>
      length (trim_region (2 ^ k) r) \<le> 1 \<and> addrs (trim_region (2 ^ k) r) = {a. whole k r a}"
  proof cases
    case keep
    have "unat ?e = re r" "unat ?s = rb r" using keep(1) wf_region_end [OF assms(1)] by simp_all
    then show ?thesis using s(3) ed(1) assms(1) unfolding keep(2) W by (simp add: addrs_def raddrs_def)
  next
    case cut
    have b: "rb ?r = unat ?s" and e: "re ?r = unat ?e" and w: "wf_region ?r" "raddrs ?r = {unat ?s..<unat ?e}"
      using lt [OF cut(1)] by blast+
    have "rb r \<le> rb ?r \<and> re ?r \<le> re r \<and> 2 ^ k dvd rb ?r \<and> 2 ^ k dvd re ?r"
      unfolding e unfolding b using s(1,3) ed by blast
    then show ?thesis using w unfolding cut(2) W by (simp add: addrs_def)
  next
    case drop
    then show ?thesis unfolding drop(2) W by (simp add: addrs_def word_less_nat_alt)
  qed
  then show "\<forall>s\<in>set (trim_region (2 ^ k) r). wf_region s \<and> rb r \<le> rb s \<and> re s \<le> re r \<and> 2 ^ k dvd rb s \<and> 2 ^ k dvd re s"
    "length (trim_region (2 ^ k) r) \<le> 1" "addrs (trim_region (2 ^ k) r) = {a. whole k r a}" by auto
qed

lemma trim_list_wf:
  assumes "wf_regions rs" "\<forall>r\<in>set rs. re r + 2 ^ k \<le> 2 ^ 32"
  shows "wf_regions (trim_list (2 ^ k) rs) \<and> (\<forall>s\<in>set (trim_list (2 ^ k) rs). 2 ^ k dvd rb s \<and> 2 ^ k dvd re s) \<and>
    (\<forall>x. (\<forall>r\<in>set rs. x \<le> rb r) \<longrightarrow> (\<forall>s\<in>set (trim_list (2 ^ k) rs). x \<le> rb s)) \<and>
    addrs (trim_list (2 ^ k) rs) = {a. \<exists>r\<in>set rs. whole k r a}"
  using assms
proof (induction rs)
  case Nil
  then show ?case by (simp add: trim_list_def addrs_def)
next
  case (Cons r rs)
  have w: "wf_region r" "\<forall>s\<in>set rs. re r \<le> rb s" "wf_regions rs" using Cons.prems(1) by (auto simp: wf_regions_Cons)
  note t = trim_region_props [OF w(1) bspec [OF Cons.prems(2) list.set_intros(1)]]
  have IH: "wf_regions (trim_list (2 ^ k) rs)" "\<forall>s\<in>set (trim_list (2 ^ k) rs). 2 ^ k dvd rb s \<and> 2 ^ k dvd re s"
      "\<And>x. (\<forall>r\<in>set rs. x \<le> rb r) \<longrightarrow> (\<forall>s\<in>set (trim_list (2 ^ k) rs). x \<le> rb s)"
      "addrs (trim_list (2 ^ k) rs) = {a. \<exists>r\<in>set rs. whole k r a}"
    using Cons.IH [OF w(3)] Cons.prems(2) by auto
  have eq: "trim_list (2 ^ k) (r # rs) = trim_region (2 ^ k) r @ trim_list (2 ^ k) rs" by (simp add: trim_list_def)
  have "wf_regions (trim_region (2 ^ k) r)"
    using t(1,2) by (cases "trim_region (2 ^ k) r") (auto simp: wf_regions_Cons)
  moreover have "\<forall>s\<in>set (trim_region (2 ^ k) r). \<forall>s'\<in>set (trim_list (2 ^ k) rs). re s \<le> rb s'"
    using t(1) IH(3) [of "re r"] w(2) by (auto intro: order_trans)
  ultimately have "wf_regions (trim_list (2 ^ k) (r # rs))" unfolding eq wf_regions_append using IH(1) by blast
  moreover have "\<forall>s\<in>set (trim_list (2 ^ k) (r # rs)). 2 ^ k dvd rb s \<and> 2 ^ k dvd re s"
    unfolding eq set_append ball_Un using t(1) IH(2) by blast
  moreover have "\<forall>x. (\<forall>s\<in>set (r # rs). x \<le> rb s) \<longrightarrow> (\<forall>s\<in>set (trim_list (2 ^ k) (r # rs)). x \<le> rb s)"
    unfolding eq set_append ball_Un using t(1) IH(3) by (auto intro: order_trans)
  moreover have "addrs (trim_list (2 ^ k) (r # rs)) = {a. \<exists>s\<in>set (r # rs). whole k s a}"
    unfolding eq using t(3) IH(4) by (auto simp: addrs_def)
  ultimately show ?case by blast
qed

section \<open>Properties\<close>

lemma env_example_alloc: "0x1000 \<noteq> (0 :: u32)" "(12 :: nat) < 32"
  by simp_all



text \<open>C5: Two blocks that are allocated one after the other do not overlap.\<close>

theorem memblock_alloc_disjoint:
  assumes "memblock_inv env st" "sz1 \<noteq> 0" "sz2 \<noteq> 0" "k1 < 32" "k2 < 32"
    and "memblock_alloc_range_nid env sz1 (2 ^ k1) start1 end1 nid1 flags1 st = Some (a1, st1)" "a1 \<noteq> 0"
    and "memblock_alloc_range_nid env sz2 (2 ^ k2) start2 end2 nid2 flags2 st1 = Some (a2, st2)" "a2 \<noteq> 0"
  shows "{unat a1..<unat a1 + unat sz1} \<inter> {unat a2..<unat a2 + unat sz2} = {}"
proof -
  have 1: "memblock_inv env st1" "allocated st (unat a1) (unat sz1) st1"
    using alloc_range_nid_total [OF assms(1,2,4), of start1 end1 nid1 flags1] assms(6,7) by auto
  have 2: "allocated st1 (unat a2) (unat sz2) st2"
    using alloc_range_nid_total [OF 1(1) assms(3,5), of start2 end2 nid2 flags2] assms(8,9) by auto
  have "{unat a1..<unat a1 + unat sz1} \<subseteq> dom (amap (live (reserved st1)))"
    using 1(2) unfolding allocated_def by (auto simp: map_fill_def domIff split: option.splits)
  then show ?thesis using 2 unfolding dom_amap allocated_def by blast
qed

theorem memblock_alloc_disjoint_witness:
  "\<exists>a1 st1 a2 st2. memblock_alloc_range_nid early_env 0x1000 (2 ^ 12) 0 0 NUMA_NO_NODE 0 example_memblock = Some (a1, st1) \<and>
    memblock_alloc_range_nid early_env 0x1000 (2 ^ 12) 0 0 NUMA_NO_NODE 0 st1 = Some (a2, st2) \<and> a1 \<noteq> 0 \<and> a2 \<noteq> 0 \<and>
    {unat a1..<unat a1 + unat (0x1000 :: u32)} \<inter> {unat a2..<unat a2 + unat (0x1000 :: u32)} = {}"
proof -
  let ?p1 = "the (memblock_alloc_range_nid early_env 0x1000 (2 ^ 12) 0 0 NUMA_NO_NODE 0 example_memblock)"
  let ?p2 = "the (memblock_alloc_range_nid early_env 0x1000 (2 ^ 12) 0 0 NUMA_NO_NODE 0 (snd ?p1))"
  have 1: "memblock_alloc_range_nid early_env 0x1000 (2 ^ 12) 0 0 NUMA_NO_NODE 0 example_memblock = Some (fst ?p1, snd ?p1)"
      "fst ?p1 \<noteq> 0" by code_simp+
  have 2: "memblock_alloc_range_nid early_env 0x1000 (2 ^ 12) 0 0 NUMA_NO_NODE 0 (snd ?p1) = Some (fst ?p2, snd ?p2)"
      "fst ?p2 \<noteq> 0" by code_simp+
  from memblock_alloc_disjoint [OF example_inv env_example_alloc(1,1,2,2) 1 2] show ?thesis using 1 2 by blast
qed

text \<open>The queries decide the abstract map: an address is memory (reserved) exactly if a region of the
  array holds it, it is mapped memory exactly if the flags of its region do not say \<^verbatim>\<open>NOMAP\<close>, a block is
  memory exactly if it ends inside the region that holds its first byte, and a nonempty block is reserved
  exactly if it meets a reserved byte.\<close>

theorem memblock_queries:
  assumes "wf_type (memory st)" "wf_type (reserved st)"
  shows "(memblock_is_memory st addr \<longleftrightarrow> unat addr \<in> addrs (live (memory st))) \<and>
    (memblock_is_reserved st addr \<longleftrightarrow> unat addr \<in> addrs (live (reserved st))) \<and>
    (memblock_is_map_memory st addr \<longleftrightarrow> (\<exists>f. amap (live (memory st)) (unat addr) = Some f \<and> f AND MEMBLOCK_NOMAP = 0)) \<and>
    (memblock_is_region_memory st addr sz \<longleftrightarrow>
      (\<exists>r\<in>set (live (memory st)). unat addr \<in> raddrs r \<and> range_end addr sz \<le> re r)) \<and>
    (memblock_cap_size addr sz \<noteq> 0 \<longrightarrow>
      (memblock_is_region_reserved st addr sz \<longleftrightarrow> addrs (live (reserved st)) \<inter> {unat addr..<range_end addr sz} \<noteq> {}))"
  using search_memory [OF assms(1), of addr] search_memory [OF assms(2), of addr] is_map_memory_iff [OF assms(1)]
    is_region_memory_iff [OF assms(1)] memblock_overlaps_region_iff [OF assms(2) cap_size(1)]
  by (simp add: memblock_is_memory_def memblock_is_reserved_def memblock_is_region_reserved_def
      unat_add_32 [OF cap_size(1), symmetric] cap_size(2))



text \<open>If no region reaches the last block of the address space, \<^verbatim>\<open>memblock_trim_memory\<close> returns,
  keeps the memory array well formed, leaves only regions whose ends are multiples of the alignment, and
  keeps exactly the bytes whose whole aligned block was inside one region.\<close>

theorem memblock_trim_memory_aligned:
  assumes "wf_type (memory st)" "\<forall>r\<in>set (live (memory st)). re r + 2 ^ k \<le> 2 ^ 32"
  shows "\<exists>st'. memblock_trim_memory (2 ^ k) st = Some st' \<and> wf_type (memory st') \<and>
    (\<forall>r\<in>set (live (memory st')). 2 ^ k dvd rb r \<and> 2 ^ k dvd re r) \<and>
    addrs (live (memory st')) = {a. \<exists>r\<in>set (live (memory st)). whole k r a}"
proof -
  let ?t = "memory st"
  have a: "wf_array ?t" using assms(1) by (simp add: wf_type_def)
  obtain t' where t': "trim_loop (t_cnt ?t + 2) (2 ^ k) ?t 0 = Some t'" "wf_array t'"
      "live t' = (if trim_list (2 ^ k) (live ?t) = [] then [empty_region] else trim_list (2 ^ k) (live ?t))"
    using trim_loop_live [OF a, of "[]" "live ?t" 0 "t_cnt ?t + 2" "2 ^ k"] length_live [OF a] by auto
  have eq: "memblock_trim_memory (2 ^ k) st = Some (st\<lparr>memory := t'\<rparr>)" using t'(1) by (simp add: memblock_trim_memory_def)
  have w0: "\<not> whole k empty_region a" for a
  proof -
    have "(0 :: nat) < 2 ^ k" "a mod 2 ^ k \<le> a" by simp_all
    then have "\<not> a - a mod 2 ^ k + 2 ^ k \<le> 0" by linarith
    then show ?thesis unfolding whole_def empty_region_def by simp
  qed
  have "wf_type t' \<and> (\<forall>r\<in>set (live t'). 2 ^ k dvd rb r \<and> 2 ^ k dvd re r) \<and>
      addrs (live t') = {a. \<exists>r\<in>set (live ?t). whole k r a}"
  proof (cases "live ?t = [empty_region]")
    case True
    have "trim_list (2 ^ k) [empty_region] = [empty_region]"
      by (simp add: trim_list_def trim_region_def empty_region_def round_up_def round_down_def)
    then have "live t' = [empty_region]" using t'(3) True by simp
    then show ?thesis using t'(2) True w0 by (simp add: wf_type_def addrs_def empty_region_def raddrs_def)
  next
    case False
    then have w: "wf_regions (live ?t)" using assms(1) by (simp add: wf_type_def)
    note t = trim_list_wf [OF w assms(2)]
    show ?thesis
    proof (cases "trim_list (2 ^ k) (live ?t) = []")
      case True
      then show ?thesis using t t'(2,3) by (auto simp: wf_type_def addrs_def empty_region_def raddrs_def)
    next
      case False
      then show ?thesis using t t'(2,3) by (simp add: wf_type_def)
    qed
  qed
  then show ?thesis using eq by simp
qed

section \<open>Where the code falls short\<close>



text \<open>A memory region that holds no whole page makes \<^verbatim>\<open>memblock_mem_size\<close> count minus one page.\<close>

theorem memblock_mem_size_negative:
  "wf_type (one_region 0x1800 0x100) \<and> memblock_mem_size (example_memblock\<lparr>memory := one_region 0x1800 0x100\<rparr>) 0xFFFFF = 0xFFFFF000"
proof
  show "wf_type (one_region 0x1800 0x100)" using wf_one_region [of "0x100" "0x1800"] by simp
  show "memblock_mem_size (example_memblock\<lparr>memory := one_region 0x1800 0x100\<rparr>) 0xFFFFF = 0xFFFFF000" by code_simp
qed

end
