(* ===== verification/Cma.thy ===== *)
theory Cma
  imports Bitmap_Alloc Memblock_Facts
begin

text \<open>
  The contiguous memory allocator, \<^verbatim>\<open>mm/cma.c\<close> and \<^verbatim>\<open>mm/cma.h\<close>: areas of pages with a bitmap of the
  used blocks of \<open>2 ^ order_per_bit\<close> pages, declared from the boot memory allocator.

  Page frame numbers and counts are 32-bit words; a page is identified with its page frame
  number. The mutexes are left out: every operation is one step. The page allocator is a state
  of any type \<open>'pa\<close> with its two entry points \<^verbatim>\<open>alloc_contig_range\<close> and \<^verbatim>\<open>free_contig_range\<close> as
  parameters, about which nothing is assumed; \<^verbatim>\<open>page_zone\<close> is a function of the page frame number.
  The length argument of \<^verbatim>\<open>bitmap_set\<close> and \<^verbatim>\<open>bitmap_clear\<close> is an \<^verbatim>\<open>int\<close>, hence the \<open>sint\<close>. The
  \<^verbatim>\<open>VM_BUG_ON\<close> of \<^verbatim>\<open>cma_release\<close> is compiled away in this configuration.
\<close>

section \<open>Areas\<close>

record cma =
  base_pfn :: u32
  cma_count :: u32
  cma_bitmap :: bitmap
  order_per_bit :: nat

definition cma_bitmap_maxno :: "cma \<Rightarrow> u32" where
  "cma_bitmap_maxno c = drop_bit (order_per_bit c) (cma_count c)"



definition cma_get_range :: "cma list \<Rightarrow> u32 \<times> u32" where
  "cma_get_range areas =
     (let (base_pfn', max_pfn) = fold (\<lambda>c (b, m).
            (if base_pfn c < b then base_pfn c else b,
             if base_pfn c + cma_count c > m then base_pfn c + cma_count c else m)) areas (- 1, 0)
      in if max_pfn \<noteq> 0 then (PFN_PHYS base_pfn', PFN_PHYS max_pfn - PFN_PHYS base_pfn') else (0, 0))"

definition cma_bitmap_aligned_mask :: "cma \<Rightarrow> nat \<Rightarrow> u32" where
  "cma_bitmap_aligned_mask c align_order =
     (if align_order \<le> order_per_bit c then 0 else push_bit (align_order - order_per_bit c) 1 - 1)"

definition cma_bitmap_aligned_offset :: "cma \<Rightarrow> nat \<Rightarrow> u32" where
  "cma_bitmap_aligned_offset c align_order =
     (if align_order \<le> order_per_bit c then 0
      else drop_bit (order_per_bit c) (ALIGN (base_pfn c) (push_bit align_order 1) - base_pfn c))"

definition cma_bitmap_pages_to_bits :: "cma \<Rightarrow> u32 \<Rightarrow> u32" where
  "cma_bitmap_pages_to_bits c pages = drop_bit (order_per_bit c) (ALIGN pages (push_bit (order_per_bit c) 1))"

definition cma_clear_bitmap :: "cma \<Rightarrow> u32 \<Rightarrow> u32 \<Rightarrow> cma" where
  "cma_clear_bitmap c pfn cnt =
     (let bitmap_no = drop_bit (order_per_bit c) (pfn - base_pfn c);
          bitmap_count = cma_bitmap_pages_to_bits c cnt
      in c\<lparr>cma_bitmap := bitmap_clear (cma_bitmap c) (unat bitmap_no) (sint bitmap_count)\<rparr>)"

section \<open>Allocation and release\<close>

text \<open>The search for a free area, with fuel for every bit.\<close>

definition cma_find_zero_area :: "cma \<Rightarrow> u32 \<Rightarrow> u32 \<Rightarrow> u32 \<Rightarrow> u32 \<Rightarrow> u32 option" where
  "cma_find_zero_area c start bitmap_count m offset =
     bitmap_find_next_zero_area_off (unat (cma_bitmap_maxno c) + 1) (cma_bitmap c) (cma_bitmap_maxno c)
       start bitmap_count m offset"

text \<open>The loop of \<^verbatim>\<open>cma_alloc\<close>. \<open>None\<close> means that the fuel ran out.\<close>

primrec cma_alloc_loop ::
  "nat \<Rightarrow> (u32 \<Rightarrow> u32 \<Rightarrow> 'pa \<Rightarrow> int \<times> 'pa) \<Rightarrow> u32 \<Rightarrow> u32 \<Rightarrow> u32 \<Rightarrow> u32 \<Rightarrow> u32 \<Rightarrow> cma \<times> 'pa \<Rightarrow>
   (u32 option \<times> cma \<times> 'pa) option" where
  "cma_alloc_loop 0 alloc_contig_range cnt m offset bitmap_count start st = None"
| "cma_alloc_loop (Suc fuel) alloc_contig_range cnt m offset bitmap_count start st =
     (case st of (c, pa) \<Rightarrow>
        case cma_find_zero_area c start bitmap_count m offset of
          None \<Rightarrow> None
        | Some bitmap_no \<Rightarrow>
            if bitmap_no \<ge> cma_bitmap_maxno c then Some (None, c, pa)
            else let c = c\<lparr>cma_bitmap := bitmap_set (cma_bitmap c) (unat bitmap_no) (sint bitmap_count)\<rparr>;
                     pfn = base_pfn c + push_bit (order_per_bit c) bitmap_no
                 in case alloc_contig_range pfn (pfn + cnt) pa of (ret, pa) \<Rightarrow>
                      if ret = 0 then Some (Some pfn, c, pa)
                      else let c = cma_clear_bitmap c pfn cnt
                           in if ret \<noteq> - EBUSY then Some (None, c, pa)
                              else cma_alloc_loop fuel alloc_contig_range cnt m offset bitmap_count
                                     (bitmap_no + m + 1) (c, pa))"

definition cma_alloc ::
  "(u32 \<Rightarrow> u32 \<Rightarrow> 'pa \<Rightarrow> int \<times> 'pa) \<Rightarrow> u32 \<Rightarrow> nat \<Rightarrow> cma \<times> 'pa \<Rightarrow> (u32 option \<times> cma \<times> 'pa) option" where
  "cma_alloc alloc_contig_range cnt align st =
     (case st of (c, pa) \<Rightarrow>
        if cma_count c = 0 then Some (None, c, pa)
        else if cnt = 0 then Some (None, c, pa)
        else let m = cma_bitmap_aligned_mask c align;
                 offset = cma_bitmap_aligned_offset c align;
                 bitmap_count = cma_bitmap_pages_to_bits c cnt
             in if bitmap_count > cma_bitmap_maxno c then Some (None, c, pa)
                else cma_alloc_loop (unat (cma_bitmap_maxno c) + 1) alloc_contig_range cnt m offset bitmap_count 0 (c, pa))"

definition cma_alloc_range_ok :: "cma \<Rightarrow> u32 \<Rightarrow> nat \<Rightarrow> bool option" where
  "cma_alloc_range_ok c cnt align =
     map_option (\<lambda>bitmap_no. if bitmap_no \<ge> cma_bitmap_maxno c then False else True)
       (cma_find_zero_area c 0 (cma_bitmap_pages_to_bits c cnt)
         (cma_bitmap_aligned_mask c align) (cma_bitmap_aligned_offset c align))"

definition cma_release :: "(u32 \<Rightarrow> u32 \<Rightarrow> 'pa \<Rightarrow> 'pa) \<Rightarrow> u32 \<Rightarrow> u32 \<Rightarrow> cma \<times> 'pa \<Rightarrow> bool \<times> cma \<times> 'pa" where
  "cma_release free_contig_range pfn cnt st =
     (case st of (c, pa) \<Rightarrow>
        if pfn < base_pfn c \<or> pfn \<ge> base_pfn c + cma_count c then (False, c, pa)
        else (True, cma_clear_bitmap c pfn cnt, free_contig_range pfn cnt pa))"

section \<open>Declaring areas\<close>

definition MAX_ORDER :: nat where "MAX_ORDER = 11"
definition pageblock_order :: nat where "pageblock_order = MAX_ORDER - 1"


text \<open>The array \<^verbatim>\<open>cma_areas\<close> up to \<^verbatim>\<open>cma_area_count\<close>, and the page count.\<close>

record cma_state =
  cma_areas :: "cma list"
  totalcma_pages :: u32






section \<open>Activation\<close>

text \<open>The inner loop of \<^verbatim>\<open>cma_activate_area\<close> looks for a page of another zone among the pages of a
  block; the outer loop initialises the blocks. The result tells whether all blocks passed, and
  holds the first page frames given to \<^verbatim>\<open>init_cma_reserved_pageblock\<close>.\<close>

definition block_in_zone :: "(u32 \<Rightarrow> nat) \<Rightarrow> nat \<Rightarrow> u32 \<Rightarrow> bool" where
  "block_in_zone page_zone zone pfn \<longleftrightarrow> list_all (\<lambda>j. page_zone (pfn + of_nat j) = zone) [0..<2 ^ pageblock_order]"

primrec activate_loop :: "nat \<Rightarrow> (u32 \<Rightarrow> nat) \<Rightarrow> nat \<Rightarrow> u32 \<Rightarrow> u32 list \<Rightarrow> bool \<times> u32 list" where
  "activate_loop 0 page_zone zone pfn blocks = (True, blocks)"
| "activate_loop (Suc i) page_zone zone pfn blocks =
     (if block_in_zone page_zone zone pfn
      then activate_loop i page_zone zone (pfn + push_bit pageblock_order 1) (blocks @ [pfn])
      else (False, blocks))"

text \<open>\<open>kzalloc_ok\<close> tells whether the bitmap could be allocated; the bitmap that the error path frees is
  the empty list. The counter of the \<^verbatim>\<open>do ... while (--i)\<close> is an \<^verbatim>\<open>unsigned\<close>, so zero would mean \<open>2 ^ 32\<close>
  rounds.\<close>

definition cma_activate_area :: "bool \<Rightarrow> (u32 \<Rightarrow> nat) \<Rightarrow> cma \<Rightarrow> int \<times> cma \<times> u32 list" where
  "cma_activate_area kzalloc_ok page_zone c =
     (if \<not> kzalloc_ok then (- ENOMEM, c, [])
      else let c' = c\<lparr>cma_bitmap := replicate (BITS_TO_LONGS (unat (cma_bitmap_maxno c))) 0\<rparr>;
               i = drop_bit pageblock_order (cma_count c);
               zone = page_zone (base_pfn c);
               (ok, blocks) = activate_loop (if i = 0 then 2 ^ 32 else unat i) page_zone zone (base_pfn c) []
           in if ok then (0, c', blocks) else (- EINVAL, c'\<lparr>cma_bitmap := [], cma_count := 0\<rparr>, blocks))"

text \<open>\<^verbatim>\<open>cma_init_reserved_areas\<close>: \<open>kzalloc_ok i\<close> is the result of the allocation for area \<open>i\<close>.\<close>

primrec init_areas_loop :: "(nat \<Rightarrow> bool) \<Rightarrow> (u32 \<Rightarrow> nat) \<Rightarrow> cma list \<Rightarrow> nat \<Rightarrow> int \<times> cma list \<times> u32 list" where
  "init_areas_loop kzalloc_ok page_zone [] i = (0, [], [])"
| "init_areas_loop kzalloc_ok page_zone (c # cs) i =
     (case cma_activate_area (kzalloc_ok i) page_zone c of (ret, c', blocks) \<Rightarrow>
        if ret \<noteq> 0 then (ret, c' # cs, blocks)
        else case init_areas_loop kzalloc_ok page_zone cs (i + 1) of (ret, cs', blocks') \<Rightarrow> (ret, c' # cs', blocks @ blocks'))"

definition cma_init_reserved_areas :: "(nat \<Rightarrow> bool) \<Rightarrow> (u32 \<Rightarrow> nat) \<Rightarrow> cma_state \<Rightarrow> int \<times> cma_state \<times> u32 list" where
  "cma_init_reserved_areas kzalloc_ok page_zone cs =
     (case init_areas_loop kzalloc_ok page_zone (cma_areas cs) 0 of (ret, areas, blocks) \<Rightarrow>
        (ret, cs\<lparr>cma_areas := areas\<rparr>, blocks))"

section \<open>Lemmas: the arithmetic of an area\<close>

text \<open>An area in use: its page frames lie in the 32-bit address space, its count is a multiple of the
  pages per bit, and its bitmap has a bit for every block. \<^verbatim>\<open>cma_init_reserved_mem\<close> and
  \<^verbatim>\<open>cma_activate_area\<close> establish it.\<close>

definition cma_wf :: "cma \<Rightarrow> bool" where
  "cma_wf c \<longleftrightarrow> order_per_bit c \<le> 10 \<and> unat (base_pfn c) + unat (cma_count c) \<le> 2 ^ 20 \<and>
     2 ^ order_per_bit c dvd unat (cma_count c) \<and>
     length (cma_bitmap c) = BITS_TO_LONGS (unat (cma_bitmap_maxno c))"

lemma ALIGN_exp: "ALIGN x (2 ^ k) = ALIGN_MASK x (mask k)"
  by (simp add: ALIGN_def exp_minus_one_mask)

lemma bitmap_eqI:
  assumes "length bm = length bm'" "\<And>i. i < 32 * length bm \<Longrightarrow> test_bit_at i bm = test_bit_at i bm'"
  shows "bm = bm'"
proof (rule nth_equalityI [OF assms(1)])
  fix q assume q: "q < length bm"
  show "bm ! q = bm' ! q"
  proof (rule bit_word_eqI)
    fix j assume "j < LENGTH(32)"
    then show "bit (bm ! q) j = bit (bm' ! q) j"
      using assms(2) [of "32 * q + j"] q by (simp add: test_bit_at_iff)
  qed
qed

lemma BITS_TO_LONGS_ge: "n \<le> 32 * BITS_TO_LONGS n"
  by (simp add: BITS_TO_LONGS_def DIV_ROUND_UP_def)

lemma maxno_pages:
  assumes "cma_wf c"
  shows "unat (cma_bitmap_maxno c) * 2 ^ order_per_bit c = unat (cma_count c)" "unat (cma_bitmap_maxno c) \<le> 2 ^ 20"
    "unat (cma_bitmap_maxno c) \<le> 32 * length (cma_bitmap c)"
proof -
  have m: "unat (cma_bitmap_maxno c) = unat (cma_count c) div 2 ^ order_per_bit c"
    by (simp add: cma_bitmap_maxno_def unat_drop_bit_32)
  show "unat (cma_bitmap_maxno c) * 2 ^ order_per_bit c = unat (cma_count c)"
    using assms unfolding m by (simp add: cma_wf_def)
  have "unat (cma_count c) \<le> 2 ^ 20" using assms by (simp add: cma_wf_def)
  then show "unat (cma_bitmap_maxno c) \<le> 2 ^ 20" unfolding m by (rule order_trans [OF div_le_dividend])
  show "unat (cma_bitmap_maxno c) \<le> 32 * length (cma_bitmap c)"
    using assms BITS_TO_LONGS_ge by (simp add: cma_wf_def)
qed

text \<open>Page counts that can be rounded up to whole blocks without wrap-around.\<close>

definition count_ok :: "cma \<Rightarrow> u32 \<Rightarrow> bool" where
  "count_ok c cnt \<longleftrightarrow> unat cnt + 2 ^ order_per_bit c \<le> 2 ^ 32"

lemma pages_to_bits:
  assumes "cma_wf c" "count_ok c cnt"
  shows "unat cnt \<le> unat (cma_bitmap_pages_to_bits c cnt) * 2 ^ order_per_bit c"
    "cnt \<noteq> 0 \<Longrightarrow> 0 < unat (cma_bitmap_pages_to_bits c cnt)"
proof -
  let ?o = "order_per_bit c"
  have b: "cma_bitmap_pages_to_bits c cnt = drop_bit ?o (ALIGN_MASK cnt (mask ?o))"
    by (simp add: cma_bitmap_pages_to_bits_def ALIGN_exp)
  have a: "unat cnt \<le> unat (ALIGN_MASK cnt (mask ?o))" "2 ^ ?o dvd unat (ALIGN_MASK cnt (mask ?o))"
    using unat_ALIGN_MASK [of cnt ?o] assms(2) by (auto simp: count_ok_def)
  then show le: "unat cnt \<le> unat (cma_bitmap_pages_to_bits c cnt) * 2 ^ ?o"
    unfolding b by (simp add: unat_drop_bit_32)
  assume "cnt \<noteq> 0"
  then have "0 < unat cnt" by (simp add: unat_gt_0)
  with le show "0 < unat (cma_bitmap_pages_to_bits c cnt)" by (cases "unat (cma_bitmap_pages_to_bits c cnt)") auto
qed

lemma aligned_mask: "align < 32 \<Longrightarrow> cma_bitmap_aligned_mask c align = mask (align - order_per_bit c)"
  by (simp add: cma_bitmap_aligned_mask_def push_bit_eq_mult exp_minus_one_mask)

lemma aligned_offset:
  assumes "cma_wf c" "align \<le> 20"
  shows "unat (cma_bitmap_aligned_offset c align) \<le> 2 ^ 20"
    "2 ^ align dvd unat (base_pfn c) \<Longrightarrow> cma_bitmap_aligned_offset c align = 0"
proof -
  let ?a = "ALIGN_MASK (base_pfn c) (mask align)"
  have base: "unat (base_pfn c) \<le> 2 ^ 20" using assms(1) by (simp add: cma_wf_def)
  have two: "(2 :: nat) ^ align \<le> 2 ^ 20" using assms(2) by (intro power_increasing) auto
  have fit: "unat (base_pfn c) + 2 ^ align \<le> 2 ^ 32" using add_mono [OF base two] by simp
  note a = unat_ALIGN_MASK [OF fit]
  then have d: "unat (?a - base_pfn c) = unat ?a - unat (base_pfn c)"
    by (intro unat_sub) (simp add: word_le_nat_alt)
  have off: "cma_bitmap_aligned_offset c align = (if align \<le> order_per_bit c then 0 else drop_bit (order_per_bit c) (?a - base_pfn c))"
    using assms(2) by (simp add: cma_bitmap_aligned_offset_def ALIGN_exp)
  have "unat (?a - base_pfn c) \<le> 2 ^ 20" using d a two by linarith
  then have "unat (?a - base_pfn c) div 2 ^ order_per_bit c \<le> 2 ^ 20" by (rule order_trans [OF div_le_dividend])
  then show "unat (cma_bitmap_aligned_offset c align) \<le> 2 ^ 20" unfolding off by (simp add: unat_drop_bit_32)
  assume "2 ^ align dvd unat (base_pfn c)"
  then have "unat ?a \<le> unat (base_pfn c)" using dvd_between a by blast
  then have "?a = base_pfn c" using a by (simp add: word_unat_eq_iff)
  then show "cma_bitmap_aligned_offset c align = 0" by (simp add: off)
qed

text \<open>A block of bits that fits the area, and the page frame of its first page.\<close>

lemma block_pfn:
  assumes "cma_wf c" "unat n + b \<le> unat (cma_bitmap_maxno c)"
  defines "pfn \<equiv> base_pfn c + push_bit (order_per_bit c) n"
  shows "unat pfn = unat (base_pfn c) + unat n * 2 ^ order_per_bit c"
    "unat pfn + b * 2 ^ order_per_bit c \<le> unat (base_pfn c) + unat (cma_count c)"
    "drop_bit (order_per_bit c) (pfn - base_pfn c) = n"
proof -
  let ?o = "order_per_bit c"
  have le: "(unat n + b) * 2 ^ ?o \<le> unat (cma_count c)"
    using mult_le_mono1 [OF assms(2), of "2 ^ ?o"] maxno_pages(1) [OF assms(1)] by simp
  then have n: "unat n * 2 ^ ?o \<le> unat (cma_count c)" by (simp add: add_mult_distrib)
  have "unat (base_pfn c) + unat (cma_count c) \<le> 2 ^ 20" using assms(1) by (simp add: cma_wf_def)
  with n have small: "unat n * 2 ^ ?o < 2 ^ 32" "unat (base_pfn c) + unat n * 2 ^ ?o < 2 ^ 32" by auto
  note p = unat_push_bit_32 [OF small(1)]
  show pfn: "unat pfn = unat (base_pfn c) + unat n * 2 ^ ?o"
    unfolding pfn_def using small p by (simp add: unat_add_32)
  show "unat pfn + b * 2 ^ ?o \<le> unat (base_pfn c) + unat (cma_count c)"
    using le unfolding pfn by (simp add: add_mult_distrib)
  show "drop_bit ?o (pfn - base_pfn c) = n"
    unfolding pfn_def by (simp add: word_unat_eq_iff unat_drop_bit_32 p)
qed

section \<open>Lemmas: allocation\<close>

definition cma_used :: "cma \<Rightarrow> nat \<Rightarrow> bool" where
  "cma_used c i \<longleftrightarrow> test_bit_at i (cma_bitmap c)"

text \<open>\<open>cma_marked c n b c'\<close>: the bits \<open>n\<close> to \<open>n + b - 1\<close> were clear in \<open>c\<close> and are set in \<open>c'\<close>; nothing else
  differs.\<close>

definition cma_marked :: "cma \<Rightarrow> nat \<Rightarrow> nat \<Rightarrow> cma \<Rightarrow> bool" where
  "cma_marked c n b c' \<longleftrightarrow> cma_wf c' \<and> c' = c\<lparr>cma_bitmap := cma_bitmap c'\<rparr> \<and>
     (\<forall>i. n \<le> i \<and> i < n + b \<longrightarrow> \<not> cma_used c i) \<and>
     (\<forall>i. cma_used c' i \<longleftrightarrow> (n \<le> i \<and> i < n + b) \<or> cma_used c i)"

lemma cma_marked_set:
  fixes b :: u32
  assumes "cma_wf c" "n + unat b \<le> unat (cma_bitmap_maxno c)" "\<forall>i. n \<le> i \<and> i < n + unat b \<longrightarrow> \<not> cma_used c i"
  shows "cma_marked c n (unat b) (c\<lparr>cma_bitmap := bitmap_set (cma_bitmap c) n (sint b)\<rparr>)"
proof -
  have "unat b < 2 ^ 31" using assms(2) maxno_pages(2) [OF assms(1)] by simp
  then have s: "sint b = int (unat b)" by (rule sint_small)
  have "int n + sint b \<le> int (32 * length (cma_bitmap c))"
    using assms(2) maxno_pages(3) [OF assms(1)] unfolding s by linarith
  note set = bitmap_set_spec [OF _ this, unfolded s, simplified]
  show ?thesis using assms(1,3) set by (simp add: cma_marked_def cma_used_def cma_wf_def cma_bitmap_maxno_def s)
qed

lemma cma_clear_marked:
  assumes "cma_wf c" "cma_marked c (unat n) (unat (cma_bitmap_pages_to_bits c cnt)) c'"
    "unat n + unat (cma_bitmap_pages_to_bits c cnt) \<le> unat (cma_bitmap_maxno c)"
  shows "cma_clear_bitmap c' (base_pfn c + push_bit (order_per_bit c) n) cnt = c"
proof -
  let ?b = "cma_bitmap_pages_to_bits c cnt"
  obtain bm where "c' = c\<lparr>cma_bitmap := bm\<rparr>" using assms(2) unfolding cma_marked_def by metis
  then have eq: "base_pfn c' = base_pfn c" "order_per_bit c' = order_per_bit c" "c'\<lparr>cma_bitmap := cma_bitmap c\<rparr> = c"
    "cma_bitmap_maxno c' = cma_bitmap_maxno c" by (simp_all add: cma_bitmap_maxno_def)
  have wf': "cma_wf c'" using assms(2) by (simp add: cma_marked_def)
  have "unat ?b < 2 ^ 31" using assms(3) maxno_pages(2) [OF assms(1)] by simp
  then have s: "sint ?b = int (unat ?b)" by (rule sint_small)
  have "int (unat n) + sint ?b \<le> int (32 * length (cma_bitmap c'))"
    using assms(3) maxno_pages(3) [OF wf'] unfolding s eq by linarith
  note clr = bitmap_clear_spec [OF _ this, unfolded s, simplified]
  have "bitmap_clear (cma_bitmap c') (unat n) (int (unat ?b)) = cma_bitmap c"
  proof (rule bitmap_eqI)
    have l: "length (cma_bitmap c') = length (cma_bitmap c)" using wf' assms(1) eq by (simp add: cma_wf_def)
    then show "length (bitmap_clear (cma_bitmap c') (unat n) (int (unat ?b))) = length (cma_bitmap c)" by (simp add: clr)
  qed (use assms(2) in \<open>auto simp: clr cma_marked_def cma_used_def\<close>)
  then show ?thesis
    using block_pfn(3) [OF assms(1) assms(3)] eq s
    by (simp add: cma_clear_bitmap_def cma_bitmap_pages_to_bits_def Let_def)
qed

text \<open>The areas of free bits that fit a request, their first page frames, and what \<^verbatim>\<open>cma_alloc\<close> achieves:
  it takes one of them that the page allocator grants, or it changes nothing, and then the page
  allocator failed on one of them or was busy on all of them.\<close>

definition cma_free_area :: "cma \<Rightarrow> u32 \<Rightarrow> nat \<Rightarrow> nat \<Rightarrow> bool" where
  "cma_free_area c cnt align n \<longleftrightarrow>
     zero_area (cma_bitmap c) (unat (cma_bitmap_maxno c)) (unat (cma_bitmap_pages_to_bits c cnt))
       (align - order_per_bit c) (unat (cma_bitmap_aligned_offset c align)) n"

definition area_pfn :: "cma \<Rightarrow> nat \<Rightarrow> u32" where
  "area_pfn c n = base_pfn c + push_bit (order_per_bit c) (of_nat n)"

definition cma_refused :: "(u32 \<Rightarrow> u32 \<Rightarrow> 'pa \<Rightarrow> int \<times> 'pa) \<Rightarrow> cma \<Rightarrow> u32 \<Rightarrow> nat \<Rightarrow> int \<Rightarrow> bool" where
  "cma_refused acr c cnt n e \<longleftrightarrow> (\<exists>pa. fst (acr (area_pfn c n) (area_pfn c n + cnt) pa) = e)"

definition cma_outcome ::
  "(u32 \<Rightarrow> u32 \<Rightarrow> 'pa \<Rightarrow> int \<times> 'pa) \<Rightarrow> cma \<Rightarrow> u32 \<Rightarrow> nat \<Rightarrow> nat \<Rightarrow> u32 option \<Rightarrow> cma \<Rightarrow> bool" where
  "cma_outcome acr c cnt align start r c' \<longleftrightarrow>
     (case r of
        Some pfn \<Rightarrow> (\<exists>n. cma_free_area c cnt align n \<and> pfn = area_pfn c n \<and> cma_refused acr c cnt n 0 \<and>
                        cma_marked c n (unat (cma_bitmap_pages_to_bits c cnt)) c')
      | None \<Rightarrow> c' = c \<and>
          ((\<exists>n e. cma_free_area c cnt align n \<and> cma_refused acr c cnt n e \<and> e \<notin> {0, - EBUSY}) \<or>
           (\<forall>n \<ge> start. cma_free_area c cnt align n \<longrightarrow> cma_refused acr c cnt n (- EBUSY))))"

lemma cma_find_cases:
  assumes "cma_wf c" "count_ok c cnt" "cnt \<noteq> 0" "align \<le> 20" "\<not> cma_bitmap_pages_to_bits c cnt > cma_bitmap_maxno c"
  obtains (found) n where
      "cma_find_zero_area c start (cma_bitmap_pages_to_bits c cnt) (cma_bitmap_aligned_mask c align)
        (cma_bitmap_aligned_offset c align) = Some n" "n < cma_bitmap_maxno c"
      "cma_free_area c cnt align (unat n)" "unat start \<le> unat n"
      "\<forall>r. unat start \<le> r \<and> cma_free_area c cnt align r \<longrightarrow> unat n \<le> r"
    | (none) n where
      "cma_find_zero_area c start (cma_bitmap_pages_to_bits c cnt) (cma_bitmap_aligned_mask c align)
        (cma_bitmap_aligned_offset c align) = Some n" "\<not> n < cma_bitmap_maxno c"
      "\<forall>r. unat start \<le> r \<longrightarrow> \<not> cma_free_area c cnt align r"
proof -
  let ?nr = "cma_bitmap_pages_to_bits c cnt" and ?sz = "cma_bitmap_maxno c"
    and ?off = "cma_bitmap_aligned_offset c align" and ?k = "align - order_per_bit c"
  have k: "(2 :: nat) ^ ?k \<le> 2 ^ 20" using assms(4) by (intro power_increasing) auto
  have "unat ?nr \<le> unat ?sz" using assms(5) by (simp add: word_le_nat_alt [symmetric])
  then have fit: "unat ?sz + unat ?nr + unat ?off + 2 ^ ?k \<le> 2 ^ 32"
    using maxno_pages(2) [OF assms(1)] aligned_offset(1) [OF assms(1,4)] k by simp
  have m: "cma_bitmap_aligned_mask c align = mask ?k" using assms(4) by (intro aligned_mask) simp
  show ?thesis
    using zero_area.find_area_cases [OF pages_to_bits(2) [OF assms(1-3)] fit, of "unat ?sz + 1" "cma_bitmap c" start thesis]
      found none
    unfolding cma_find_zero_area_def cma_free_area_def m by simp
qed

text \<open>Free areas lie a multiple of the alignment apart.\<close>

lemma next_free_area:
  assumes "cma_free_area c cnt align n" "cma_free_area c cnt align r" "n < r"
  shows "n + 2 ^ (align - order_per_bit c) \<le> r"
proof -
  let ?d = "2 ^ (align - order_per_bit c) :: nat" and ?off = "unat (cma_bitmap_aligned_offset c align)"
  have "?d dvd r + ?off" "?d dvd n + ?off" using assms by (auto simp: cma_free_area_def zero_area_def)
  then have "?d dvd (r + ?off) - (n + ?off)" by (rule dvd_diff_nat)
  then have "?d \<le> r - n" using assms(3) by (intro dvd_imp_le) auto
  then show ?thesis using assms(3) by simp
qed

lemma cma_alloc_loop_total:
  assumes "cma_wf c" "count_ok c cnt" "cnt \<noteq> 0" "align \<le> 20" "\<not> cma_bitmap_pages_to_bits c cnt > cma_bitmap_maxno c"
    "unat (cma_bitmap_maxno c) - unat start < fuel"
  shows "\<exists>r c' pa'. cma_alloc_loop fuel acr cnt (cma_bitmap_aligned_mask c align) (cma_bitmap_aligned_offset c align)
      (cma_bitmap_pages_to_bits c cnt) start (c, pa) = Some (r, c', pa') \<and> cma_outcome acr c cnt align (unat start) r c'"
  using assms(6)
proof (induction fuel arbitrary: start pa)
  case (Suc fuel)
  let ?b = "cma_bitmap_pages_to_bits c cnt" and ?k = "align - order_per_bit c" and ?max = "unat (cma_bitmap_maxno c)"
  from assms(1-5) show ?case
  proof (cases rule: cma_find_cases [where start = start])
    case (none n)
    then show ?thesis by (simp add: cma_outcome_def not_less)
  next
    case (found n)
    define c1 where "c1 = c\<lparr>cma_bitmap := bitmap_set (cma_bitmap c) (unat n) (sint ?b)\<rparr>"
    define pfn where "pfn = base_pfn c + push_bit (order_per_bit c) n"
    obtain ret pa1 where ret: "acr pfn (pfn + cnt) pa = (ret, pa1)" by fastforce
    have pfn: "pfn = area_pfn c (unat n)" by (simp add: pfn_def area_pfn_def)
    have refused: "cma_refused acr c cnt (unat n) ret"
      unfolding cma_refused_def pfn [symmetric] using ret by (metis fst_conv)
    have fits: "unat n + unat ?b \<le> ?max" using found(3) by (simp add: cma_free_area_def zero_area_def)
    have marked: "cma_marked c (unat n) (unat ?b) c1"
      unfolding c1_def using found(3) by (intro cma_marked_set assms(1) fits) (simp add: cma_free_area_def zero_area_def cma_used_def)
    have clr: "cma_clear_bitmap c1 pfn cnt = c" unfolding pfn_def by (rule cma_clear_marked [OF assms(1) marked fits])
    have k: "?k \<le> 20" using assms(4) by simp
    then have k2: "(2 :: nat) ^ ?k \<le> 2 ^ 20" by (intro power_increasing) auto
    have next': "unat (n + mask ?k + 1) = unat n + 2 ^ ?k"
    proof -
      have eq: "n + mask ?k + 1 = n + 2 ^ ?k" by (simp add: mask_eq_exp_minus_1)
      have "unat n + 2 ^ ?k < 2 ^ 32" using fits maxno_pages(2) [OF assms(1)] k2 by simp
      then show ?thesis using k unfolding eq by (simp add: unat_add_32 unat_exp_32)
    qed
    have step: "cma_alloc_loop (Suc fuel) acr cnt (cma_bitmap_aligned_mask c align) (cma_bitmap_aligned_offset c align) ?b start (c, pa) =
      (if ret = 0 then Some (Some pfn, c1, pa1) else if ret \<noteq> - EBUSY then Some (None, c, pa1)
       else cma_alloc_loop fuel acr cnt (cma_bitmap_aligned_mask c align) (cma_bitmap_aligned_offset c align) ?b
         (n + cma_bitmap_aligned_mask c align + 1) (c, pa1))"
      using found(1) found(2) [folded not_le] ret clr unfolding c1_def pfn_def by (simp add: Let_def)
    have m: "cma_bitmap_aligned_mask c align = mask ?k" using assms(4) by (intro aligned_mask) simp
    consider "ret = 0" | "ret \<noteq> 0" "ret \<noteq> - EBUSY" | "ret \<noteq> 0" "ret = - EBUSY" by blast
    then show ?thesis
    proof cases
      case 1
      then show ?thesis using refused marked found(3) pfn unfolding step by (auto simp: cma_outcome_def)
    next
      case 2
      then show ?thesis using refused found(3) unfolding step by (auto simp: cma_outcome_def)
    next
      case 3
      have "0 < (2 :: nat) ^ ?k" by simp
      then have "?max - unat (n + mask ?k + 1) < fuel"
        using Suc.prems found(4) fits pages_to_bits(2) [OF assms(1-3)] unfolding next' by linarith
      from Suc.IH [OF this, of pa1] obtain r c' pa' where
        r: "cma_alloc_loop fuel acr cnt (cma_bitmap_aligned_mask c align) (cma_bitmap_aligned_offset c align) ?b
          (n + mask ?k + 1) (c, pa1) = Some (r, c', pa')" "cma_outcome acr c cnt align (unat n + 2 ^ ?k) r c'"
        unfolding next' by blast
      have "cma_refused acr c cnt q (- EBUSY)" if "unat start \<le> q" "cma_free_area c cnt align q"
          "\<forall>q \<ge> unat n + 2 ^ ?k. cma_free_area c cnt align q \<longrightarrow> cma_refused acr c cnt q (- EBUSY)" for q
        using that next_free_area [OF found(3) that(2)] found(5) refused 3
        by (metis le_neq_implies_less)
      then have "cma_outcome acr c cnt align (unat start) r c'"
        using r(2) unfolding cma_outcome_def by (auto split: option.splits)
      then show ?thesis using 3 r(1) [folded m] unfolding step by auto
    qed
  qed
qed simp

lemma cma_alloc_total:
  assumes "cma_wf c" "count_ok c cnt" "align \<le> 20"
  shows "\<exists>r c' pa'. cma_alloc acr cnt align (c, pa) = Some (r, c', pa') \<and> (cnt \<noteq> 0 \<longrightarrow> cma_outcome acr c cnt align 0 r c') \<and>
    (cnt = 0 \<longrightarrow> r = None \<and> c' = c)"
proof (cases "cma_count c = 0 \<or> cnt = 0 \<or> cma_bitmap_pages_to_bits c cnt > cma_bitmap_maxno c")
  case True
  then have "cma_alloc acr cnt align (c, pa) = Some (None, c, pa)" by (auto simp: cma_alloc_def Let_def)
  moreover have "\<not> cma_free_area c cnt align n" if "cnt \<noteq> 0" for n
    using True that pages_to_bits(2) [OF assms(1,2) that]
    by (auto simp: cma_free_area_def zero_area_def cma_bitmap_maxno_def word_less_nat_alt)
  ultimately show ?thesis by (simp add: cma_outcome_def)
next
  case False
  then show ?thesis using cma_alloc_loop_total [OF assms(1,2) _ assms(3), of 0 "unat (cma_bitmap_maxno c) + 1" acr pa]
    by (simp add: cma_alloc_def Let_def)
qed

section \<open>Lemmas: declaring and activating areas\<close>
















section \<open>Lemmas: the pages of an allocation\<close>

lemma free_area_pages:
  assumes "cma_wf c" "count_ok c cnt" "align \<le> 20" "cma_free_area c cnt align n"
  shows "unat (base_pfn c) \<le> unat (area_pfn c n)"
    "unat (area_pfn c n) + unat cnt \<le> unat (base_pfn c) + unat (cma_count c)"
    "2 ^ align dvd unat (base_pfn c) \<Longrightarrow> 2 ^ align dvd unat (area_pfn c n)"
proof -
  let ?b = "unat (cma_bitmap_pages_to_bits c cnt)" and ?o = "order_per_bit c"
  have f: "n + ?b \<le> unat (cma_bitmap_maxno c)" "2 ^ (align - ?o) dvd n + unat (cma_bitmap_aligned_offset c align)"
    using assms(4) by (simp_all add: cma_free_area_def zero_area_def)
  then have n: "unat (of_nat n :: u32) = n" using maxno_pages(2) [OF assms(1)] by (intro unat_of_nat_32) simp
  note p = block_pfn [OF assms(1), of "of_nat n" ?b, unfolded n, OF f(1), folded area_pfn_def]
  then show "unat (base_pfn c) \<le> unat (area_pfn c n)" by simp
  show "unat (area_pfn c n) + unat cnt \<le> unat (base_pfn c) + unat (cma_count c)"
    using p(2) pages_to_bits(1) [OF assms(1,2)] by linarith
  assume base: "2 ^ align dvd unat (base_pfn c)"
  have "(2 :: nat) ^ align dvd 2 ^ (align - ?o) * 2 ^ ?o" unfolding power_add [symmetric] by (rule le_imp_power_dvd) simp
  moreover have "2 ^ (align - ?o) dvd n" using f(2) aligned_offset(2) [OF assms(1,3) base] by simp
  ultimately have "2 ^ align dvd n * 2 ^ ?o" by (meson dvd_refl dvd_trans mult_dvd_mono)
  then show "2 ^ align dvd unat (area_pfn c n)" using base unfolding p(1) by (rule dvd_add [rotated])
qed

lemma cma_allocE:
  assumes "cma_wf c" "count_ok c cnt" "align \<le> 20" "cma_alloc acr cnt align (c, pa) = Some (Some pfn, c', pa')"
  obtains n where "cma_free_area c cnt align n" "pfn = area_pfn c n" "cnt \<noteq> 0"
    "cma_marked c n (unat (cma_bitmap_pages_to_bits c cnt)) c'"
  using cma_alloc_total [OF assms(1-3), of acr pa] assms(4) by (cases "cnt = 0") (auto simp: cma_outcome_def)

lemma cma_marked_eq:
  assumes "cma_marked c n b c'"
  shows "base_pfn c' = base_pfn c" "cma_count c' = cma_count c"
proof -
  obtain bm where "c' = c\<lparr>cma_bitmap := bm\<rparr>" using assms unfolding cma_marked_def by blast
  then show "base_pfn c' = base_pfn c" "cma_count c' = cma_count c" by simp_all
qed

section \<open>Properties\<close>

definition example_cma :: cma where
  "example_cma = \<lparr>base_pfn = 0x40400, cma_count = 0x2000, cma_bitmap = [0], order_per_bit = 10\<rparr>"

lemma example_cma: "cma_wf example_cma" "count_ok example_cma 3" "(2 :: nat) \<le> 20"
  by (simp_all add: cma_wf_def count_ok_def example_cma_def cma_bitmap_maxno_def BITS_TO_LONGS_def DIV_ROUND_UP_def)

text \<open>C11: \<^verbatim>\<open>cma_alloc\<close> returns whatever the page allocator answers, and is safe: an allocation takes pages inside
  the area whose bits were clear, sets exactly the bits of the blocks they need, and is aligned as requested if
  the base of the area is. A failure leaves the area as it was, and it means that the request was empty, that the
  page allocator failed on a fitting free range with an error other than \<^verbatim>\<open>-EBUSY\<close>, or that it was busy
  on every fitting free range.\<close>

theorem cma_alloc_safe:
  assumes "cma_wf c" "count_ok c cnt" "align \<le> 20"
  shows "\<exists>r c' pa'. cma_alloc acr cnt align (c, pa) = Some (r, c', pa') \<and>
    (case r of
       None \<Rightarrow> c' = c \<and> (cnt = 0 \<or>
         (\<exists>n e. cma_free_area c cnt align n \<and> cma_refused acr c cnt n e \<and> e \<notin> {0, - EBUSY}) \<or>
         (\<forall>n. cma_free_area c cnt align n \<longrightarrow> cma_refused acr c cnt n (- EBUSY)))
     | Some pfn \<Rightarrow> unat (base_pfn c) \<le> unat pfn \<and> unat pfn + unat cnt \<le> unat (base_pfn c) + unat (cma_count c) \<and>
         (2 ^ align dvd unat (base_pfn c) \<longrightarrow> 2 ^ align dvd unat pfn) \<and>
         (\<exists>n. pfn = area_pfn c n \<and> cma_marked c n (unat (cma_bitmap_pages_to_bits c cnt)) c'))"
proof -
  obtain r c' pa' where r: "cma_alloc acr cnt align (c, pa) = Some (r, c', pa')" "cnt \<noteq> 0 \<longrightarrow> cma_outcome acr c cnt align 0 r c'"
    "cnt = 0 \<longrightarrow> r = None \<and> c' = c" using cma_alloc_total [OF assms, of acr pa] by blast
  show ?thesis
  proof (cases r)
    case None
    then show ?thesis using r by (intro exI [of _ None] exI [of _ c'] exI [of _ pa']) (auto simp: cma_outcome_def)
  next
    case (Some pfn)
    obtain n where n: "cma_free_area c cnt align n" "pfn = area_pfn c n" "cma_marked c n (unat (cma_bitmap_pages_to_bits c cnt)) c'"
      by (rule cma_allocE [OF assms r(1) [unfolded Some]])
    show ?thesis using r(1) free_area_pages [OF assms n(1)] n(2,3) unfolding Some
      by (intro exI [of _ "Some pfn"] exI [of _ c'] exI [of _ pa']) auto
  qed
qed

theorem cma_alloc_safe_witness:
  "\<exists>r c' pa'. cma_alloc (\<lambda>a b n. (if n < (1 :: nat) then - EBUSY else 0, n + 1)) 3 2 (example_cma, 0) = Some (r, c', pa') \<and>
    r = Some 0x40800 \<and> unat (base_pfn example_cma) \<le> unat (0x40800 :: u32)"
proof -
  have "map_option fst (cma_alloc (\<lambda>a b n. (if n < (1 :: nat) then - EBUSY else 0, n + 1)) 3 2 (example_cma, 0)) = Some (Some 0x40800)"
    by code_simp
  then show ?thesis using cma_alloc_safe [OF example_cma, of "\<lambda>a b n. (if n < (1 :: nat) then - EBUSY else 0, n + 1)" 0] by auto
qed

text \<open>C13: Releasing the pages of an allocation undoes it: \<^verbatim>\<open>cma_release\<close> accepts them, gives them to
  the page allocator, and the area is as it was before the allocation.\<close>

theorem cma_alloc_release:
  assumes "cma_wf c" "count_ok c cnt" "align \<le> 20" "cma_alloc acr cnt align (c, pa) = Some (Some pfn, c', pa')"
  shows "cma_release free_contig_range pfn cnt (c', pa') = (True, c, free_contig_range pfn cnt pa')"
proof -
  obtain n where n: "cma_free_area c cnt align n" "pfn = area_pfn c n" "cnt \<noteq> 0"
    "cma_marked c n (unat (cma_bitmap_pages_to_bits c cnt)) c'" by (rule cma_allocE [OF assms])
  have fits: "n + unat (cma_bitmap_pages_to_bits c cnt) \<le> unat (cma_bitmap_maxno c)"
    using n(1) by (simp add: cma_free_area_def zero_area_def)
  then have u: "unat (of_nat n :: u32) = n" using maxno_pages(2) [OF assms(1)] by (intro unat_of_nat_32) simp
  have clr: "cma_clear_bitmap c' pfn cnt = c"
    using cma_clear_marked [OF assms(1), of "of_nat n" cnt c', unfolded u] n(4) fits unfolding n(2) area_pfn_def by blast
  have eq: "base_pfn c' = base_pfn c" "cma_count c' = cma_count c"
    by (rule cma_marked_eq [OF n(4)])+
  have "unat (base_pfn c + cma_count c) = unat (base_pfn c) + unat (cma_count c)"
    using assms(1) by (intro unat_add_32) (simp add: cma_wf_def)
  moreover have "0 < unat cnt" using n(3) by (simp add: unat_gt_0)
  ultimately have "\<not> (pfn < base_pfn c \<or> pfn \<ge> base_pfn c + cma_count c)"
    using free_area_pages(1,2) [OF assms(1-3) n(1)] unfolding n(2) by (simp add: word_less_nat_alt word_le_nat_alt)
  then show ?thesis using clr by (simp add: cma_release_def eq)
qed

theorem cma_alloc_release_witness:
  "\<exists>pfn c' pa'. cma_alloc (\<lambda>a b n. (0, n + 1)) 3 2 (example_cma, 0 :: nat) = Some (Some pfn, c', pa') \<and>
    cma_release (\<lambda>pfn cnt n. n - 1) pfn 3 (c', pa') = (True, example_cma, pa' - 1)"
proof -
  obtain r c' pa' where r: "cma_alloc (\<lambda>a b n. (0, n + 1)) 3 2 (example_cma, 0 :: nat) = Some (r, c', pa')"
    "r = Some 0x40400"
  proof -
    have "map_option fst (cma_alloc (\<lambda>a b n. (0, n + 1)) 3 2 (example_cma, 0 :: nat)) = Some (Some 0x40400)" by code_simp
    then show ?thesis using that by auto
  qed
  show ?thesis using cma_alloc_release [OF example_cma, of "\<lambda>a b n. (0, n + 1)" 0 "0x40400" c' pa' "\<lambda>pfn cnt n. n - 1"] r by auto
qed




end
