(* ===== verification/Byte_Memory.thy ===== *)
theory Byte_Memory
  imports Kernel_Prelude
begin

text \<open>
  Arrays in memory as lists of bytes: reading and writing the bytes of an object, as \<^verbatim>\<open>memcpy\<close> and
  assignments through pointers do, and an array seen as the list of its elements. Checked
  versions of the accesses return \<open>None\<close> outside the array.
\<close>

section \<open>Reading and writing bytes\<close>

type_synonym mem = "u8 list"

definition load :: "nat \<Rightarrow> nat \<Rightarrow> mem \<Rightarrow> u8 list" where
  "load n a m = take n (drop a m)"

definition store :: "nat \<Rightarrow> u8 list \<Rightarrow> mem \<Rightarrow> mem" where
  "store a bs m = take a m @ bs @ drop (a + length bs) m"

definition load_checked :: "nat \<Rightarrow> nat \<Rightarrow> mem \<Rightarrow> u8 list option" where
  "load_checked n a m = (if a + n \<le> length m then Some (load n a m) else None)"

definition store_checked :: "nat \<Rightarrow> u8 list \<Rightarrow> mem \<Rightarrow> mem option" where
  "store_checked a bs m = (if a + length bs \<le> length m then Some (store a bs m) else None)"

text \<open>The elements of an array of \<open>num\<close> objects of \<open>sz\<close> bytes.\<close>

definition elements :: "nat \<Rightarrow> nat \<Rightarrow> mem \<Rightarrow> u8 list list" where
  "elements sz num m = map (\<lambda>k. load sz (k * sz) m) [0..<num]"

section \<open>Lemmas\<close>

lemma length_load [simp]: "a + n \<le> length m \<Longrightarrow> length (load n a m) = n"
  by (simp add: load_def)

lemma nth_load: "a + n \<le> length m \<Longrightarrow> i < n \<Longrightarrow> load n a m ! i = m ! (a + i)"
  by (simp add: load_def)

lemma length_store [simp]: "a + length bs \<le> length m \<Longrightarrow> length (store a bs m) = length m"
  by (simp add: store_def)

lemma nth_store:
  assumes "a + length bs \<le> length m" "p < length m"
  shows "store a bs m ! p = (if a \<le> p \<and> p < a + length bs then bs ! (p - a) else m ! p)"
proof (cases "p < a")
  case False
  have l: "length (take a m) = a" using assms(1) by simp
  show ?thesis
  proof (cases "p < a + length bs")
    case True
    then have "p - a < length bs" using False by linarith
    then show ?thesis using True False l by (simp add: store_def nth_append)
  next
    case f: False
    then have "\<not> p - a < length bs" "a + length bs + (p - a - length bs) = p" using False by linarith+
    then show ?thesis using f False l assms by (simp add: store_def nth_append)
  qed
qed (use assms in \<open>simp add: store_def nth_append\<close>)

lemma length_elements [simp]: "length (elements sz num m) = num"
  by (simp add: elements_def)

lemma nth_elements: "k < num \<Longrightarrow> elements sz num m ! k = load sz (k * sz) m"
  by (simp add: elements_def)

lemma block_le: "i < j \<Longrightarrow> i * sz + sz \<le> j * (sz :: nat)"
  using mult_le_mono1 [of "i + 1" j sz] by (simp add: algebra_simps)

lemma load_append: "load (m + n) a d = load m a d @ load n (a + m) d"
  by (simp add: load_def take_add add.commute)

lemma load_blocks: "load (n * e) (a * e) d = concat (map (\<lambda>k. load e (k * e) d) [a..<a + n])"
proof (induction n)
  case (Suc n)
  have "load (Suc n * e) (a * e) d = load (n * e) (a * e) d @ load e ((a + n) * e) d"
    using load_append [of "n * e" e "a * e" d] by (simp add: algebra_simps)
  then show ?case using Suc by simp
qed (simp add: load_def)

lemma load_load: "j + n \<le> k \<Longrightarrow> load n j (load k a d) = load n (a + j) d"
  by (simp add: load_def drop_take add.commute min_def)

lemma elements_store:
  assumes "length bs = n * e" "o' + n \<le> num" "length d = num * e" "k < num"
  shows "elements e num (store (o' * e) bs d) ! k = (if o' \<le> k \<and> k < o' + n then load e ((k - o') * e) bs else elements e num d ! k)"
proof -
  have fit: "o' * e + length bs \<le> length d" using mult_le_mono1 [OF assms(2), of e] assms(1,3) by (simp add: algebra_simps)
  have fitk: "k * e + e \<le> length d" using block_le [OF assms(4), of e] assms(3) by simp
  have nth: "store (o' * e) bs d ! (k * e + q) = (if o' \<le> k \<and> k < o' + n then bs ! ((k - o') * e + q) else d ! (k * e + q))"
    if q: "q < e" for q
  proof -
    have c: "o' * e \<le> k * e + q \<and> k * e + q < o' * e + n * e \<longleftrightarrow> o' \<le> k \<and> k < o' + n"
    proof -
      have "k * e + e \<le> o' * e" if "k < o'" using block_le [OF that] .
      moreover have "k * e + e \<le> (o' + n) * e" if "k < o' + n" using block_le [OF that] .
      moreover have "o' * e \<le> k * e" if "o' \<le> k" using that by simp
      moreover have "(o' + n) * e \<le> k * e" if "o' + n \<le> k" using mult_le_mono1 [OF that] .
      ultimately show ?thesis
        using q by (cases "o' \<le> k"; cases "o' + n \<le> k") (auto simp: add_mult_distrib not_le intro: trans_le_add1)
    qed
    have "k * e + q - o' * e = (k - o') * e + q" if "o' \<le> k" using that by (simp add: diff_mult_distrib)
    then show ?thesis using nth_store [OF fit, of "k * e + q"] fitk q unfolding assms(1) c by simp
  qed
  show ?thesis
  proof (cases "o' \<le> k \<and> k < o' + n")
    case True
    then have "(k - o') * e + e \<le> n * e" by (intro block_le) auto
    then have "load e (k * e) (store (o' * e) bs d) = load e ((k - o') * e) bs"
      using True fit fitk nth assms(1) by (intro nth_equalityI) (simp_all add: nth_load)
    then show ?thesis using True assms(4) by (simp add: nth_elements)
  next
    case False
    then have "load e (k * e) (store (o' * e) bs d) = load e (k * e) d"
      using fit fitk nth by (intro nth_equalityI) (auto simp: nth_load)
    then show ?thesis using False assms(4) by (auto simp: nth_elements)
  qed
qed

lemma store_nothing [simp]: "store a [] d = d"
  by (simp add: store_def)

lemma load_prefix:
  assumes "j * e + e \<le> c" "c \<le> length from"
  shows "load e (j * e) (load c 0 from @ zs) = load e (j * e) from"
proof -
  have "load e (j * e) (load c 0 from @ zs) = load e (j * e) (load c 0 from)" using assms by (simp add: load_def)
  then show ?thesis using assms by (simp add: load_load)
qed

lemma take_concat_blocks: "\<forall>x \<in> set xs. length x = e \<Longrightarrow> take (i * e) (concat xs) = concat (take i xs)"
proof (induction xs arbitrary: i)
  case (Cons x xs)
  then show ?case by (cases i) auto
qed simp

lemma load_single: "load e (0 * e) v = v" if "length v = e"
  using that by (simp add: load_def)

end
