(* ===== verification/Sort.thy ===== *)
theory Sort
  imports Byte_Memory "HOL-Library.Multiset"
begin

text \<open>
  Sorting and searching arrays, \<^verbatim>\<open>lib/sort.c\<close> and \<^verbatim>\<open>lib/bsearch.c\<close>.

  An array of \<open>num\<close> elements of \<open>sz\<close> bytes is a list of bytes, and the callbacks compare two
  elements given as byte lists. The C code scales its counters by the element size; here they count
  elements, and an offset is a counter times \<open>sz\<close>. Offsets are natural numbers, which is what the
  C code computes as long as twice the size of the array fits an \<^verbatim>\<open>int\<close>.

  The swap callback is an interface: \<open>swapper\<close> states that it exchanges two elements, and
  the three functions of the file are shown to implement it. The heap sort is then related to a
  heap sort on the list of elements.
\<close>

section \<open>Swapping\<close>

definition alignment_ok :: "u32 \<Rightarrow> u32 \<Rightarrow> bool" where
  "alignment_ok base align \<longleftrightarrow> True \<or> base AND (align - 1) = 0"

type_synonym swap_func = "nat \<Rightarrow> nat \<Rightarrow> nat \<Rightarrow> mem \<Rightarrow> mem"

definition u32_swap :: swap_func where
  "u32_swap a b sz m = (let t = load 4 a m; m = store a (load 4 b m) m in store b t m)"

definition u64_swap :: swap_func where
  "u64_swap a b sz m = (let t = load 8 a m; m = store a (load 8 b m) m in store b t m)"

text \<open>The loop runs once more after the first round as long as the decremented size is positive.\<close>

function generic_swap :: swap_func where
  "generic_swap a b sz m =
     (let t = m ! a; m = m[a := m ! b]; m = m[b := t]
      in if sz - 1 > 0 then generic_swap (a + 1) (b + 1) (sz - 1) m else m)"
  by pat_completeness auto
termination
  by (relation "measure (\<lambda>(a, b, sz, m). sz)") auto

declare generic_swap.simps [simp del]

text \<open>The choice of \<^verbatim>\<open>sort\<close> when the caller passes no swap function; \<open>base\<close> is the address of the
  array.\<close>

definition default_swap :: "u32 \<Rightarrow> nat \<Rightarrow> swap_func" where
  "default_swap base sz =
     (if sz = 4 \<and> alignment_ok base 4 then u32_swap
      else if sz = 8 \<and> alignment_ok base 8 then u64_swap
      else generic_swap)"

section \<open>Heap sort and binary search\<close>

type_synonym cmp_func = "u8 list \<Rightarrow> u8 list \<Rightarrow> int"

text \<open>The inner loop of both phases: from element \<open>r\<close> down in a heap of \<open>n\<close> elements.\<close>

function sift_down :: "nat \<Rightarrow> cmp_func \<Rightarrow> swap_func \<Rightarrow> nat \<Rightarrow> nat \<Rightarrow> mem \<Rightarrow> mem" where
  "sift_down sz cmp swp n r m =
     (if r * 2 + 1 < n
      then let c = r * 2 + 1;
               c = if c < n - 1 \<and> cmp (load sz (c * sz) m) (load sz (c * sz + sz) m) < 0 then c + 1 else c
           in if cmp (load sz (r * sz) m) (load sz (c * sz) m) \<ge> 0 then m
              else sift_down sz cmp swp n c (swp (r * sz) (c * sz) sz m)
      else m)"
  by pat_completeness auto
termination
  by (relation "measure (\<lambda>(sz, cmp, swp, n, r, m). n - r)") (auto split: if_splits)

declare sift_down.simps [simp del]

text \<open>The two outer loops; the number counts the rounds that are left.\<close>

primrec heapify_loop :: "nat \<Rightarrow> cmp_func \<Rightarrow> swap_func \<Rightarrow> nat \<Rightarrow> nat \<Rightarrow> mem \<Rightarrow> mem" where
  "heapify_loop sz cmp swp num 0 m = m"
| "heapify_loop sz cmp swp num (Suc i) m = heapify_loop sz cmp swp num i (sift_down sz cmp swp num i m)"

primrec sort_loop :: "nat \<Rightarrow> cmp_func \<Rightarrow> swap_func \<Rightarrow> nat \<Rightarrow> mem \<Rightarrow> mem" where
  "sort_loop sz cmp swp 0 m = m"
| "sort_loop sz cmp swp (Suc i) m =
     sort_loop sz cmp swp i (sift_down sz cmp swp (Suc i) 0 (swp 0 (Suc i * sz) sz m))"

definition sort_array :: "u32 \<Rightarrow> nat \<Rightarrow> nat \<Rightarrow> cmp_func \<Rightarrow> swap_func option \<Rightarrow> mem \<Rightarrow> mem" where
  "sort_array base num sz cmp swap_func m =
     (let swp = (case swap_func of None \<Rightarrow> default_swap base sz | Some f \<Rightarrow> f);
          m = heapify_loop sz cmp swp num (num div 2) m
      in sort_loop sz cmp swp (num - 1) m)"

text \<open>Binary search: the index of the element found.\<close>

function bsearch_loop :: "nat \<Rightarrow> ('k \<Rightarrow> u8 list \<Rightarrow> int) \<Rightarrow> 'k \<Rightarrow> mem \<Rightarrow> nat \<Rightarrow> nat \<Rightarrow> nat option" where
  "bsearch_loop sz cmp key m start end' =
     (if start < end'
      then let mid = start + (end' - start) div 2;
               result = cmp key (load sz (mid * sz) m)
           in if result < 0 then bsearch_loop sz cmp key m start mid
              else if result > 0 then bsearch_loop sz cmp key m (mid + 1) end'
              else Some mid
      else None)"
  by pat_completeness auto
termination
  by (relation "measure (\<lambda>(sz, cmp, key, m, start, end'). end' - start)") auto

declare bsearch_loop.simps [simp del]

definition bsearch :: "'k \<Rightarrow> mem \<Rightarrow> nat \<Rightarrow> nat \<Rightarrow> ('k \<Rightarrow> u8 list \<Rightarrow> int) \<Rightarrow> nat option" where
  "bsearch key m num sz cmp = bsearch_loop sz cmp key m 0 num"

section \<open>Lemmas: swapping\<close>

text \<open>\<open>exchanged a b n m m'\<close>: the \<open>n\<close> bytes at \<open>a\<close> and at \<open>b\<close> have changed places.\<close>

definition exchanged :: "nat \<Rightarrow> nat \<Rightarrow> nat \<Rightarrow> mem \<Rightarrow> mem \<Rightarrow> bool" where
  "exchanged a b n m m' \<longleftrightarrow> length m' = length m \<and>
     (\<forall>p < length m. m' ! p = (if a \<le> p \<and> p < a + n then m ! (b + (p - a))
        else if b \<le> p \<and> p < b + n then m ! (a + (p - b)) else m ! p))"

definition disjoint_blocks :: "nat \<Rightarrow> nat \<Rightarrow> nat \<Rightarrow> mem \<Rightarrow> bool" where
  "disjoint_blocks a b n m \<longleftrightarrow> a + n \<le> length m \<and> b + n \<le> length m \<and> (a + n \<le> b \<or> b + n \<le> a)"

lemma exchanged_store:
  assumes "disjoint_blocks a b n m"
  shows "exchanged a b n m (store b (load n a m) (store a (load n b m) m))"
proof -
  have d: "a + n \<le> length m" "b + n \<le> length m" "a + n \<le> b \<or> b + n \<le> a" using assms by (auto simp: disjoint_blocks_def)
  have n: "store b (load n a m) (store a (load n b m) m) ! p =
      (if b \<le> p \<and> p < b + n then load n a m ! (p - b) else if a \<le> p \<and> p < a + n then load n b m ! (p - a) else m ! p)"
    if "p < length m" for p using d that by (simp add: nth_store)
  have "load n a m ! (p - b) = m ! (a + (p - b))" if "b \<le> p" "p < b + n" for p using d that by (intro nth_load) auto
  moreover have "load n b m ! (p - a) = m ! (b + (p - a))" if "a \<le> p" "p < a + n" for p using d that by (intro nth_load) auto
  moreover have "\<not> (a \<le> p \<and> p < a + n \<and> b \<le> p \<and> p < b + n)" for p using d(3) by linarith
  ultimately have "store b (load n a m) (store a (load n b m) m) ! p =
      (if a \<le> p \<and> p < a + n then m ! (b + (p - a)) else if b \<le> p \<and> p < b + n then m ! (a + (p - b)) else m ! p)"
    if "p < length m" for p unfolding n [OF that] by (simp split: if_split) blast
  then show ?thesis using d by (simp add: exchanged_def)
qed

lemma exchanged_Suc:
  assumes "exchanged a b 1 m m1" "exchanged (a + 1) (b + 1) n m1 m2" "disjoint_blocks a b (Suc n) m"
  shows "exchanged a b (Suc n) m m2"
proof -
  have d: "a + n < length m" "b + n < length m" "a + n < b \<or> b + n < a" using assms(3) by (auto simp: disjoint_blocks_def)
  have l: "length m1 = length m" "length m2 = length m" using assms(1,2) by (auto simp: exchanged_def)
  have m1: "m1 ! p = (if p = a then m ! b else if p = b then m ! a else m ! p)" if "p < length m" for p
    using assms(1) that by (simp add: exchanged_def le_less_Suc_eq)
  have m2: "m2 ! p = (if a + 1 \<le> p \<and> p < a + 1 + n then m1 ! (b + 1 + (p - (a + 1)))
      else if b + 1 \<le> p \<and> p < b + 1 + n then m1 ! (a + 1 + (p - (b + 1))) else m1 ! p)" if "p < length m" for p
    using assms(2) that l by (simp add: exchanged_def)
  have "m2 ! p = (if a \<le> p \<and> p < a + Suc n then m ! (b + (p - a)) else if b \<le> p \<and> p < b + Suc n then m ! (a + (p - b)) else m ! p)"
    if p: "p < length m" for p
  proof -
    consider (ina) "a < p" "p \<le> a + n" | (inb) "b < p" "p \<le> b + n" | (a) "p = a" | (b) "p = b"
      | (out) "p < a \<or> a + n < p" "p < b \<or> b + n < p" by linarith
    then show ?thesis
    proof cases
      case ina
      then have "b + 1 + (p - (a + 1)) = b + (p - a)" "b + (p - a) < length m" "b + (p - a) \<noteq> a" "b + (p - a) \<noteq> b" using d by auto
      then show ?thesis using ina m2 [OF p] m1 [of "b + (p - a)"] by simp
    next
      case inb
      then have "a + 1 + (p - (b + 1)) = a + (p - b)" "a + (p - b) < length m" "a + (p - b) \<noteq> a" "a + (p - b) \<noteq> b"
        "p < a \<or> a + n < p" using d by auto
      then show ?thesis using inb m2 [OF p] m1 [of "a + (p - b)"] by auto
    qed (use d m2 [OF p] m1 [OF p] in auto)
  qed
  then show ?thesis using l by (simp add: exchanged_def)
qed

lemma exchanged_byte: "a < length m \<Longrightarrow> b < length m \<Longrightarrow> exchanged a b 1 m (m[a := m ! b, b := m ! a])"
proof -
  have "x \<le> p \<and> p < x + 1 \<longleftrightarrow> p = x" for x p :: nat by auto
  then show "exchanged a b 1 m (m[a := m ! b, b := m ! a])" if "a < length m" "b < length m"
    using that by (simp add: exchanged_def nth_list_update)
qed

lemma exchanged_generic_swap: "disjoint_blocks a b (Suc n) m \<Longrightarrow> exchanged a b (Suc n) m (generic_swap a b (Suc n) m)"
proof (induction n arbitrary: a b m)
  case 0
  then show ?case using exchanged_byte [of a m b] by (simp add: generic_swap.simps [of a b] disjoint_blocks_def Let_def)
next
  case (Suc n)
  define m1 where "m1 = m[a := m ! b, b := m ! a]"
  have step: "generic_swap a b (Suc (Suc n)) m = generic_swap (a + 1) (b + 1) (Suc n) m1"
    by (simp add: generic_swap.simps [of a b] m1_def Let_def)
  have 1: "exchanged a b 1 m m1"
    unfolding m1_def using Suc.prems by (intro exchanged_byte) (auto simp: disjoint_blocks_def)
  have "disjoint_blocks (a + 1) (b + 1) (Suc n) m1" using Suc.prems by (auto simp: disjoint_blocks_def m1_def)
  then show ?case unfolding step using exchanged_Suc [OF 1 Suc.IH] Suc.prems by simp
qed

section \<open>The swap callback as an interface\<close>

locale swapper =
  fixes sz :: nat and swp :: swap_func
  assumes swap_exchanges: "disjoint_blocks a b sz m \<Longrightarrow> exchanged a b sz m (swp a b sz m)"
    and size_pos: "0 < sz"

interpretation u32s: swapper 4 u32_swap
  by unfold_locales (simp_all add: u32_swap_def Let_def exchanged_store)

interpretation u64s: swapper 8 u64_swap
  by unfold_locales (simp_all add: u64_swap_def Let_def exchanged_store)

interpretation gens: swapper "Suc n" generic_swap for n
  by unfold_locales (simp_all add: exchanged_generic_swap)

lemma default_swapper: "0 < sz \<Longrightarrow> swapper sz (default_swap base sz)"
  using u32s.swapper_axioms u64s.swapper_axioms gens.swapper_axioms [of "sz - 1"]
  by (simp add: default_swap_def)

section \<open>Heap sort on a list of elements\<close>

text \<open>The same loops on a list, with an order \<open>le\<close> in place of the sign of the comparison.\<close>

definition swap_at :: "nat \<Rightarrow> nat \<Rightarrow> 'a list \<Rightarrow> 'a list" where
  "swap_at i j xs = xs[i := xs ! j, j := xs ! i]"

definition child :: "('a \<Rightarrow> 'a \<Rightarrow> bool) \<Rightarrow> nat \<Rightarrow> nat \<Rightarrow> 'a list \<Rightarrow> nat" where
  "child le n r xs = (if r * 2 + 2 < n \<and> \<not> le (xs ! (r * 2 + 2)) (xs ! (r * 2 + 1)) then r * 2 + 2 else r * 2 + 1)"

function list_sift :: "('a \<Rightarrow> 'a \<Rightarrow> bool) \<Rightarrow> nat \<Rightarrow> nat \<Rightarrow> 'a list \<Rightarrow> 'a list" where
  "list_sift le n r xs =
     (if r * 2 + 1 < n \<and> \<not> le (xs ! child le n r xs) (xs ! r)
      then list_sift le n (child le n r xs) (swap_at r (child le n r xs) xs) else xs)"
  by pat_completeness auto
termination
  by (relation "measure (\<lambda>(le, n, r, xs). n - r)") (auto simp: child_def split: if_splits)

declare list_sift.simps [simp del]

primrec list_heapify :: "('a \<Rightarrow> 'a \<Rightarrow> bool) \<Rightarrow> nat \<Rightarrow> nat \<Rightarrow> 'a list \<Rightarrow> 'a list" where
  "list_heapify le n 0 xs = xs"
| "list_heapify le n (Suc i) xs = list_heapify le n i (list_sift le n i xs)"

primrec list_extract :: "('a \<Rightarrow> 'a \<Rightarrow> bool) \<Rightarrow> nat \<Rightarrow> 'a list \<Rightarrow> 'a list" where
  "list_extract le 0 xs = xs"
| "list_extract le (Suc i) xs = list_extract le i (list_sift le (Suc i) 0 (swap_at 0 (Suc i) xs))"

text \<open>What a comparison callback must satisfy: its sign is that of a total preorder.\<close>

definition cmp_le :: "('a \<Rightarrow> 'a \<Rightarrow> int) \<Rightarrow> 'a \<Rightarrow> 'a \<Rightarrow> bool" where
  "cmp_le cmp x y \<longleftrightarrow> cmp x y \<le> 0"

definition consistent :: "('a \<Rightarrow> 'a \<Rightarrow> int) \<Rightarrow> bool" where
  "consistent cmp \<longleftrightarrow> (\<forall>x y. sgn (cmp x y) = - sgn (cmp y x)) \<and>
     (\<forall>x y z. cmp x y \<le> 0 \<longrightarrow> cmp y z \<le> 0 \<longrightarrow> cmp x z \<le> 0)"

lemma consistent_le:
  assumes "consistent cmp"
  shows "cmp x y < 0 \<longleftrightarrow> \<not> cmp_le cmp y x" "cmp x y \<ge> 0 \<longleftrightarrow> cmp_le cmp y x"
    "cmp_le cmp x y \<or> cmp_le cmp y x" "cmp_le cmp x y \<Longrightarrow> cmp_le cmp y z \<Longrightarrow> cmp_le cmp x z"
proof -
  have "sgn (cmp x y) = - sgn (cmp y x)" using assms unfolding consistent_def by blast
  then have "cmp x y < 0 \<longleftrightarrow> 0 < cmp y x" by (cases "cmp x y" "0 :: int" rule: linorder_cases) (simp_all add: sgn_if split: if_splits)
  then show "cmp x y < 0 \<longleftrightarrow> \<not> cmp_le cmp y x" "cmp x y \<ge> 0 \<longleftrightarrow> cmp_le cmp y x" "cmp_le cmp x y \<or> cmp_le cmp y x"
    unfolding cmp_le_def by linarith+
  show "cmp_le cmp x z" if "cmp_le cmp x y" "cmp_le cmp y z" using assms that unfolding consistent_def cmp_le_def by blast
qed

lemma blocks_disjoint:
  assumes "i < num" "j < num" "i \<noteq> j" "length m = num * sz"
  shows "disjoint_blocks (i * sz) (j * sz) sz m"
  using block_le [OF assms(1), of sz] block_le [OF assms(2), of sz] block_le [of i j sz] block_le [of j i sz] assms(3,4)
  unfolding disjoint_blocks_def by linarith

lemma exchanged_elements:
  assumes "exchanged (i * sz) (j * sz) sz m m'" "i < num" "j < num" "i \<noteq> j" "length m = num * sz"
  shows "elements sz num m' = swap_at i j (elements sz num m)"
proof (rule nth_equalityI)
  have l: "length m' = length m" using assms(1) by (simp add: exchanged_def)
  fix k assume "k < length (elements sz num m')"
  then have k: "k < num" by simp
  have fit: "h * sz + sz \<le> length m" if "h < num" for h
    using block_le [OF that] assms(5) by simp
  define h where "h = (if k = i then j else if k = j then i else k)"
  have h: "h < num" using k assms(2,3) by (simp add: h_def)
  have "load sz (k * sz) m' = load sz (h * sz) m"
  proof (rule nth_equalityI)
    fix q assume "q < length (load sz (k * sz) m')"
    then have q: "q < sz" using fit [OF k] l by simp
    have p: "k * sz + q < length m" using fit [OF k] q by simp
    have blk: "g * sz \<le> k * sz + q \<and> k * sz + q < g * sz + sz \<longleftrightarrow> k = g" for g
      using block_le [of g k sz] block_le [of k g sz] q by (cases g k rule: linorder_cases) auto
    have "m' ! (k * sz + q) = m ! (h * sz + q)"
    proof -
      have "m' ! (k * sz + q) = (if k = i then m ! (j * sz + (k * sz + q - i * sz))
          else if k = j then m ! (i * sz + (k * sz + q - j * sz)) else m ! (k * sz + q))"
        using conjunct2 [OF assms(1) [unfolded exchanged_def], rule_format, OF p] unfolding blk .
      then show ?thesis by (simp add: h_def)
    qed
    then show "load sz (k * sz) m' ! q = load sz (h * sz) m ! q" using fit [OF k] fit [OF h] l q by (simp add: nth_load)
  qed (use fit [OF k] fit [OF h] l in simp)
  then have "elements sz num m' ! k = elements sz num m ! h" using k h by (simp add: nth_elements)
  also have "\<dots> = swap_at i j (elements sz num m) ! k" using k assms(2-4) by (simp add: swap_at_def nth_list_update h_def)
  finally show "elements sz num m' ! k = swap_at i j (elements sz num m) ! k" .
qed (simp add: swap_at_def)

section \<open>Correctness of the heap sort on a list\<close>

definition total_preorder :: "('a \<Rightarrow> 'a \<Rightarrow> bool) \<Rightarrow> bool" where
  "total_preorder le \<longleftrightarrow> (\<forall>x y. le x y \<or> le y x) \<and> (\<forall>x y z. le x y \<longrightarrow> le y z \<longrightarrow> le x z)"

lemma total_preorderD:
  assumes "total_preorder le"
  shows "\<not> le x y \<Longrightarrow> le y x" "le x y \<Longrightarrow> le y z \<Longrightarrow> le x z" "le x x"
  using assms unfolding total_preorder_def by blast+

lemma cmp_total_preorder: "consistent cmp \<Longrightarrow> total_preorder (cmp_le cmp)"
  unfolding total_preorder_def by (intro conjI allI impI) (erule consistent_le(3), erule (2) consistent_le(4))

lemma length_swap_at [simp]: "length (swap_at i j xs) = length xs"
  by (simp add: swap_at_def)

lemma nth_swap_at: "i < length xs \<Longrightarrow> j < length xs \<Longrightarrow> swap_at i j xs ! k = (if k = j then xs ! i else if k = i then xs ! j else xs ! k)"
  by (simp add: swap_at_def nth_list_update)

lemma mset_swap_at [simp]: "i < length xs \<Longrightarrow> j < length xs \<Longrightarrow> mset (swap_at i j xs) = mset xs"
  by (simp add: swap_at_def mset_swap)

lemma child_bounds: "r * 2 + 1 < n \<Longrightarrow> child le n r xs < n" "r < child le n r xs"
  "child le n r xs = r * 2 + 1 \<or> child le n r xs = r * 2 + 2"
  by (auto simp: child_def)

lemma list_sift_swap:
  "r * 2 + 1 < n \<and> \<not> le (xs ! child le n r xs) (xs ! r) \<Longrightarrow>
   list_sift le n r xs = list_sift le n (child le n r xs) (swap_at r (child le n r xs) xs)"
  by (subst list_sift.simps) (rule if_P)

lemma list_sift_done:
  "\<not> (r * 2 + 1 < n \<and> \<not> le (xs ! child le n r xs) (xs ! r)) \<Longrightarrow> list_sift le n r xs = xs"
  by (subst list_sift.simps) (rule if_not_P)

text \<open>Sifting permutes the elements of the heap and leaves the others alone.\<close>

lemma list_sift_frame:
  assumes "n \<le> length xs"
  shows "length (list_sift le n r xs) = length xs \<and> mset (list_sift le n r xs) = mset xs \<and>
    (\<forall>k \<ge> n. list_sift le n r xs ! k = xs ! k) \<and> ((\<forall>k < n. P (xs ! k)) \<longrightarrow> (\<forall>k < n. P (list_sift le n r xs ! k)))"
  using assms
proof (induction le n r xs rule: list_sift.induct)
  case (1 le n r xs)
  let ?c = "child le n r xs"
  show ?case
  proof (cases "r * 2 + 1 < n \<and> \<not> le (xs ! ?c) (xs ! r)")
    case True
    have b: "?c < n" "r < n" using child_bounds [where r = r and n = n and le = le and xs = xs] True by auto
    have ih: "length (list_sift le n ?c (swap_at r ?c xs)) = length (swap_at r ?c xs) \<and>
        mset (list_sift le n ?c (swap_at r ?c xs)) = mset (swap_at r ?c xs) \<and>
        (\<forall>k \<ge> n. list_sift le n ?c (swap_at r ?c xs) ! k = swap_at r ?c xs ! k) \<and>
        ((\<forall>k < n. P (swap_at r ?c xs ! k)) \<longrightarrow> (\<forall>k < n. P (list_sift le n ?c (swap_at r ?c xs) ! k)))"
      using "1.IH" [OF True] "1.prems" by simp
    have s: "swap_at r ?c xs ! k = xs ! k" if "n \<le> k" for k using b that "1.prems" by (simp add: nth_swap_at)
    have p: "\<forall>k < n. P (swap_at r ?c xs ! k)" if "\<forall>k < n. P (xs ! k)" using b that "1.prems" by (simp add: nth_swap_at)
    note e = list_sift_swap [of r n le xs, OF True]
    show ?thesis unfolding e using ih s p b "1.prems" by auto
  next
    case False
    then show ?thesis using list_sift_done [of r n le xs] by simp
  qed
qed

text \<open>Elements \<open>lo\<close> and above satisfy the heap condition, or do so but for \<open>r\<close> and its children.\<close>

definition is_child :: "nat \<Rightarrow> nat \<Rightarrow> bool" where
  "is_child p c \<longleftrightarrow> c = p * 2 + 1 \<or> c = p * 2 + 2"

definition heap :: "('a \<Rightarrow> 'a \<Rightarrow> bool) \<Rightarrow> nat \<Rightarrow> nat \<Rightarrow> 'a list \<Rightarrow> bool" where
  "heap le lo n xs \<longleftrightarrow> (\<forall>p c. lo \<le> p \<and> is_child p c \<and> c < n \<longrightarrow> le (xs ! c) (xs ! p))"

definition almost_heap :: "('a \<Rightarrow> 'a \<Rightarrow> bool) \<Rightarrow> nat \<Rightarrow> nat \<Rightarrow> nat \<Rightarrow> 'a list \<Rightarrow> bool" where
  "almost_heap le lo n r xs \<longleftrightarrow>
     (\<forall>p c. lo \<le> p \<and> p \<noteq> r \<and> is_child p c \<and> c < n \<longrightarrow> le (xs ! c) (xs ! p)) \<and>
     (\<forall>p c. lo \<le> p \<and> is_child p r \<and> is_child r c \<and> c < n \<longrightarrow> le (xs ! c) (xs ! p))"

lemma child_max:
  assumes "total_preorder le" "is_child r c" "c < n"
  shows "le (xs ! c) (xs ! child le n r xs)"
proof (cases "r * 2 + 2 < n \<and> \<not> le (xs ! (r * 2 + 2)) (xs ! (r * 2 + 1))")
  case True
  then have "child le n r xs = r * 2 + 2" by (simp add: child_def)
  then show ?thesis
    using True assms(2) total_preorderD(1) [OF assms(1), of "xs ! (r * 2 + 2)" "xs ! (r * 2 + 1)"] total_preorderD(3) [OF assms(1)]
    unfolding is_child_def by auto
next
  case False
  then have "child le n r xs = r * 2 + 1" unfolding child_def by (rule if_not_P)
  then show ?thesis using False assms(2,3) total_preorderD(3) [OF assms(1)] unfolding is_child_def by auto
qed

lemma almost_heap_step:
  fixes c
  assumes "total_preorder le" "almost_heap le lo n r xs" "lo \<le> r" "n \<le> length xs" "r * 2 + 1 < n"
    and "\<not> le (xs ! child le n r xs) (xs ! r)"
  shows "almost_heap le lo n (child le n r xs) (swap_at r (child le n r xs) xs)"
proof -
  define c where "c = child le n r xs"
  have c: "is_child r c" "c < n" "r < c" using child_bounds [where r = r and n = n and le = le and xs = xs] assms(5) by (auto simp: c_def is_child_def)
  have nth: "swap_at r c xs ! k = (if k = c then xs ! r else if k = r then xs ! c else xs ! k)" for k
    using c assms(4) by (intro nth_swap_at) auto
  have "le (swap_at r c xs ! d) (swap_at r c xs ! p)" if p: "lo \<le> p" "p \<noteq> c" "is_child p d" "d < n" for p d
  proof (cases "p = r")
    case True
    then have "d \<noteq> r" using p(3) by (auto simp: is_child_def)
    then show ?thesis
      using True p c child_max [OF assms(1) _ p(4), of r xs] total_preorderD(1) [OF assms(1) assms(6)] unfolding nth c_def [symmetric] by auto
  next
    case False
    have "d \<noteq> c" using False p(3) c(1) by (auto simp: is_child_def)
    then show ?thesis
      using False p c(1,2) assms(2) unfolding nth almost_heap_def by auto
  qed
  moreover have "le (swap_at r c xs ! d) (swap_at r c xs ! p)" if "lo \<le> p" "is_child p c" "is_child c d" "d < n" for p d
  proof -
    have "p = r" using that(2) c(1) unfolding is_child_def by linarith
    moreover have "d \<noteq> c" "d \<noteq> r" "c \<noteq> r" "lo \<le> c" using that(3) c(3) assms(3) by (auto simp: is_child_def)
    ultimately show ?thesis using that assms(2) unfolding nth almost_heap_def by auto
  qed
  ultimately show ?thesis unfolding c_def [symmetric] almost_heap_def by blast
qed

lemma list_sift_heap:
  assumes "total_preorder le" "almost_heap le lo n r xs" "lo \<le> r" "n \<le> length xs"
  shows "heap le lo n (list_sift le n r xs)"
  using assms
proof (induction le n r xs rule: list_sift.induct)
  case (1 le n r xs)
  let ?c = "child le n r xs"
  show ?case
  proof (cases "r * 2 + 1 < n \<and> \<not> le (xs ! ?c) (xs ! r)")
    case True
    note e = list_sift_swap [of r n le xs, OF True]
    have "lo \<le> ?c" using child_bounds(2) [of r le n xs] "1.prems"(3) by simp
    then show ?thesis unfolding e
      using "1.IH" [OF True "1.prems"(1) almost_heap_step [OF "1.prems"]] True "1.prems"(4) by simp
  next
    case False
    note e = list_sift_done [of r n le xs, OF False]
    have "le (xs ! d) (xs ! r)" if "is_child r d" "d < n" for d
    proof -
      have "r * 2 + 1 < n" using that by (auto simp: is_child_def)
      then have "le (xs ! ?c) (xs ! r)" using False by simp
      then show ?thesis using child_max [OF "1.prems"(1) that] total_preorderD(2) [OF "1.prems"(1)] by blast
    qed
    then show ?thesis using "1.prems"(2) unfolding e heap_def almost_heap_def by blast
  qed
qed

lemma heap_root:
  assumes "total_preorder le" "heap le 0 n xs"
  shows "k < n \<Longrightarrow> le (xs ! k) (xs ! 0)"
proof (induction k rule: less_induct)
  case (less k)
  show ?case
  proof (cases k)
    case (Suc j)
    have "is_child (j div 2) k" unfolding is_child_def Suc by presburger
    then have "le (xs ! k) (xs ! (j div 2))" using assms(2) less.prems unfolding heap_def by blast
    moreover have "le (xs ! (j div 2)) (xs ! 0)" using less.IH [of "j div 2"] less.prems Suc by simp
    ultimately show ?thesis by (rule total_preorderD(2) [OF assms(1)])
  qed (simp add: total_preorderD(3) [OF assms(1)])
qed

lemma list_heapify_heap:
  assumes "total_preorder le"
  shows "heap le i n xs \<Longrightarrow> n \<le> length xs \<Longrightarrow> heap le 0 n (list_heapify le n i xs) \<and>
    length (list_heapify le n i xs) = length xs \<and> mset (list_heapify le n i xs) = mset xs"
proof (induction i arbitrary: xs)
  case (Suc i)
  have "almost_heap le i n i xs"
    using Suc.prems(1) unfolding heap_def almost_heap_def is_child_def by (auto simp: Suc_le_eq)
  then have h: "heap le i n (list_sift le n i xs)" by (rule list_sift_heap [OF assms _ order_refl Suc.prems(2)])
  have f: "length (list_sift le n i xs) = length xs" "mset (list_sift le n i xs) = mset xs"
    using list_sift_frame [OF Suc.prems(2), of le i "\<lambda>_. True"] by blast+
  show ?case using Suc.IH [OF h] f Suc.prems(2) by simp
qed simp

text \<open>The elements above \<open>i\<close> are in their final places.\<close>

definition sorted_above :: "('a \<Rightarrow> 'a \<Rightarrow> bool) \<Rightarrow> nat \<Rightarrow> 'a list \<Rightarrow> bool" where
  "sorted_above le i xs \<longleftrightarrow> (\<forall>j k. i < j \<and> j < length xs \<and> k < j \<longrightarrow> le (xs ! k) (xs ! j))"

lemma extract_step:
  fixes xs
  assumes "total_preorder le" "heap le 0 (Suc (Suc i)) xs" "sorted_above le (Suc i) xs" "Suc i < length xs"
  defines "zs \<equiv> list_sift le (Suc i) 0 (swap_at 0 (Suc i) xs)"
  shows "heap le 0 (Suc i) zs" "sorted_above le i zs" "length zs = length xs" "mset zs = mset xs"
proof -
  let ?ys = "swap_at 0 (Suc i) xs"
  have nth: "?ys ! k = (if k = Suc i then xs ! 0 else if k = 0 then xs ! Suc i else xs ! k)" for k
    using assms(4) by (intro nth_swap_at) auto
  have n: "Suc i \<le> length ?ys" using assms(4) by simp
  note frame = list_sift_frame [OF n, of le 0, folded zs_def]
  show len: "length zs = length xs" and "mset zs = mset xs"
    using frame [of "\<lambda>_. True"] mset_swap_at [OF less_trans [OF zero_less_Suc assms(4)] assms(4)] by auto
  have "almost_heap le 0 (Suc i) 0 ?ys"
    using assms(2) unfolding almost_heap_def heap_def nth is_child_def by auto
  then show "heap le 0 (Suc i) zs" unfolding zs_def by (rule list_sift_heap [OF assms(1) _ order_refl n])
  have above: "zs ! k = ?ys ! k" if "Suc i \<le> k" for k using frame [of "\<lambda>_. True"] that by blast
  have below: "P (zs ! k)" if "k < Suc i" "\<And>k. k \<le> Suc i \<Longrightarrow> P (xs ! k)" for k P
  proof -
    have "\<forall>k < Suc i. P (?ys ! k)" using that(2) by (simp add: nth)
    then show ?thesis using frame [of P] that(1) by blast
  qed
  have "le (zs ! k) (zs ! j)" if j: "i < j" "j < length xs" "k < j" for j k
  proof (cases "j = Suc i")
    case True
    have "le (zs ! k) (xs ! 0)"
      using j True heap_root [OF assms(1,2)] by (intro below [of k "\<lambda>x. le x (xs ! 0)"]) auto
    then show ?thesis using True above [of j] by (simp add: nth)
  next
    case False
    then have zj: "zs ! j = xs ! j" using above [of j] j by (simp add: nth)
    have old: "le (xs ! k) (xs ! j)" if "k < j" for k using assms(3) j False that unfolding sorted_above_def by auto
    show ?thesis
    proof (cases "k < Suc i")
      case True
      then show ?thesis unfolding zj using old j False by (intro below [of k "\<lambda>x. le x (xs ! j)"]) auto
    next
      case f: False
      then have "zs ! k = (if k = Suc i then xs ! 0 else xs ! k)" using above [of k] by (simp add: nth)
      then show ?thesis using old [of k] old [of 0] j unfolding zj by simp
    qed
  qed
  then show "sorted_above le i zs" unfolding sorted_above_def len by blast
qed

lemma list_extract_sorted:
  assumes "total_preorder le"
  shows "heap le 0 (Suc i) xs \<Longrightarrow> sorted_above le i xs \<Longrightarrow> i < length xs \<Longrightarrow>
    sorted_wrt le (list_extract le i xs) \<and> mset (list_extract le i xs) = mset xs"
proof (induction i arbitrary: xs)
  case 0
  then show ?case by (auto simp: sorted_wrt_iff_nth_less sorted_above_def)
next
  case (Suc i)
  note s = extract_step [OF assms Suc.prems]
  show ?case using Suc.IH [OF s(1,2)] s(3,4) Suc.prems(3) by simp
qed

lemma heap_sort_sorted:
  fixes xs
  assumes "total_preorder le"
  defines "n \<equiv> length xs"
  shows "sorted_wrt le (list_extract le (n - 1) (list_heapify le n (n div 2) xs)) \<and>
    mset (list_extract le (n - 1) (list_heapify le n (n div 2) xs)) = mset xs"
proof (cases "n = 0")
  case False
  have "heap le (n div 2) n xs" unfolding heap_def is_child_def by auto
  then have h: "heap le 0 n (list_heapify le n (n div 2) xs)" "length (list_heapify le n (n div 2) xs) = n"
      "mset (list_heapify le n (n div 2) xs) = mset xs"
    using list_heapify_heap [OF assms(1)] by (simp_all add: n_def)
  have "sorted_above le (n - 1) (list_heapify le n (n div 2) xs)" unfolding sorted_above_def h(2) by auto
  then show ?thesis using list_extract_sorted [OF assms(1), of "n - 1"] h False by simp
qed (use n_def in simp)

section \<open>The array sort implements the list sort\<close>

context swapper
begin

lemma swap_elements:
  assumes "i < num" "j < num" "i \<noteq> j" "length m = num * sz"
  shows "elements sz num (swp (i * sz) (j * sz) sz m) = swap_at i j (elements sz num m)"
    "length (swp (i * sz) (j * sz) sz m) = num * sz"
proof -
  have x: "exchanged (i * sz) (j * sz) sz m (swp (i * sz) (j * sz) sz m)"
    by (rule swap_exchanges [OF blocks_disjoint [OF assms]])
  show "elements sz num (swp (i * sz) (j * sz) sz m) = swap_at i j (elements sz num m)"
    by (rule exchanged_elements [OF x assms])
  show "length (swp (i * sz) (j * sz) sz m) = num * sz" using x assms(4) by (simp add: exchanged_def)
qed

lemma sift_down_elements:
  assumes "consistent cmp" "n \<le> num" "length m = num * sz"
  shows "elements sz num (sift_down sz cmp swp n r m) = list_sift (cmp_le cmp) n r (elements sz num m) \<and>
    length (sift_down sz cmp swp n r m) = num * sz"
  using assms(3)
proof (induction "n - r" arbitrary: r m rule: less_induct)
  case less
  let ?xs = "elements sz num m" and ?c = "child (cmp_le cmp) n r (elements sz num m)"
  show ?case
  proof (cases "r * 2 + 1 < n")
    case True
    have nth: "load sz (k * sz) m = ?xs ! k" if "k < n" for k using that assms(2) by (simp add: nth_elements)
    have c: "(if r * 2 + 1 < n - 1 \<and> cmp (load sz ((r * 2 + 1) * sz) m) (load sz ((r * 2 + 1) * sz + sz) m) < 0
        then r * 2 + 1 + 1 else r * 2 + 1) = ?c"
    proof -
      have "load sz ((r * 2 + 1) * sz + sz) m = load sz ((r * 2 + 2) * sz) m" by (simp add: algebra_simps)
      then have e: "load sz ((r * 2 + 1) * sz + sz) m = ?xs ! (r * 2 + 2)" if "r * 2 + 2 < n" using nth [OF that] by simp
      show ?thesis
        using e nth [OF True] consistent_le(1) [OF assms(1)] True unfolding child_def by (auto simp: less_diff_conv)
    qed
    note b = child_bounds(1) [OF True, of "cmp_le cmp" ?xs] child_bounds(2) [of r "cmp_le cmp" n ?xs]
    have step: "sift_down sz cmp swp n r m =
        (if cmp_le cmp (?xs ! ?c) (?xs ! r) then m else sift_down sz cmp swp n ?c (swp (r * sz) (?c * sz) sz m))"
    proof -
      have "r < n" using True by simp
      show ?thesis
        using True consistent_le(2) [OF assms(1)] unfolding sift_down.simps [of sz cmp swp n r m] Let_def c nth [OF b(1)] nth [OF \<open>r < n\<close>]
        by simp
    qed
    have sw: "elements sz num (swp (r * sz) (?c * sz) sz m) = swap_at r ?c ?xs" "length (swp (r * sz) (?c * sz) sz m) = num * sz"
      using b assms(2) less.prems by (intro swap_elements; simp)+
    show ?thesis
    proof (cases "cmp_le cmp (?xs ! ?c) (?xs ! r)")
      case f: False
      have "n - ?c < n - r" using b by simp
      from less.hyps [OF this sw(2)] show ?thesis
        using True f list_sift_swap [of r n "cmp_le cmp" ?xs] unfolding step sw(1) by simp
    next
      case t: True
      then show ?thesis using list_sift_done [of r n "cmp_le cmp" ?xs] less.prems unfolding step by simp
    qed
  next
    case False
    then show ?thesis using less.prems list_sift_done [of r n "cmp_le cmp" ?xs] by (simp add: sift_down.simps [of sz cmp swp n r m])
  qed
qed

lemma heapify_elements:
  assumes "consistent cmp"
  shows "length m = num * sz \<Longrightarrow>
    elements sz num (heapify_loop sz cmp swp num i m) = list_heapify (cmp_le cmp) num i (elements sz num m) \<and>
    length (heapify_loop sz cmp swp num i m) = num * sz"
proof (induction i arbitrary: m)
  case (Suc i)
  have "length (sift_down sz cmp swp num i m) = num * sz"
    "elements sz num (sift_down sz cmp swp num i m) = list_sift (cmp_le cmp) num i (elements sz num m)"
    using sift_down_elements [OF assms order_refl Suc.prems] by simp_all
  then show ?case using Suc.IH by simp
qed simp

lemma sort_loop_elements:
  assumes "consistent cmp"
  shows "i < num \<Longrightarrow> length m = num * sz \<Longrightarrow>
    elements sz num (sort_loop sz cmp swp i m) = list_extract (cmp_le cmp) i (elements sz num m) \<and>
    length (sort_loop sz cmp swp i m) = num * sz"
proof (induction i arbitrary: m)
  case (Suc i)
  have sw: "elements sz num (swp 0 (Suc i * sz) sz m) = swap_at 0 (Suc i) (elements sz num m)"
      "length (swp 0 (Suc i * sz) sz m) = num * sz"
    using swap_elements [of 0 num "Suc i" m] Suc.prems by simp_all
  have "length (sift_down sz cmp swp (Suc i) 0 (swp 0 (Suc i * sz) sz m)) = num * sz"
    "elements sz num (sift_down sz cmp swp (Suc i) 0 (swp 0 (Suc i * sz) sz m)) =
     list_sift (cmp_le cmp) (Suc i) 0 (swap_at 0 (Suc i) (elements sz num m))"
    using sift_down_elements [OF assms less_imp_le [OF Suc.prems(1)] sw(2), of 0] sw(1) by simp_all
  then show ?case using Suc.IH Suc.prems(1) by simp
qed simp

lemma sort_loops_sorted:
  assumes "consistent cmp" "length m = num * sz"
  defines "m' \<equiv> sort_loop sz cmp swp (num - 1) (heapify_loop sz cmp swp num (num div 2) m)"
  shows "length m' = length m \<and> sorted_wrt (cmp_le cmp) (elements sz num m') \<and> mset (elements sz num m') = mset (elements sz num m)"
proof (cases "num = 0")
  case True
  then show ?thesis using assms(2) by (simp add: m'_def elements_def)
next
  case False
  note h = heapify_elements [OF assms(1,2), of "num div 2"]
  have "elements sz num m' = list_extract (cmp_le cmp) (num - 1) (list_heapify (cmp_le cmp) num (num div 2) (elements sz num m)) \<and>
      length m' = num * sz"
    unfolding m'_def using sort_loop_elements [OF assms(1), of "num - 1" num] h False by simp
  then show ?thesis
    using heap_sort_sorted [OF cmp_total_preorder [OF assms(1)], of "elements sz num m"] assms(2) by simp
qed

end

lemma sort_array_sorted:
  assumes "0 < sz" "case swap_func of None \<Rightarrow> True | Some f \<Rightarrow> swapper sz f" "consistent cmp" "length m = num * sz"
  shows "length (sort_array base num sz cmp swap_func m) = length m \<and>
    sorted_wrt (cmp_le cmp) (elements sz num (sort_array base num sz cmp swap_func m)) \<and>
    mset (elements sz num (sort_array base num sz cmp swap_func m)) = mset (elements sz num m)"
proof -
  have "swapper sz (case swap_func of None \<Rightarrow> default_swap base sz | Some f \<Rightarrow> f)"
    using assms(2) default_swapper [OF assms(1)] by (cases swap_func) simp_all
  from swapper.sort_loops_sorted [OF this assms(3,4)] show ?thesis unfolding sort_array_def Let_def .
qed

section \<open>Binary search\<close>

text \<open>The key compares with the elements in descending order of signs.\<close>

definition key_ordered :: "('k \<Rightarrow> 'a \<Rightarrow> int) \<Rightarrow> 'k \<Rightarrow> 'a list \<Rightarrow> bool" where
  "key_ordered cmp key xs \<longleftrightarrow> sorted_wrt (\<lambda>x y. (cmp key x < 0 \<longrightarrow> cmp key y < 0) \<and> (cmp key y > 0 \<longrightarrow> cmp key x > 0)) xs"

lemma bsearch_loop_correct:
  assumes "key_ordered cmp key (elements sz num m)" "end' \<le> num"
    "\<forall>i < start. cmp key (load sz (i * sz) m) > 0" "\<forall>i. end' \<le> i \<and> i < num \<longrightarrow> cmp key (load sz (i * sz) m) < 0"
  shows "case bsearch_loop sz cmp key m start end' of
      Some i \<Rightarrow> i < num \<and> cmp key (load sz (i * sz) m) = 0
    | None \<Rightarrow> \<forall>i < num. cmp key (load sz (i * sz) m) \<noteq> 0"
  using assms(2-4)
proof (induction "end' - start" arbitrary: start end' rule: less_induct)
  case less
  show ?case
  proof (cases "start < end'")
    case True
    define mid where "mid = start + (end' - start) div 2"
    have mid: "start \<le> mid" "mid < end'" "mid < num" using True less.prems(1) by (auto simp: mid_def)
    let ?r = "cmp key (load sz (mid * sz) m)"
    have ord: "(cmp key (load sz (i * sz) m) < 0 \<longrightarrow> cmp key (load sz (j * sz) m) < 0) \<and>
        (cmp key (load sz (j * sz) m) > 0 \<longrightarrow> cmp key (load sz (i * sz) m) > 0)" if "i < j" "j < num" for i j
      using assms(1) that unfolding key_ordered_def sorted_wrt_iff_nth_less by (simp add: nth_elements)
    consider (lt) "?r < 0" | (gt) "?r > 0" | (eq) "?r = 0" by linarith
    then show ?thesis
    proof cases
      case lt
      have up: "\<forall>i. mid \<le> i \<and> i < num \<longrightarrow> cmp key (load sz (i * sz) m) < 0"
        using lt ord [of mid] by (metis le_neq_implies_less)
      have "bsearch_loop sz cmp key m start end' = bsearch_loop sz cmp key m start mid"
        using True lt by (simp add: bsearch_loop.simps [of sz cmp key m start end'] mid_def Let_def)
      then show ?thesis using less.hyps [OF _ _ less.prems(2) up] mid by simp
    next
      case gt
      have low: "\<forall>i < mid + 1. cmp key (load sz (i * sz) m) > 0"
        using gt ord [of _ mid] mid(3) by (metis less_Suc_eq Suc_eq_plus1)
      have "bsearch_loop sz cmp key m start end' = bsearch_loop sz cmp key m (mid + 1) end'"
        using True gt by (simp add: bsearch_loop.simps [of sz cmp key m start end'] mid_def Let_def)
      then show ?thesis using less.hyps [OF _ less.prems(1) low less.prems(3)] mid by simp
    next
      case eq
      have "bsearch_loop sz cmp key m start end' = Some mid"
        using True eq by (simp add: bsearch_loop.simps [of sz cmp key m start end'] mid_def Let_def)
      then show ?thesis using eq mid by simp
    qed
  next
    case False
    then have "bsearch_loop sz cmp key m start end' = None" by (simp add: bsearch_loop.simps [of sz cmp key m start end'])
    moreover have "cmp key (load sz (i * sz) m) \<noteq> 0" if "i < num" for i
    proof (cases "i < start")
      case True
      then show ?thesis using less.prems(2) by force
    next
      case f: False
      then have "cmp key (load sz (i * sz) m) < 0" using less.prems(3) False that by auto
      then show ?thesis by simp
    qed
    ultimately show ?thesis by simp
  qed
qed

lemma sorted_key_ordered:
  assumes "consistent cmp" "sorted_wrt (cmp_le cmp) xs"
  shows "key_ordered cmp key xs"
proof -
  have "(cmp key x < 0 \<longrightarrow> cmp key y < 0) \<and> (cmp key y > 0 \<longrightarrow> cmp key x > 0)" if "cmp_le cmp x y" for x y
    using consistent_le(1,2) [OF assms(1)] consistent_le(4) [OF assms(1)] that by (metis cmp_le_def not_le)
  then show ?thesis unfolding key_ordered_def by (rule sorted_wrt_mono_rel [OF _ assms(2)])
qed

section \<open>Properties\<close>

text \<open>A comparison of one-byte elements for the examples.\<close>

definition byte_cmp :: cmp_func where
  "byte_cmp x y = int (unat (hd x)) - int (unat (hd y))"

lemma byte_cmp_consistent: "consistent byte_cmp"
  by (auto simp: consistent_def byte_cmp_def sgn_if)

text \<open>C14: \<^verbatim>\<open>sort\<close> sorts: with a comparison that is consistent, and with the default swap functions or any swap
  function that exchanges two elements, the elements of the array end up in ascending order, they are the
  elements of before, and nothing outside the array is written.\<close>

theorem sort_array_sorts:
  assumes "0 < sz" "case swap_func of None \<Rightarrow> True | Some f \<Rightarrow> swapper sz f" "consistent cmp" "length m = num * sz"
  shows "length (sort_array base num sz cmp swap_func m) = length m \<and>
    sorted_wrt (cmp_le cmp) (elements sz num (sort_array base num sz cmp swap_func m)) \<and>
    mset (elements sz num (sort_array base num sz cmp swap_func m)) = mset (elements sz num m)"
  by (rule sort_array_sorted [OF assms])

theorem sort_array_sorts_witness:
  "sorted_wrt (cmp_le byte_cmp) (elements 1 4 (sort_array 0 4 1 byte_cmp None [7, 2, 9, 2])) \<and>
   sort_array 0 4 1 byte_cmp None [7, 2, 9, 2] = [2, 2, 7, 9]"
proof -
  have "sort_array 0 4 1 byte_cmp None [7, 2, 9, 2] = [2, 2, 7, 9]" by code_simp
  then show ?thesis using sort_array_sorts [of 1 None byte_cmp "[7, 2, 9, 2]" 4 0] byte_cmp_consistent by simp
qed

text \<open>C16: \<^verbatim>\<open>bsearch\<close> in an array that \<^verbatim>\<open>sort\<close> has sorted with the same comparison ends, and finds an element that
  compares equal to the key exactly if the array held one before it was sorted.\<close>

theorem sort_then_bsearch:
  assumes "0 < sz" "consistent cmp" "length m = num * sz"
  shows "case bsearch key (sort_array base num sz cmp None m) num sz cmp of
      Some i \<Rightarrow> i < num \<and> cmp key (elements sz num (sort_array base num sz cmp None m) ! i) = 0
    | None \<Rightarrow> \<forall>x \<in> set (elements sz num m). cmp key x \<noteq> 0"
proof -
  let ?m = "sort_array base num sz cmp None m"
  note s = sort_array_sorted [of sz None, OF assms(1) _ assms(2,3), of base, simplified]
  have k: "key_ordered cmp key (elements sz num ?m)" using sorted_key_ordered [OF assms(2)] s by blast
  have "set (elements sz num m) = set (elements sz num ?m)" using s by (metis set_mset_mset)
  then have e: "(\<forall>x \<in> set (elements sz num m). cmp key x \<noteq> 0) = (\<forall>i < num. cmp key (load sz (i * sz) ?m) \<noteq> 0)"
    by (simp add: all_set_conv_all_nth nth_elements)
  show ?thesis
    using bsearch_loop_correct [OF k order_refl, of 0] unfolding bsearch_def e
    by (auto simp: nth_elements split: option.splits)
qed

theorem sort_then_bsearch_witness:
  "bsearch [9] (sort_array 0 4 1 byte_cmp None [7, 2, 9, 2]) 4 1 byte_cmp = Some 3 \<and>
   byte_cmp [9] (elements 1 4 (sort_array 0 4 1 byte_cmp None [7, 2, 9, 2]) ! 3) = 0"
proof -
  have "bsearch [9] (sort_array 0 4 1 byte_cmp None [7, 2, 9, 2]) 4 1 byte_cmp = Some 3" by code_simp
  then show ?thesis using sort_then_bsearch [of 1 byte_cmp "[7, 2, 9, 2]" 4 "[9]" 0] byte_cmp_consistent by simp
qed

end
