(* ===== verification/List_Sort.thy ===== *)
theory List_Sort
  imports Sort
begin

text \<open>
  Sorting linked lists, \<^verbatim>\<open>lib/list_sort.c\<close>: a bottom-up merge sort.

  A null-terminated chain of nodes is a list, the empty list standing for the null pointer; the
  doubly linked list of the caller is the list of its nodes between the head and itself, so that
  \<^verbatim>\<open>merge_and_restore_back_links\<close>, which restores the \<^verbatim>\<open>prev\<close> pointers on the way, gives the same
  chain as \<^verbatim>\<open>merge\<close>. The callback is a function of two nodes; its extra calls with equal nodes,
  which let the caller reschedule, have no effect here.
\<close>

section \<open>Definitions\<close>

definition MAX_LIST_LENGTH_BITS :: nat where "MAX_LIST_LENGTH_BITS = 20"

text \<open>\<open>tail\<close> accumulates the nodes linked so far.\<close>

fun merge_nodes_loop :: "('a \<Rightarrow> 'a \<Rightarrow> int) \<Rightarrow> 'a list \<Rightarrow> 'a list \<Rightarrow> 'a list \<Rightarrow> 'a list" where
  "merge_nodes_loop cmp tail (x # a) (y # b) =
     (if cmp x y \<le> 0 then merge_nodes_loop cmp (tail @ [x]) a (y # b) else merge_nodes_loop cmp (tail @ [y]) (x # a) b)"
| "merge_nodes_loop cmp tail a b = tail @ (if a \<noteq> [] then a else b)"

definition merge :: "('a \<Rightarrow> 'a \<Rightarrow> int) \<Rightarrow> 'a list \<Rightarrow> 'a list \<Rightarrow> 'a list" where
  "merge cmp a b = merge_nodes_loop cmp [] a b"

definition merge_and_restore_back_links :: "('a \<Rightarrow> 'a \<Rightarrow> int) \<Rightarrow> 'a list \<Rightarrow> 'a list \<Rightarrow> 'a list" where
  "merge_and_restore_back_links cmp a b = merge_nodes_loop cmp [] a b"

text \<open>The inner loop merges a node with the partial lists up to the first empty slot; the last slot
  of the array is always empty.\<close>

function carry_loop :: "('a \<Rightarrow> 'a \<Rightarrow> int) \<Rightarrow> 'a list list \<Rightarrow> 'a list \<Rightarrow> nat \<Rightarrow> 'a list list \<times> 'a list \<times> nat" where
  "carry_loop cmp part cur lev =
     (if lev < length part \<and> part ! lev \<noteq> []
      then carry_loop cmp (part[lev := []]) (merge cmp (part ! lev) cur) (lev + 1)
      else (part, cur, lev))"
  by pat_completeness auto
termination
  by (relation "measure (\<lambda>(cmp, part, cur, lev). length part - lev)") auto

declare carry_loop.simps [simp del]

fun insert_loop :: "('a \<Rightarrow> 'a \<Rightarrow> int) \<Rightarrow> 'a list list \<Rightarrow> nat \<Rightarrow> 'a list \<Rightarrow> 'a list list \<times> nat" where
  "insert_loop cmp part max_lev [] = (part, max_lev)"
| "insert_loop cmp part max_lev (x # xs) =
     (let (part, cur, lev) = carry_loop cmp part [x] 0;
          (lev, max_lev) =
            (if lev > max_lev
             then let lev = if lev \<ge> length part - 1 then lev - 1 else lev in (lev, lev)
             else (lev, max_lev))
      in insert_loop cmp (part[lev := cur]) max_lev xs)"

primrec collect_loop :: "('a \<Rightarrow> 'a \<Rightarrow> int) \<Rightarrow> 'a list list \<Rightarrow> nat \<Rightarrow> 'a list \<Rightarrow> 'a list" where
  "collect_loop cmp part 0 xs = xs"
| "collect_loop cmp part (Suc lev) xs =
     (let xs = collect_loop cmp part lev xs in if part ! lev \<noteq> [] then merge cmp (part ! lev) xs else xs)"

definition list_sort :: "('a \<Rightarrow> 'a \<Rightarrow> int) \<Rightarrow> 'a list \<Rightarrow> 'a list" where
  "list_sort cmp xs =
     (if xs = [] then []
      else let part = replicate (MAX_LIST_LENGTH_BITS + 1) [];
               (part, max_lev) = insert_loop cmp part 0 xs
           in merge_and_restore_back_links cmp (part ! max_lev) (collect_loop cmp part max_lev []))"

section \<open>Lemmas: merging\<close>

definition same :: "('a \<Rightarrow> 'a \<Rightarrow> int) \<Rightarrow> 'a \<Rightarrow> 'a list \<Rightarrow> 'a list" where
  "same cmp z xs = filter (\<lambda>x. cmp z x = 0) xs"

lemma same_simps [simp]: "same cmp z [] = []" "same cmp z (xs @ ys) = same cmp z xs @ same cmp z ys"
  "same cmp z (x # xs) = (if cmp z x = 0 then x # same cmp z xs else same cmp z xs)"
  by (simp_all add: same_def)

text \<open>\<open>sorts cmp xs ys\<close>: \<open>ys\<close> is \<open>xs\<close> in ascending order, with equal elements in the order of \<open>xs\<close>.\<close>

definition sorts :: "('a \<Rightarrow> 'a \<Rightarrow> int) \<Rightarrow> 'a list \<Rightarrow> 'a list \<Rightarrow> bool" where
  "sorts cmp xs ys \<longleftrightarrow> sorted_wrt (cmp_le cmp) ys \<and> mset ys = mset xs \<and> (\<forall>z. same cmp z ys = same cmp z xs)"

lemma merge_loop_append: "merge_nodes_loop cmp (t @ s) a b = t @ merge_nodes_loop cmp s a b"
  by (induction cmp s a b rule: merge_nodes_loop.induct) simp_all

lemma merge_simps [simp]:
  "merge cmp (x # a) (y # b) = (if cmp x y \<le> 0 then x # merge cmp a (y # b) else y # merge cmp (x # a) b)"
  "merge cmp [] b = b" "merge cmp a [] = a"
  using merge_loop_append [of cmp "[x]" "[]"] merge_loop_append [of cmp "[y]" "[]"]
  by (simp_all add: merge_def)

lemma merge_induct:
  fixes cmp :: "'a \<Rightarrow> 'a \<Rightarrow> int"
  assumes "\<And>x a y b. (cmp x y \<le> 0 \<Longrightarrow> P a (y # b)) \<Longrightarrow> (\<not> cmp x y \<le> 0 \<Longrightarrow> P (x # a) b) \<Longrightarrow> P (x # a) (y # b)"
    "\<And>b. P [] b" "\<And>a. P a []"
  shows "P a b"
proof -
  have "P a b" for t :: "'a list" and a b using assms by (induction cmp t a b rule: merge_nodes_loop.induct) auto
  then show ?thesis .
qed

lemma mset_merge [simp]: "mset (merge cmp a b) = mset a + mset b"
  by (induction a b rule: merge_induct [of cmp]) auto

lemma set_merge [simp]: "set (merge cmp a b) = set a \<union> set b"
  by (metis mset_merge set_mset_mset set_mset_union)

lemma merge_sorted:
  assumes "consistent cmp" "sorted_wrt (cmp_le cmp) a" "sorted_wrt (cmp_le cmp) b"
  shows "sorted_wrt (cmp_le cmp) (merge cmp a b)"
  using assms(2,3)
proof (induction a b rule: merge_induct [of cmp])
  case (1 x a y b)
  have tr: "cmp_le cmp u w" if "cmp_le cmp u v" "cmp_le cmp v w" for u v w by (rule consistent_le(4) [OF assms(1) that])
  show ?case
  proof (cases "cmp x y \<le> 0")
    case True
    then show ?thesis using "1.IH"(1) [OF True] "1.prems" tr [of x y] by (auto simp: cmp_le_def [of cmp x y])
  next
    case False
    then have "cmp_le cmp y x" using consistent_le(3) [OF assms(1), of x y] by (simp add: cmp_le_def)
    then show ?thesis using "1.IH"(2) [OF False] "1.prems" False tr [of y x] by auto
  qed
qed simp_all

lemma merge_stable:
  assumes "consistent cmp" "sorted_wrt (cmp_le cmp) a" "sorted_wrt (cmp_le cmp) b"
  shows "same cmp z (merge cmp a b) = same cmp z a @ same cmp z b"
  using assms(2,3)
proof (induction a b rule: merge_induct [of cmp])
  case (1 x a y b)
  show ?case
  proof (cases "cmp x y \<le> 0")
    case True
    then show ?thesis using "1.IH"(1) [OF True] "1.prems" by simp
  next
    case False
    have "same cmp z (x # a) = []" if "cmp z y = 0"
    proof -
      have "cmp z w \<noteq> 0" if w: "w \<in> set (x # a)" for w
      proof
        assume "cmp z w = 0"
        then have "cmp_le cmp w z" "cmp_le cmp z y" using consistent_le(2) [OF assms(1), of z w] \<open>cmp z y = 0\<close> by (auto simp: cmp_le_def)
        then have "cmp_le cmp w y" by (rule consistent_le(4) [OF assms(1)])
        moreover have "cmp_le cmp x w" using w "1.prems"(1) consistent_le(3) [OF assms(1), of x x] by auto
        ultimately show False using False consistent_le(4) [OF assms(1), of x w y] by (simp add: cmp_le_def)
      qed
      then show ?thesis unfolding same_def by (simp add: filter_empty_conv)
    qed
    then show ?thesis using "1.IH"(2) [OF False] "1.prems" False by (auto simp del: same_simps(3)) (simp add: same_simps(3))
  qed
qed simp_all

section \<open>Lemmas: the partial lists\<close>

text \<open>The nodes of the slots from \<open>lev\<close> on, in the order in which they came: a higher slot holds older nodes.\<close>

definition flat :: "nat \<Rightarrow> 'a list list \<Rightarrow> 'a list" where
  "flat lev part = concat (rev (drop lev part))"

lemma flat_step: "lev < length part \<Longrightarrow> flat lev part = flat (Suc lev) part @ part ! lev"
  by (simp add: flat_def Cons_nth_drop_Suc [symmetric])

lemma flat_update: "k < lev \<Longrightarrow> flat lev (part[k := ys]) = flat lev part"
  by (simp add: flat_def)

lemma flat_empty: "(\<forall>k. lev \<le> k \<and> k < length part \<longrightarrow> part ! k = []) \<Longrightarrow> flat lev part = []"
  by (auto simp: flat_def in_set_conv_nth)

lemma flat_skip: "(\<forall>k < lev. part ! k = []) \<Longrightarrow> lev \<le> length part \<Longrightarrow> flat 0 part = flat lev part"
proof (induction lev)
  case (Suc lev)
  then show ?case using flat_step [of lev part] by simp
qed simp

definition slots_sorted :: "('a \<Rightarrow> 'a \<Rightarrow> int) \<Rightarrow> 'a list list \<Rightarrow> bool" where
  "slots_sorted cmp part \<longleftrightarrow> (\<forall>s \<in> set part. sorted_wrt (cmp_le cmp) s)"

lemma slots_sorted_update: "slots_sorted cmp part \<Longrightarrow> sorted_wrt (cmp_le cmp) ys \<Longrightarrow> slots_sorted cmp (part[k := ys])"
  unfolding slots_sorted_def using set_update_subset_insert by fastforce

lemma slots_sorted_nth: "slots_sorted cmp part \<Longrightarrow> k < length part \<Longrightarrow> sorted_wrt (cmp_le cmp) (part ! k)"
  by (simp add: slots_sorted_def)

text \<open>Same nodes, and equal nodes in the same order.\<close>

definition stable_eq :: "('a \<Rightarrow> 'a \<Rightarrow> int) \<Rightarrow> 'a list \<Rightarrow> 'a list \<Rightarrow> bool" where
  "stable_eq cmp xs ys \<longleftrightarrow> mset xs = mset ys \<and> (\<forall>z. same cmp z xs = same cmp z ys)"

lemma stable_eq_refl [simp]: "stable_eq cmp xs xs"
  by (simp add: stable_eq_def)

lemma stable_eq_trans: "stable_eq cmp xs ys \<Longrightarrow> stable_eq cmp ys zs \<Longrightarrow> stable_eq cmp xs zs"
  by (simp add: stable_eq_def)

lemma stable_eq_append: "stable_eq cmp xs ys \<Longrightarrow> stable_eq cmp us vs \<Longrightarrow> stable_eq cmp (xs @ us) (ys @ vs)"
  by (simp add: stable_eq_def)

lemma merge_stable_eq:
  "consistent cmp \<Longrightarrow> sorted_wrt (cmp_le cmp) a \<Longrightarrow> sorted_wrt (cmp_le cmp) b \<Longrightarrow> stable_eq cmp (merge cmp a b) (a @ b)"
  by (simp add: stable_eq_def merge_stable)

lemma carry_loop_correct:
  assumes "consistent cmp" "slots_sorted cmp part" "sorted_wrt (cmp_le cmp) cur" "cur \<noteq> []" "lev \<le> length part"
    "\<forall>k < lev. part ! k = []" "carry_loop cmp part cur lev = (part', cur', lev')"
  shows "length part' = length part \<and> lev \<le> lev' \<and> lev' \<le> length part \<and> (\<forall>k < lev'. part' ! k = []) \<and>
    (lev' < length part \<longrightarrow> part' ! lev' = []) \<and> (\<forall>k \<ge> lev'. part' ! k = part ! k) \<and> (\<forall>k. lev \<le> k \<and> k < lev' \<longrightarrow> part ! k \<noteq> []) \<and>
    slots_sorted cmp part' \<and> sorted_wrt (cmp_le cmp) cur' \<and> cur' \<noteq> [] \<and> stable_eq cmp (flat lev' part' @ cur') (flat lev part @ cur)"
  using assms(2-7)
proof (induction "length part - lev" arbitrary: part cur lev rule: less_induct)
  case less
  show ?case
  proof (cases "lev < length part \<and> part ! lev \<noteq> []")
    case True
    let ?p = "part[lev := []]" and ?c = "merge cmp (part ! lev) cur"
    have s: "sorted_wrt (cmp_le cmp) (part ! lev)" using True slots_sorted_nth less.prems(1) by blast
    have step: "carry_loop cmp ?p ?c (lev + 1) = (part', cur', lev')"
      using True less.prems(6) by (simp add: carry_loop.simps [of cmp part])
    have ne: "?c \<noteq> []"
    proof
      assume "?c = []"
      then have "set ?c = {}" by simp
      then show False using less.prems(3) unfolding set_merge by simp
    qed
    have ih: "length part' = length ?p \<and> lev + 1 \<le> lev' \<and> lev' \<le> length ?p \<and> (\<forall>k < lev'. part' ! k = []) \<and>
        (lev' < length ?p \<longrightarrow> part' ! lev' = []) \<and> (\<forall>k \<ge> lev'. part' ! k = ?p ! k) \<and> (\<forall>k. lev + 1 \<le> k \<and> k < lev' \<longrightarrow> ?p ! k \<noteq> []) \<and>
        slots_sorted cmp part' \<and> sorted_wrt (cmp_le cmp) cur' \<and> cur' \<noteq> [] \<and> stable_eq cmp (flat lev' part' @ cur') (flat (lev + 1) ?p @ ?c)"
    proof (rule less.hyps [OF _ _ _ ne _ _ step])
      show "length ?p - (lev + 1) < length part - lev" using True by auto
      show "slots_sorted cmp ?p" using less.prems(1) by (simp add: slots_sorted_update)
      show "sorted_wrt (cmp_le cmp) ?c" by (rule merge_sorted [OF assms(1) s less.prems(2)])
      show "lev + 1 \<le> length ?p" using True by simp
      show "\<forall>k < lev + 1. ?p ! k = []" using less.prems(5) True by (auto simp: nth_list_update less_Suc_eq)
    qed
    have "stable_eq cmp (flat (lev + 1) ?p @ ?c) (flat lev part @ cur)"
      using stable_eq_append [OF stable_eq_refl merge_stable_eq [OF assms(1) s less.prems(2)], of "flat (Suc lev) part"] True
      by (simp add: flat_update flat_step)
    then have st: "stable_eq cmp (flat lev' part' @ cur') (flat lev part @ cur)" using ih stable_eq_trans by blast
    have "part ! k \<noteq> []" if "lev \<le> k" "k < lev'" for k
    proof (cases "k = lev")
      case False
      then have "?p ! k \<noteq> []" using ih that by auto
      then show ?thesis using False by simp
    qed (use True in simp)
    then show ?thesis using ih st by auto
  next
    case False
    then have "part' = part" "cur' = cur" "lev' = lev" using less.prems(6) by (auto simp: carry_loop.simps [of cmp part])
    then show ?thesis using False less.prems by auto
  qed
qed

text \<open>The state of the insertion loop after the nodes \<open>xs\<close>.\<close>

definition parts_inv :: "('a \<Rightarrow> 'a \<Rightarrow> int) \<Rightarrow> 'a list list \<Rightarrow> nat \<Rightarrow> 'a list \<Rightarrow> bool" where
  "parts_inv cmp part max_lev xs \<longleftrightarrow> length part = MAX_LIST_LENGTH_BITS + 1 \<and> max_lev < MAX_LIST_LENGTH_BITS \<and>
     (\<forall>k. max_lev < k \<and> k < length part \<longrightarrow> part ! k = []) \<and> slots_sorted cmp part \<and>
     stable_eq cmp (flat 0 part) xs \<and> (if xs = [] then max_lev = 0 else part ! max_lev \<noteq> [])"

lemma insert_inv:
  assumes "consistent cmp" "parts_inv cmp part max_lev xs" "carry_loop cmp part [x] 0 = (part', cur, lev)"
    "(lev', max_lev') = (if lev > max_lev then let lev = if lev \<ge> length part' - 1 then lev - 1 else lev in (lev, lev) else (lev, max_lev))"
  shows "parts_inv cmp (part'[lev' := cur]) max_lev' (xs @ [x])"
proof -
  have inv: "length part = 21" "max_lev < 20" "\<forall>k. max_lev < k \<and> k < 21 \<longrightarrow> part ! k = []" "slots_sorted cmp part" "stable_eq cmp (flat 0 part) xs"
    "xs = [] \<longrightarrow> max_lev = 0" "xs \<noteq> [] \<longrightarrow> part ! max_lev \<noteq> []"
    using assms(2) by (auto split: if_splits simp: parts_inv_def MAX_LIST_LENGTH_BITS_def)
  have len: "length part' = 21" and lev: "lev \<le> 21" "\<forall>k < lev. part' ! k = []" "lev < 21 \<longrightarrow> part' ! lev = []"
      "\<forall>k \<ge> lev. part' ! k = part ! k" "\<forall>k < lev. part ! k \<noteq> []"
    and cur: "sorted_wrt (cmp_le cmp) cur" "cur \<noteq> []" and s: "slots_sorted cmp part'"
    and eq: "stable_eq cmp (flat lev part' @ cur) (flat 0 part @ [x])"
    using carry_loop_correct [OF assms(1) inv(4) _ _ _ _ assms(3)] inv(1) by auto
  have le: "lev \<le> Suc max_lev"
  proof (rule ccontr)
    assume "\<not> lev \<le> Suc max_lev"
    then have "part ! Suc max_lev \<noteq> []" using lev(5) by simp
    then show False using inv(2,3) by simp
  qed
  have l': "lev' < 20" "lev' \<le> lev" "lev \<le> Suc lev'" "lev' = lev \<or> lev' = 19 \<and> lev = 20" "max_lev' = max max_lev lev'"
    using assms(4) le inv(2) len by (auto simp: Let_def split: if_splits)
  have "flat lev' (part'[lev' := cur]) = flat (Suc lev') part' @ cur"
    using l'(1) len by (simp add: flat_step flat_update)
  moreover have "flat 0 (part'[lev' := cur]) = flat lev' (part'[lev' := cur])"
    using lev(2) l'(1,2) len by (intro flat_skip) (auto simp: nth_list_update)
  moreover have "flat lev part' = flat (Suc lev') part'"
  proof (cases "lev' = lev")
    case True
    then show ?thesis using flat_step [of lev part'] lev(3) l'(1) len by simp
  qed (use l'(4) in simp)
  ultimately have f: "flat 0 (part'[lev' := cur]) = flat lev part' @ cur" by simp
  have "stable_eq cmp (flat 0 (part'[lev' := cur])) (xs @ [x])"
    unfolding f using eq stable_eq_append [OF inv(5) stable_eq_refl] stable_eq_trans by blast
  moreover have "part'[lev' := cur] ! k = []" if "max_lev' < k" "k < 21" for k
    using that l' inv(3) lev(2,4) by (cases "k < lev") auto
  moreover have "part'[lev' := cur] ! max_lev' \<noteq> []"
  proof (cases "max_lev' = lev'")
    case True
    then show ?thesis using l'(1) len cur(2) by simp
  next
    case False
    then have m: "lev' < max_lev" "max_lev' = max_lev" "lev' = lev" using l' inv(2) by auto
    then show ?thesis using lev(4) inv(6,7) by auto
  qed
  ultimately show ?thesis
    using len l' inv(2) slots_sorted_update [OF s cur(1)] by (simp add: parts_inv_def MAX_LIST_LENGTH_BITS_def)
qed

lemma insert_loop_inv:
  assumes "consistent cmp" "parts_inv cmp part max_lev xs" "insert_loop cmp part max_lev ys = (part', max_lev')"
  shows "parts_inv cmp part' max_lev' (xs @ ys)"
  using assms(2,3)
proof (induction ys arbitrary: part max_lev xs)
  case (Cons y ys)
  obtain p cur lev where c: "carry_loop cmp part [y] 0 = (p, cur, lev)" using prod_cases3 by blast
  obtain lev' m where l: "(lev', m) = (if lev > max_lev then let lev = if lev \<ge> length p - 1 then lev - 1 else lev in (lev, lev) else (lev, max_lev))"
    by (metis surj_pair)
  have "insert_loop cmp (p[lev' := cur]) m ys = (part', max_lev')"
    using Cons.prems(2) c l by (simp add: Let_def split: if_splits prod.splits)
  from Cons.IH [OF insert_inv [OF assms(1) Cons.prems(1) c l] this] show ?case by simp
qed simp

lemma collect_loop_correct:
  assumes "consistent cmp" "slots_sorted cmp part" "n \<le> length part"
  shows "sorted_wrt (cmp_le cmp) (collect_loop cmp part n []) \<and>
    stable_eq cmp (collect_loop cmp part n []) (concat (rev (take n part)))"
  using assms(3)
proof (induction n)
  case (Suc n)
  let ?l = "collect_loop cmp part n []"
  have ih: "sorted_wrt (cmp_le cmp) ?l" "stable_eq cmp ?l (concat (rev (take n part)))" using Suc by auto
  have s: "sorted_wrt (cmp_le cmp) (part ! n)" using slots_sorted_nth [OF assms(2)] Suc.prems by simp
  have e: "collect_loop cmp part (Suc n) [] = merge cmp (part ! n) ?l" by (simp add: Let_def)
  have "stable_eq cmp (merge cmp (part ! n) ?l) (part ! n @ concat (rev (take n part)))"
    using stable_eq_trans [OF merge_stable_eq [OF assms(1) s ih(1)] stable_eq_append [OF stable_eq_refl ih(2)]] .
  then show ?case unfolding e using merge_sorted [OF assms(1) s ih(1)] Suc.prems by (simp add: take_Suc_conv_app_nth)
qed simp

lemma list_sort_sorts:
  assumes "consistent cmp"
  shows "sorts cmp xs (list_sort cmp xs)"
proof (cases "xs = []")
  case False
  let ?part = "replicate (MAX_LIST_LENGTH_BITS + 1) []"
  obtain part n where i: "insert_loop cmp ?part 0 xs = (part, n)" by fastforce
  have "parts_inv cmp ?part 0 []"
    by (auto simp: parts_inv_def MAX_LIST_LENGTH_BITS_def slots_sorted_def flat_empty)
  from insert_loop_inv [OF assms this i] have inv: "parts_inv cmp part n xs" by simp
  have n: "n < length part" "\<forall>k. n < k \<and> k < length part \<longrightarrow> part ! k = []" "slots_sorted cmp part" "stable_eq cmp (flat 0 part) xs"
    using inv by (auto simp: parts_inv_def)
  let ?l = "collect_loop cmp part n []"
  have l: "sorted_wrt (cmp_le cmp) ?l" "stable_eq cmp ?l (concat (rev (take n part)))"
    using collect_loop_correct [OF assms n(3)] n(1) by simp_all
  have s: "sorted_wrt (cmp_le cmp) (part ! n)" by (rule slots_sorted_nth [OF n(3,1)])
  have r: "list_sort cmp xs = merge cmp (part ! n) ?l"
    using False i by (simp add: list_sort_def merge_and_restore_back_links_def merge_def)
  have "flat 0 part = flat n part @ concat (rev (take n part))"
    by (metis append_take_drop_id concat_append drop0 flat_def rev_append)
  also have "flat n part = part ! n" using flat_step [OF n(1)] flat_empty [of "Suc n" part] n(2) by (simp add: Suc_le_eq)
  finally have "stable_eq cmp (merge cmp (part ! n) ?l) (flat 0 part)"
    using stable_eq_trans [OF merge_stable_eq [OF assms s l(1)] stable_eq_append [OF stable_eq_refl l(2)]] by simp
  then have "stable_eq cmp (list_sort cmp xs) xs" unfolding r by (rule stable_eq_trans [OF _ n(4)])
  then show ?thesis using merge_sorted [OF assms s l(1)] unfolding sorts_def stable_eq_def r by simp
qed (simp add: list_sort_def sorts_def)

section \<open>Properties\<close>

text \<open>C15: \<^verbatim>\<open>list_sort\<close> is a stable sort: with a consistent comparison the list ends up in ascending order, its nodes
  are those of before, and nodes that compare equal keep their order. This holds for lists of any length, also
  beyond the \<open>2 ^ 20\<close> nodes for which the array of partial lists has slots.\<close>

theorem list_sort_stable:
  assumes "consistent cmp"
  shows "sorted_wrt (cmp_le cmp) (list_sort cmp xs) \<and> mset (list_sort cmp xs) = mset xs \<and>
    (\<forall>z. filter (\<lambda>x. cmp z x = 0) (list_sort cmp xs) = filter (\<lambda>x. cmp z x = 0) xs)"
  using list_sort_sorts [OF assms] by (simp add: sorts_def same_def)

definition fst_cmp :: "int \<times> int \<Rightarrow> int \<times> int \<Rightarrow> int" where
  "fst_cmp x y = fst x - fst y"

theorem list_sort_stable_witness:
  "filter (\<lambda>x. fst_cmp (2, 0) x = 0) (list_sort fst_cmp [(2, 1), (5, 0), (2, 2), (1, 0), (2, 0)]) = [(2, 1), (2, 2), (2, 0)] \<and>
   list_sort fst_cmp [(2, 1), (5, 0), (2, 2), (1, 0), (2, 0)] = [(1, 0), (2, 1), (2, 2), (2, 0), (5, 0)]"
proof -
  have "list_sort fst_cmp [(2, 1), (5, 0), (2, 2), (1, 0), (2, 0)] = [(1, 0), (2, 1), (2, 2), (2, 0), (5, 0)]" by code_simp
  moreover have "consistent fst_cmp" by (auto simp: consistent_def fst_cmp_def sgn_if)
  ultimately show ?thesis
    using list_sort_stable [of fst_cmp "[(2, 1), (5, 0), (2, 2), (1, 0), (2, 0)]"] by (auto simp: fst_cmp_def)
qed

end
