(* ===== verification/Kfifo.thy ===== *)
theory Kfifo
  imports Byte_Memory Bit_Ops "HOL-Library.Monad_Syntax"
begin

text \<open>
  The FIFO of \<^verbatim>\<open>lib/kfifo.c\<close> and \<^verbatim>\<open>include/linux/kfifo.h\<close>: a ring buffer of a power of two elements whose
  two free-running 32-bit indices wrap around.

  The buffer is a list of bytes, and every \<^verbatim>\<open>memcpy\<close> is checked: \<open>None\<close> means an access outside the buffer
  of the FIFO or of the caller. The memory barriers have no counterpart in this sequential model.
  Copies from and to user space may stop early: \<open>cfu a n\<close> (\<open>ctu a n\<close>) is the number of bytes that were
  not copied of the \<open>n\<close> bytes at offset \<open>a\<close> of the user buffer; the rest of the target of a copy from
  user space is cleared. The set-up of scatter-gather lists for DMA is not modelled.
\<close>

section \<open>State\<close>

record kfifo =
  fin :: u32
  fout :: u32
  fmask :: u32
  esize :: u32
  fdata :: mem

definition roundup_pow_of_two :: "u32 \<Rightarrow> u32" where
  "roundup_pow_of_two n = push_bit (fls (n - 1)) 1"

definition kfifo_unused :: "kfifo \<Rightarrow> u32" where
  "kfifo_unused f = (fmask f + 1) - (fin f - fout f)"

definition kfifo_size :: "kfifo \<Rightarrow> u32" where
  "kfifo_size f = fmask f + 1"

definition kfifo_len :: "kfifo \<Rightarrow> u32" where
  "kfifo_len f = fin f - fout f"

definition kfifo_is_empty :: "kfifo \<Rightarrow> bool" where
  "kfifo_is_empty f \<longleftrightarrow> fin f = fout f"

definition kfifo_is_full :: "kfifo \<Rightarrow> bool" where
  "kfifo_is_full f \<longleftrightarrow> kfifo_len f > fmask f"

definition kfifo_reset :: "kfifo \<Rightarrow> kfifo" where
  "kfifo_reset f = f\<lparr>fin := 0, fout := 0\<rparr>"

definition kfifo_reset_out :: "kfifo \<Rightarrow> kfifo" where
  "kfifo_reset_out f = f\<lparr>fout := fin f\<rparr>"

text \<open>\<open>kmalloc n\<close> is the buffer of \<open>n\<close> bytes, if there is memory.\<close>

definition kfifo_alloc :: "(u32 \<Rightarrow> mem option) \<Rightarrow> u32 \<Rightarrow> u32 \<Rightarrow> kfifo \<Rightarrow> int \<times> kfifo" where
  "kfifo_alloc kmalloc sz es f =
     (let sz = roundup_pow_of_two sz; f = f\<lparr>fin := 0, fout := 0, esize := es\<rparr>
      in if sz < 2 then (- EINVAL, f\<lparr>fdata := [], fmask := 0\<rparr>)
         else case kmalloc (sz * es) of
             None \<Rightarrow> (- ENOMEM, f\<lparr>fdata := [], fmask := 0\<rparr>)
           | Some d \<Rightarrow> (0, f\<lparr>fdata := d, fmask := sz - 1\<rparr>))"

definition kfifo_free :: "kfifo \<Rightarrow> kfifo" where
  "kfifo_free f = f\<lparr>fin := 0, fout := 0, esize := 0, fdata := [], fmask := 0\<rparr>"

definition kfifo_init :: "mem \<Rightarrow> u32 \<Rightarrow> u32 \<Rightarrow> kfifo \<Rightarrow> int \<times> kfifo" where
  "kfifo_init buffer sz es f =
     (let sz = sz div es; sz = roundup_pow_of_two sz;
          f = f\<lparr>fin := 0, fout := 0, esize := es, fdata := buffer\<rparr>
      in if sz < 2 then (- EINVAL, f\<lparr>fmask := 0\<rparr>) else (0, f\<lparr>fmask := sz - 1\<rparr>))"

section \<open>Copying in and out\<close>

text \<open>The common start of the copy functions: byte offset, byte length, and the bytes up to the end
  of the buffer.\<close>

definition kfifo_split :: "kfifo \<Rightarrow> u32 \<Rightarrow> u32 \<Rightarrow> u32 \<times> u32 \<times> u32" where
  "kfifo_split f len off =
     (let sz = fmask f + 1;
          off = off AND fmask f;
          (off, sz, len) = (if esize f \<noteq> 1 then (off * esize f, sz * esize f, len * esize f) else (off, sz, len))
      in (off, len, min len (sz - off)))"

definition kfifo_copy_in :: "mem \<Rightarrow> u32 \<Rightarrow> u32 \<Rightarrow> kfifo \<Rightarrow> kfifo option" where
  "kfifo_copy_in src len off f =
     (case kfifo_split f len off of (off, len, l) \<Rightarrow> do {
        bs \<leftarrow> load_checked (unat l) 0 src;
        d \<leftarrow> store_checked (unat off) bs (fdata f);
        bs \<leftarrow> load_checked (unat (len - l)) (unat l) src;
        d \<leftarrow> store_checked 0 bs d;
        Some (f\<lparr>fdata := d\<rparr>) })"

definition kfifo_in :: "mem \<Rightarrow> u32 \<Rightarrow> kfifo \<Rightarrow> (u32 \<times> kfifo) option" where
  "kfifo_in buf len f =
     (let l = kfifo_unused f; len = if len > l then l else len
      in do { f \<leftarrow> kfifo_copy_in buf len (fin f) f; Some (len, f\<lparr>fin := fin f + len\<rparr>) })"

definition kfifo_copy_out :: "u32 \<Rightarrow> u32 \<Rightarrow> kfifo \<Rightarrow> u8 list option" where
  "kfifo_copy_out len off f =
     (case kfifo_split f len off of (off, len, l) \<Rightarrow> do {
        bs1 \<leftarrow> load_checked (unat l) (unat off) (fdata f);
        bs2 \<leftarrow> load_checked (unat (len - l)) 0 (fdata f);
        Some (bs1 @ bs2) })"

definition kfifo_out_peek :: "u32 \<Rightarrow> kfifo \<Rightarrow> (u32 \<times> u8 list) option" where
  "kfifo_out_peek len f =
     (let l = fin f - fout f; len = if len > l then l else len
      in do { bs \<leftarrow> kfifo_copy_out len (fout f) f; Some (len, bs) })"

definition kfifo_out :: "u32 \<Rightarrow> kfifo \<Rightarrow> (u32 \<times> u8 list \<times> kfifo) option" where
  "kfifo_out len f = do { (len, bs) \<leftarrow> kfifo_out_peek len f; Some (len, bs, f\<lparr>fout := fout f + len\<rparr>) }"

text \<open>Single elements, for a FIFO without records.\<close>

definition kfifo_put :: "u8 list \<Rightarrow> kfifo \<Rightarrow> (bool \<times> kfifo) option" where
  "kfifo_put val f =
     (if kfifo_is_full f then Some (False, f)
      else do { d \<leftarrow> store_checked (unat (fin f AND fmask f) * unat (esize f)) val (fdata f);
                Some (True, f\<lparr>fdata := d, fin := fin f + 1\<rparr>) })"

definition kfifo_peek :: "kfifo \<Rightarrow> u8 list option option" where
  "kfifo_peek f =
     (if kfifo_is_empty f then Some None
      else do { v \<leftarrow> load_checked (unat (esize f)) (unat (fout f AND fmask f) * unat (esize f)) (fdata f); Some (Some v) })"

definition kfifo_get :: "kfifo \<Rightarrow> (u8 list option \<times> kfifo) option" where
  "kfifo_get f =
     (if kfifo_is_empty f then Some (None, f)
      else do { v \<leftarrow> load_checked (unat (esize f)) (unat (fout f AND fmask f) * unat (esize f)) (fdata f);
                Some (Some v, f\<lparr>fout := fout f + 1\<rparr>) })"

section \<open>User space\<close>

text \<open>\<^verbatim>\<open>copy_from_user\<close>: the bytes the target receives.\<close>

definition user_bytes :: "(nat \<Rightarrow> u32 \<Rightarrow> u32) \<Rightarrow> mem \<Rightarrow> nat \<Rightarrow> u32 \<Rightarrow> u8 list option" where
  "user_bytes cfu from a n = do {
     bs \<leftarrow> load_checked (unat (n - cfu a n)) a from;
     Some (bs @ replicate (unat (cfu a n)) 0) }"

definition kfifo_copy_from_user ::
  "(nat \<Rightarrow> u32 \<Rightarrow> u32) \<Rightarrow> mem \<Rightarrow> u32 \<Rightarrow> u32 \<Rightarrow> kfifo \<Rightarrow> (u32 \<times> u32 \<times> kfifo) option" where
  "kfifo_copy_from_user cfu from len off f =
     (case kfifo_split f len off of (off, len, l) \<Rightarrow> do {
        bs \<leftarrow> user_bytes cfu from 0 l;
        d \<leftarrow> store_checked (unat off) bs (fdata f);
        (ret, d) \<leftarrow>
          (if cfu 0 l \<noteq> 0 then Some ((cfu 0 l + len - l + esize f - 1) div esize f, d)
           else do {
             bs \<leftarrow> user_bytes cfu from (unat l) (len - l);
             d \<leftarrow> store_checked 0 bs d;
             let ret = cfu (unat l) (len - l);
             Some (if ret \<noteq> 0 then (ret + esize f - 1) div esize f else 0, d) });
        Some (ret, len - ret * esize f, f\<lparr>fdata := d\<rparr>) })"

definition kfifo_from_user :: "(nat \<Rightarrow> u32 \<Rightarrow> u32) \<Rightarrow> mem \<Rightarrow> u32 \<Rightarrow> kfifo \<Rightarrow> (int \<times> u32 \<times> kfifo) option" where
  "kfifo_from_user cfu from len f =
     (let len = if esize f \<noteq> 1 then len div esize f else len;
          l = kfifo_unused f;
          len = if len > l then l else len
      in do {
        (ret, copied, f) \<leftarrow> kfifo_copy_from_user cfu from len (fin f) f;
        let (len, err) = (if ret \<noteq> 0 then (len - ret, - EFAULT) else (len, 0));
        Some (err, copied, f\<lparr>fin := fin f + len\<rparr>) })"

text \<open>The bytes that reach the user buffer.\<close>

definition kfifo_copy_to_user ::
  "(nat \<Rightarrow> u32 \<Rightarrow> u32) \<Rightarrow> u32 \<Rightarrow> u32 \<Rightarrow> kfifo \<Rightarrow> (u32 \<times> u32 \<times> u8 list) option" where
  "kfifo_copy_to_user ctu len off f =
     (case kfifo_split f len off of (off, len, l) \<Rightarrow> do {
        bs \<leftarrow> load_checked (unat (l - ctu 0 l)) (unat off) (fdata f);
        (ret, bs) \<leftarrow>
          (if ctu 0 l \<noteq> 0 then Some ((ctu 0 l + len - l + esize f - 1) div esize f, bs)
           else do {
             let ret = ctu (unat l) (len - l);
             bs' \<leftarrow> load_checked (unat (len - l - ret)) 0 (fdata f);
             Some (if ret \<noteq> 0 then (ret + esize f - 1) div esize f else 0, bs @ bs') });
        Some (ret, len - ret * esize f, bs) })"

definition kfifo_to_user :: "(nat \<Rightarrow> u32 \<Rightarrow> u32) \<Rightarrow> u32 \<Rightarrow> kfifo \<Rightarrow> (int \<times> u32 \<times> u8 list \<times> kfifo) option" where
  "kfifo_to_user ctu len f =
     (let len = if esize f \<noteq> 1 then len div esize f else len;
          l = fin f - fout f;
          len = if len > l then l else len
      in do {
        (ret, copied, bs) \<leftarrow> kfifo_copy_to_user ctu len (fout f) f;
        let (len, err) = (if ret \<noteq> 0 then (len - ret, - EFAULT) else (len, 0));
        Some (err, copied, bs, f\<lparr>fout := fout f + len\<rparr>) })"

section \<open>Records\<close>

text \<open>A FIFO of bytes holds records of variable length, each preceded by its length in one or
  two bytes (\<open>recsize\<close>), low byte first.\<close>

definition kfifo_max_r :: "u32 \<Rightarrow> nat \<Rightarrow> u32" where
  "kfifo_max_r len recsize = (let m = push_bit (recsize * 8) 1 - 1 in if len > m then m else len)"

definition KFIFO_PEEK :: "mem \<Rightarrow> u32 \<Rightarrow> u32 \<Rightarrow> u8" where
  "KFIFO_PEEK d out m = d ! unat (out AND m)"

definition kfifo_peek_n :: "kfifo \<Rightarrow> nat \<Rightarrow> u32" where
  "kfifo_peek_n f recsize =
     (let l = ucast (KFIFO_PEEK (fdata f) (fout f) (fmask f))
      in if recsize - 1 \<noteq> 0 then l OR push_bit 8 (ucast (KFIFO_PEEK (fdata f) (fout f + 1) (fmask f))) else l)"

definition KFIFO_POKE :: "mem \<Rightarrow> u32 \<Rightarrow> u32 \<Rightarrow> u32 \<Rightarrow> mem" where
  "KFIFO_POKE d i m val = d[unat (i AND m) := ucast val]"

definition kfifo_poke_n :: "u32 \<Rightarrow> nat \<Rightarrow> kfifo \<Rightarrow> kfifo" where
  "kfifo_poke_n n recsize f =
     (let d = KFIFO_POKE (fdata f) (fin f) (fmask f) n
      in f\<lparr>fdata := (if recsize > 1 then KFIFO_POKE d (fin f + 1) (fmask f) (drop_bit 8 n) else d)\<rparr>)"

definition kfifo_len_r :: "kfifo \<Rightarrow> nat \<Rightarrow> u32" where
  "kfifo_len_r f recsize = kfifo_peek_n f recsize"

definition kfifo_in_r :: "mem \<Rightarrow> u32 \<Rightarrow> nat \<Rightarrow> kfifo \<Rightarrow> (u32 \<times> kfifo) option" where
  "kfifo_in_r buf len recsize f =
     (if len + of_nat recsize > kfifo_unused f then Some (0, f)
      else let f = kfifo_poke_n len recsize f
           in do {
             f \<leftarrow> kfifo_copy_in buf len (fin f + of_nat recsize) f;
             Some (len, f\<lparr>fin := fin f + (len + of_nat recsize)\<rparr>) })"

definition kfifo_out_copy_r :: "u32 \<Rightarrow> nat \<Rightarrow> kfifo \<Rightarrow> (u32 \<times> u8 list \<times> u32) option" where
  "kfifo_out_copy_r len recsize f =
     (let n = kfifo_peek_n f recsize; len = if len > n then n else len
      in do { bs \<leftarrow> kfifo_copy_out len (fout f + of_nat recsize) f; Some (len, bs, n) })"

definition kfifo_out_peek_r :: "u32 \<Rightarrow> nat \<Rightarrow> kfifo \<Rightarrow> (u32 \<times> u8 list) option" where
  "kfifo_out_peek_r len recsize f =
     (if fin f = fout f then Some (0, [])
      else do { (len, bs, n) \<leftarrow> kfifo_out_copy_r len recsize f; Some (len, bs) })"

definition kfifo_out_r :: "u32 \<Rightarrow> nat \<Rightarrow> kfifo \<Rightarrow> (u32 \<times> u8 list \<times> kfifo) option" where
  "kfifo_out_r len recsize f =
     (if fin f = fout f then Some (0, [], f)
      else do { (len, bs, n) \<leftarrow> kfifo_out_copy_r len recsize f; Some (len, bs, f\<lparr>fout := fout f + (n + of_nat recsize)\<rparr>) })"

definition kfifo_skip_r :: "nat \<Rightarrow> kfifo \<Rightarrow> kfifo" where
  "kfifo_skip_r recsize f = f\<lparr>fout := fout f + (kfifo_peek_n f recsize + of_nat recsize)\<rparr>"

definition kfifo_from_user_r ::
  "(nat \<Rightarrow> u32 \<Rightarrow> u32) \<Rightarrow> mem \<Rightarrow> u32 \<Rightarrow> nat \<Rightarrow> kfifo \<Rightarrow> (int \<times> u32 \<times> kfifo) option" where
  "kfifo_from_user_r cfu from len recsize f =
     (let len = kfifo_max_r len recsize
      in if len + of_nat recsize > kfifo_unused f then Some (0, 0, f)
         else let f = kfifo_poke_n len recsize f
              in do {
                (ret, copied, f) \<leftarrow> kfifo_copy_from_user cfu from len (fin f + of_nat recsize) f;
                if ret \<noteq> 0 then Some (- EFAULT, 0, f)
                else Some (0, copied, f\<lparr>fin := fin f + (len + of_nat recsize)\<rparr>) })"

definition kfifo_to_user_r ::
  "(nat \<Rightarrow> u32 \<Rightarrow> u32) \<Rightarrow> u32 \<Rightarrow> nat \<Rightarrow> kfifo \<Rightarrow> (int \<times> u32 \<times> u8 list \<times> kfifo) option" where
  "kfifo_to_user_r ctu len recsize f =
     (if fin f = fout f then Some (0, 0, [], f)
      else let n = kfifo_peek_n f recsize; len = if len > n then n else len
           in do {
             (ret, copied, bs) \<leftarrow> kfifo_copy_to_user ctu len (fout f + of_nat recsize) f;
             if ret \<noteq> 0 then Some (- EFAULT, 0, bs, f)
             else Some (0, copied, bs, f\<lparr>fout := fout f + (n + of_nat recsize)\<rparr>) })"

definition kfifo_dma_in_finish_r :: "u32 \<Rightarrow> nat \<Rightarrow> kfifo \<Rightarrow> kfifo" where
  "kfifo_dma_in_finish_r len recsize f =
     (let len = kfifo_max_r len recsize; f = kfifo_poke_n len recsize f in f\<lparr>fin := fin f + (len + of_nat recsize)\<rparr>)"

definition kfifo_dma_out_finish_r :: "nat \<Rightarrow> kfifo \<Rightarrow> kfifo" where
  "kfifo_dma_out_finish_r recsize f =
     (let len = kfifo_peek_n f recsize in f\<lparr>fout := fout f + (len + of_nat recsize)\<rparr>)"

definition kfifo_avail :: "nat \<Rightarrow> kfifo \<Rightarrow> u32" where
  "kfifo_avail recsize f =
     (let avail = kfifo_size f - kfifo_len f
      in if recsize \<noteq> 0 then (if avail \<le> of_nat recsize then 0 else kfifo_max_r (avail - of_nat recsize) recsize) else avail)"

definition kfifo_skip :: "nat \<Rightarrow> kfifo \<Rightarrow> kfifo" where
  "kfifo_skip recsize f = (if recsize \<noteq> 0 then kfifo_skip_r recsize f else f\<lparr>fout := fout f + 1\<rparr>)"

definition kfifo_peek_len :: "nat \<Rightarrow> kfifo \<Rightarrow> u32" where
  "kfifo_peek_len recsize f = (if recsize = 0 then kfifo_len f * esize f else kfifo_len_r f recsize)"

section \<open>Lemmas: the ring\<close>

text \<open>A ring of \<open>2 ^ k\<close> elements of at least one byte in a buffer of that size, and its elements.\<close>

definition ring :: "nat \<Rightarrow> kfifo \<Rightarrow> bool" where
  "ring k f \<longleftrightarrow> k < 32 \<and> fmask f = mask k \<and> 0 < unat (esize f) \<and> 2 ^ k * unat (esize f) < 2 ^ 32 \<and>
     length (fdata f) = 2 ^ k * unat (esize f)"

abbreviation slots :: "nat \<Rightarrow> kfifo \<Rightarrow> u8 list list" where
  "slots k f \<equiv> elements (unat (esize f)) (2 ^ k) (fdata f)"

lemma ring_mask:
  assumes "ring k f"
  shows "unat (fmask f + 1) = 2 ^ k" "unat (off AND fmask f) = unat off mod 2 ^ k"
proof -
  have "mask k + 1 = (2 ^ k :: u32)" by (simp add: mask_eq_exp_minus_1)
  then show "unat (fmask f + 1) = 2 ^ k" using assms by (simp add: ring_def unat_exp_32)
  show "unat (off AND fmask f) = unat off mod 2 ^ k" using assms by (simp add: ring_def unat_and_mask)
qed

lemma kfifo_split_eq:
  assumes "ring k f" "unat len \<le> 2 ^ k"
  obtains o' n l where "kfifo_split f len off = (o', n, l)" "unat o' = (unat off mod 2 ^ k) * unat (esize f)"
    "unat n = unat len * unat (esize f)" "unat l = min (unat len) (2 ^ k - unat off mod 2 ^ k) * unat (esize f)"
    "unat (n - l) = (unat len - min (unat len) (2 ^ k - unat off mod 2 ^ k)) * unat (esize f)"
proof -
  let ?e = "unat (esize f)" and ?o = "unat off mod 2 ^ k"
  define o' n s where "o' = (off AND fmask f) * esize f" and "n = len * esize f" and "s = (fmask f + 1) * esize f"
  have sm: "2 ^ k * ?e < 2 ^ 32" using assms(1) by (simp add: ring_def)
  have small: "x * ?e < 2 ^ 32" if "x \<le> 2 ^ k" for x using mult_le_mono1 [OF that, of ?e] sm by linarith
  have lt: "?o < 2 ^ k" by simp
  have u: "unat o' = ?o * ?e" "unat n = unat len * ?e" "unat s = 2 ^ k * ?e"
    using small [OF less_imp_le [OF lt]] small [OF assms(2)] sm
    by (simp_all add: o'_def n_def s_def unat_mult_32 ring_mask [OF assms(1)])
  have sp: "kfifo_split f len off = (o', n, min n (s - o'))"
    by (cases "esize f = 1") (simp_all add: kfifo_split_def o'_def n_def s_def Let_def)
  have "?o * ?e \<le> 2 ^ k * ?e" using lt by (intro mult_le_mono1) simp
  then have "unat (s - o') = (2 ^ k - ?o) * ?e" using u by (simp add: unat_sub word_le_nat_alt diff_mult_distrib)
  then have l: "unat (min n (s - o')) = min (unat len) (2 ^ k - ?o) * ?e"
    using u(2) by (simp add: min_def word_le_nat_alt)
  moreover have "unat (n - min n (s - o')) = (unat len - min (unat len) (2 ^ k - ?o)) * ?e"
    using l u(2) by (subst unat_sub) (simp_all add: word_le_nat_alt diff_mult_distrib)
  ultimately show ?thesis using that [OF sp u(1,2)] by blast
qed

lemma ring_slot_eq:
  fixes s :: nat
  assumes "q < s" "n \<le> s"
  shows "(\<exists>j < n. q = (a + j) mod s) \<longleftrightarrow>
    q < n - min n (s - a mod s) \<or> (a mod s \<le> q \<and> q < a mod s + min n (s - a mod s))"
proof -
  let ?o = "a mod s"
  have o: "?o < s" using assms by simp
  have m: "(a + j) mod s = (if ?o + j < s then ?o + j else ?o + j - s)" if "j < n" for j
    using that assms by (intro mod_ring) linarith+
  show ?thesis (is "?L \<longleftrightarrow> ?R")
  proof
    assume ?L
    then obtain j where j: "j < n" "q = (if ?o + j < s then ?o + j else ?o + j - s)" using m by metis
    then show ?R using o assms(2) by (cases "?o + j < s") (simp_all, linarith+)
  next
    assume ?R
    then show ?L
    proof
      assume q: "q < n - min n (s - ?o)"
      then have j: "s - ?o + q < n" by linarith
      have "?o + (s - ?o + q) = s + q" using o by linarith
      then have "(a + (s - ?o + q)) mod s = q" using m [OF j] by simp
      then show ?L using j by (intro exI [of _ "s - ?o + q"]) simp
    next
      assume q: "?o \<le> q \<and> q < ?o + min n (s - ?o)"
      then have j: "q - ?o < n" by linarith
      then have "(a + (q - ?o)) mod s = q" using m [OF j] assms q by simp
      then show ?L using j by (intro exI [of _ "q - ?o"]) simp
    qed
  qed
qed

text \<open>Writing a block of \<open>n\<close> elements into the ring from position \<open>off\<close> on, in two pieces.\<close>

lemma ring_store:
  fixes off n lo :: nat
  assumes "ring k f" "n \<le> 2 ^ k" "lo = min n (2 ^ k - off mod 2 ^ k)"
    "length b1 = lo * unat (esize f)" "length b2 = (n - lo) * unat (esize f)"
  defines "d1 \<equiv> store (off mod 2 ^ k * unat (esize f)) b1 (fdata f)"
  defines "d2 \<equiv> store 0 b2 d1"
  shows "off mod 2 ^ k * unat (esize f) + length b1 \<le> length (fdata f)" "length d1 = length (fdata f)"
    "length b2 \<le> length (fdata f)" "length d2 = length (fdata f)"
    "j < n \<Longrightarrow> elements (unat (esize f)) (2 ^ k) d2 ! ((off + j) mod 2 ^ k) = load (unat (esize f)) (j * unat (esize f)) (b1 @ b2)"
    "q < 2 ^ k \<Longrightarrow> (\<forall>j < n. q \<noteq> (off + j) mod 2 ^ k) \<Longrightarrow> elements (unat (esize f)) (2 ^ k) d2 ! q = slots k f ! q"
proof -
  let ?e = "unat (esize f)" and ?o = "off mod 2 ^ k" and ?s = "2 ^ k :: nat"
  have d: "length (fdata f) = ?s * ?e" using assms(1) by (simp add: ring_def)
  have o: "?o < ?s" by simp
  have "lo \<le> n" "lo \<le> ?s - ?o" by (simp_all add: assms(3))
  then have lo: "lo \<le> n" "?o + lo \<le> ?s" "n - lo \<le> ?s" using o assms(2) by linarith+
  show f1: "?o * ?e + length b1 \<le> length (fdata f)"
    using mult_le_mono1 [OF lo(2), of ?e] assms(4) d by (simp add: add_mult_distrib)
  then show ld1: "length d1 = length (fdata f)" by (simp add: d1_def)
  show f2: "length b2 \<le> length (fdata f)" using lo(3) assms(5) d by simp
  then show "length d2 = length (fdata f)" using ld1 by (simp add: d2_def)
  have el: "elements ?e ?s d2 ! q = (if q < n - lo then load ?e (q * ?e) b2
      else if ?o \<le> q \<and> q < ?o + lo then load ?e ((q - ?o) * ?e) b1 else slots k f ! q)" if "q < ?s" for q
    using elements_store [OF assms(5), of 0 ?s d1 q] elements_store [OF assms(4) lo(2) d that] ld1 d lo(3) that
    unfolding d2_def d1_def [symmetric] by simp
  have b1: "load ?e (j * ?e) (b1 @ b2) = load ?e (j * ?e) b1" if "j < lo" for j
    using block_le [OF that, of ?e] assms(4) by (simp add: load_def)
  have b2: "load ?e ((lo + j) * ?e) (b1 @ b2) = load ?e (j * ?e) b2" for j
    using assms(4) by (simp add: load_def add_mult_distrib)
  show "elements ?e ?s d2 ! ((off + j) mod ?s) = load ?e (j * ?e) (b1 @ b2)" if j: "j < n" for j
  proof (cases "?o + j < ?s")
    case True
    then have "(off + j) mod ?s = ?o + j" using mod_ring [of j ?s off] j assms(2) by simp
    moreover have "j < lo" "\<not> ?o + j < n - lo" using True j assms(2,3) by linarith+
    ultimately show ?thesis using el [of "?o + j"] True b1 by simp
  next
    case False
    have e: "(off + j) mod ?s = ?o + j - ?s" using mod_ring [of j ?s off] False j assms(2) by simp
    have l: "lo = ?s - ?o" using assms(3) False j by linarith
    then have "?o + j - ?s < n - lo" "lo + (?o + j - ?s) = j" "?o + j - ?s < ?s" using False j o assms(2) by linarith+
    then show ?thesis using el [of "?o + j - ?s"] b2 [of "?o + j - ?s"] unfolding e by simp
  qed
  show "elements ?e ?s d2 ! q = slots k f ! q" if "q < ?s" "\<forall>j < n. q \<noteq> (off + j) mod ?s" for q
  proof -
    have "\<not> (\<exists>j < n. q = (off + j) mod ?s)" using that(2) by blast
    then show ?thesis using el [OF that(1)] unfolding ring_slot_eq [OF that(1) assms(2)] assms(3) [symmetric] by auto
  qed
qed

lemma kfifo_copy_in_ring:
  assumes "ring k f" "unat len \<le> 2 ^ k" "unat len * unat (esize f) \<le> length src"
  shows "\<exists>d. kfifo_copy_in src len off f = Some (f\<lparr>fdata := d\<rparr>) \<and> length d = length (fdata f) \<and>
    (\<forall>j < unat len. elements (unat (esize f)) (2 ^ k) d ! ((unat off + j) mod 2 ^ k) = load (unat (esize f)) (j * unat (esize f)) src) \<and>
    (\<forall>q < 2 ^ k. (\<forall>j < unat len. q \<noteq> (unat off + j) mod 2 ^ k) \<longrightarrow> elements (unat (esize f)) (2 ^ k) d ! q = slots k f ! q)"
proof -
  let ?e = "unat (esize f)" and ?n = "unat len"
  define lo where "lo = min ?n (2 ^ k - unat off mod 2 ^ k)"
  obtain o' n l where sp: "kfifo_split f len off = (o', n, l)" "unat o' = unat off mod 2 ^ k * ?e" "unat n = ?n * ?e" "unat l = lo * ?e"
      "unat (n - l) = (?n - lo) * ?e"
    using kfifo_split_eq [OF assms(1,2), of off] unfolding lo_def by metis
  define b1 b2 where "b1 = load (lo * ?e) 0 src" and "b2 = load ((?n - lo) * ?e) (lo * ?e) src"
  have "lo \<le> ?n" by (simp add: lo_def)
  then have l: "lo * ?e + (?n - lo) * ?e = ?n * ?e" by (simp add: add_mult_distrib [symmetric])
  then have lb: "length b1 = lo * ?e" "length b2 = (?n - lo) * ?e" using assms(3) by (simp_all add: b1_def b2_def)
  note st = ring_store [OF assms(1,2) lo_def lb]
  have "b1 @ b2 = load (?n * ?e) 0 src" unfolding b1_def b2_def l [symmetric] load_append by simp
  then have el: "load ?e (j * ?e) (b1 @ b2) = load ?e (j * ?e) src" if "j < ?n" for j
    using block_le [OF that, of ?e] by (simp add: load_load)
  have "kfifo_copy_in src len off f = Some (f\<lparr>fdata := store 0 b2 (store (unat off mod 2 ^ k * ?e) b1 (fdata f))\<rparr>)"
    using assms(3) l lb st(1-3)
    by (simp add: kfifo_copy_in_def sp load_checked_def store_checked_def b1_def [symmetric] b2_def [symmetric])
  then show ?thesis using st(4-6) el by auto
qed

lemma kfifo_copy_out_ring:
  assumes "ring k f" "unat len \<le> 2 ^ k"
  shows "kfifo_copy_out len off f = Some (concat (map (\<lambda>j. slots k f ! ((unat off + j) mod 2 ^ k)) [0..<unat len]))"
proof -
  let ?e = "unat (esize f)" and ?o = "unat off mod 2 ^ k" and ?s = "2 ^ k :: nat" and ?n = "unat len"
  define lo where "lo = min ?n (?s - ?o)"
  obtain o' n l where sp: "kfifo_split f len off = (o', n, l)" "unat o' = ?o * ?e" "unat n = ?n * ?e" "unat l = lo * ?e"
      "unat (n - l) = (?n - lo) * ?e"
    using kfifo_split_eq [OF assms, of off] unfolding lo_def by metis
  have d: "length (fdata f) = ?s * ?e" using assms(1) by (simp add: ring_def)
  have o: "?o < ?s" by simp
  have "lo \<le> ?n" "lo \<le> ?s - ?o" by (simp_all add: lo_def)
  then have lo: "lo \<le> ?n" "?o + lo \<le> ?s" "?n - lo \<le> ?s" using o assms(2) by linarith+
  have "?o * ?e + lo * ?e \<le> ?s * ?e" "(?n - lo) * ?e \<le> ?s * ?e"
    using mult_le_mono1 [OF lo(2), of ?e] lo(3) by (simp_all add: add_mult_distrib)
  then have co: "kfifo_copy_out len off f = Some (load (lo * ?e) (?o * ?e) (fdata f) @ load ((?n - lo) * ?e) (0 * ?e) (fdata f))"
    by (simp add: kfifo_copy_out_def sp load_checked_def d)
  have 1: "map (\<lambda>k. load ?e (k * ?e) (fdata f)) [?o..<?o + lo] = map (\<lambda>j. slots k f ! ((unat off + j) mod ?s)) [0..<lo]"
  proof (rule nth_equalityI)
    fix j assume "j < length (map (\<lambda>k. load ?e (k * ?e) (fdata f)) [?o..<?o + lo])"
    then have j: "j < lo" by simp
    then have "(unat off + j) mod ?s = ?o + j" using lo(1,2) mod_ring [of j ?s "unat off"] assms(2) by simp
    then show "map (\<lambda>k. load ?e (k * ?e) (fdata f)) [?o..<?o + lo] ! j = map (\<lambda>j. slots k f ! ((unat off + j) mod ?s)) [0..<lo] ! j"
      using j lo(2) by (simp add: nth_elements)
  qed simp
  have 2: "map (\<lambda>k. load ?e (k * ?e) (fdata f)) [0..<?n - lo] = map (\<lambda>j. slots k f ! ((unat off + j) mod ?s)) [lo..<?n]"
  proof (rule nth_equalityI)
    fix j assume "j < length (map (\<lambda>k. load ?e (k * ?e) (fdata f)) [0..<?n - lo])"
    then have j: "j < ?n - lo" by simp
    then have l: "lo = ?s - ?o" unfolding lo_def by linarith
    have "lo + j \<le> ?s" "?o + (lo + j) = ?s + j" using l o j assms(2) by linarith+
    then have "(unat off + (lo + j)) mod ?s = j" using mod_ring [of "lo + j" ?s "unat off"] by simp
    then show "map (\<lambda>k. load ?e (k * ?e) (fdata f)) [0..<?n - lo] ! j = map (\<lambda>j. slots k f ! ((unat off + j) mod ?s)) [lo..<?n] ! j"
      using j lo(3) by (simp add: nth_elements)
  qed simp
  have "[0..<?n] = [0..<lo] @ [lo..<?n]" using lo(1) by (metis le_add_diff_inverse upt_add_eq_append zero_le)
  then show ?thesis unfolding co load_blocks using 1 2 by simp
qed

section \<open>The FIFO as a queue\<close>

definition kfifo_inv :: "nat \<Rightarrow> nat \<Rightarrow> kfifo \<Rightarrow> bool" where
  "kfifo_inv k e f \<longleftrightarrow> ring k f \<and> unat (esize f) = e \<and> unat (fin f - fout f) \<le> 2 ^ k"

text \<open>The elements in the FIFO, oldest first.\<close>

definition kfifo_cont :: "nat \<Rightarrow> kfifo \<Rightarrow> u8 list list" where
  "kfifo_cont k f = map (\<lambda>i. slots k f ! ((unat (fout f) + i) mod 2 ^ k)) [0..<unat (fin f - fout f)]"

lemma length_kfifo_cont [simp]: "length (kfifo_cont k f) = unat (fin f - fout f)"
  by (simp add: kfifo_cont_def)

lemma kfifo_inv_ring: "kfifo_inv k e f \<Longrightarrow> ring k f" "kfifo_inv k e f \<Longrightarrow> unat (esize f) = e" "kfifo_inv k e f \<Longrightarrow> k < 32"
  by (auto simp: kfifo_inv_def ring_def)

lemma in_position:
  assumes "k \<le> 32"
  shows "(unat (fin f) + j) mod 2 ^ k = (unat (fout f) + (unat (fin f - fout f) + j)) mod 2 ^ k"
proof -
  have "unat (fin f) mod 2 ^ k = (unat (fout f) + unat (fin f - fout f)) mod 2 ^ k"
    using unat_add_mod [OF assms, of "fout f" "fin f - fout f"] by simp
  then show ?thesis by (metis add.assoc mod_add_left_eq)
qed

lemma unused_eq:
  assumes "kfifo_inv k e f"
  shows "unat (kfifo_unused f) = 2 ^ k - length (kfifo_cont k f)"
  using assms ring_mask(1) [OF kfifo_inv_ring(1) [OF assms]]
  by (simp add: kfifo_unused_def kfifo_inv_def unat_sub word_le_nat_alt)

text \<open>Writing \<open>n\<close> elements behind the last one and advancing the index appends them, even if the write
  has touched \<open>m\<close> free slots.\<close>

lemma cont_append:
  assumes "kfifo_inv k e f" "length (kfifo_cont k f) + m \<le> 2 ^ k" "unat n \<le> m" "length d = length (fdata f)"
    "\<forall>j < unat n. elements e (2 ^ k) d ! ((unat (fin f) + j) mod 2 ^ k) = src j"
    "\<forall>q < 2 ^ k. (\<forall>j < m. q \<noteq> (unat (fin f) + j) mod 2 ^ k) \<longrightarrow> elements e (2 ^ k) d ! q = slots k f ! q"
  shows "kfifo_inv k e (f\<lparr>fdata := d, fin := fin f + n\<rparr>)"
    "kfifo_cont k (f\<lparr>fdata := d, fin := fin f + n\<rparr>) = kfifo_cont k f @ map src [0..<unat n]"
proof -
  let ?f = "f\<lparr>fdata := d, fin := fin f + n\<rparr>" and ?l = "unat (fin f - fout f)"
  note r = kfifo_inv_ring [OF assms(1)]
  have k: "k \<le> 32" using r(3) by simp
  have "(2 :: nat) ^ k \<le> 2 ^ 31" using r(3) by (intro power_increasing) auto
  then have "?l + unat n < 2 ^ 32" using assms(2,3) by simp
  then have len: "unat (fin f + n - fout f) = ?l + unat n"
    using unat_add_32 [of "fin f - fout f" n] by (simp add: algebra_simps)
  show "kfifo_inv k e ?f" using assms(1-4) len by (auto simp: kfifo_inv_def ring_def)
  have "kfifo_cont k ?f = map (\<lambda>i. elements e (2 ^ k) d ! ((unat (fout f) + i) mod 2 ^ k)) [0..<?l + unat n]"
    using r(2) len by (simp add: kfifo_cont_def)
  also have "\<dots> = kfifo_cont k f @ map src [0..<unat n]"
  proof (rule nth_equalityI)
    fix i assume "i < length (map (\<lambda>i. elements e (2 ^ k) d ! ((unat (fout f) + i) mod 2 ^ k)) [0..<?l + unat n])"
    then have i: "i < ?l + unat n" by simp
    show "map (\<lambda>i. elements e (2 ^ k) d ! ((unat (fout f) + i) mod 2 ^ k)) [0..<?l + unat n] ! i = (kfifo_cont k f @ map src [0..<unat n]) ! i"
    proof (cases "i < ?l")
      case True
      have "(unat (fout f) + i) mod 2 ^ k \<noteq> (unat (fin f) + j) mod 2 ^ k" if "j < m" for j
        unfolding in_position [OF k] using mod_add_inj [of "unat (fout f)" i "2 ^ k" "?l + j"] True that assms(2) by auto
      then show ?thesis using assms(6) i True by (simp add: nth_append) (simp add: kfifo_cont_def)
    next
      case False
      then obtain j where j: "i = ?l + j" "j < unat n" using i by (metis add_less_cancel_left le_Suc_ex not_less)
      then show ?thesis using assms(5) i by (simp add: nth_append in_position [OF k])
    qed
  qed simp
  finally show "kfifo_cont k ?f = kfifo_cont k f @ map src [0..<unat n]" .
qed

lemma kfifo_in_cont:
  assumes "kfifo_inv k e f" "unat len * e \<le> length buf"
  shows "\<exists>n f'. kfifo_in buf len f = Some (n, f') \<and> kfifo_inv k e f' \<and> unat n = min (unat len) (2 ^ k - length (kfifo_cont k f)) \<and>
    kfifo_cont k f' = kfifo_cont k f @ elements e (unat n) buf"
proof -
  define n where "n = (if len > kfifo_unused f then kfifo_unused f else len)"
  note r = kfifo_inv_ring [OF assms(1)]
  have n: "unat n = min (unat len) (2 ^ k - length (kfifo_cont k f))"
    using unused_eq [OF assms(1)] by (auto simp: n_def word_less_nat_alt min_def)
  have room: "length (kfifo_cont k f) + unat n \<le> 2 ^ k" using assms(1) unfolding n kfifo_inv_def by auto
  have "unat n * e \<le> unat len * e" unfolding n by (intro mult_le_mono1) simp
  then have "unat n * unat (esize f) \<le> length buf" unfolding r(2) using assms(2) by (rule order_trans)
  moreover have "unat n \<le> 2 ^ k" using room by simp
  ultimately obtain d where d: "kfifo_copy_in buf n (fin f) f = Some (f\<lparr>fdata := d\<rparr>)" "length d = length (fdata f)"
      "\<forall>j < unat n. elements e (2 ^ k) d ! ((unat (fin f) + j) mod 2 ^ k) = load e (j * e) buf"
      "\<forall>q < 2 ^ k. (\<forall>j < unat n. q \<noteq> (unat (fin f) + j) mod 2 ^ k) \<longrightarrow> elements e (2 ^ k) d ! q = slots k f ! q"
    using kfifo_copy_in_ring [OF r(1), of n buf "fin f", unfolded r(2)] r(2) by blast
  have "kfifo_in buf len f = Some (n, f\<lparr>fdata := d, fin := fin f + n\<rparr>)"
    using d(1) by (simp add: kfifo_in_def Let_def n_def [symmetric])
  then show ?thesis using cont_append [OF assms(1) room order_refl d(2-4)] n by (simp add: elements_def)
qed

text \<open>Advancing the other index drops elements.\<close>

lemma cont_advance:
  assumes "kfifo_inv k e f" "unat n \<le> length (kfifo_cont k f)"
  shows "kfifo_inv k e (f\<lparr>fout := fout f + n\<rparr>)" "kfifo_cont k (f\<lparr>fout := fout f + n\<rparr>) = drop (unat n) (kfifo_cont k f)"
proof -
  let ?l = "unat (fin f - fout f)" and ?f = "f\<lparr>fout := fout f + n\<rparr>"
  note r = kfifo_inv_ring [OF assms(1)]
  have len: "unat (fin f - (fout f + n)) = ?l - unat n"
    using assms(2) unat_sub [of n "fin f - fout f"] by (simp add: word_le_nat_alt algebra_simps)
  show "kfifo_inv k e ?f" using assms len by (auto simp: kfifo_inv_def ring_def)
  show "kfifo_cont k ?f = drop (unat n) (kfifo_cont k f)"
  proof (rule nth_equalityI)
    fix i assume "i < length (kfifo_cont k ?f)"
    then have i: "i < ?l - unat n" using len by simp
    have "(unat (fout f + n) + i) mod 2 ^ k = (unat (fout f) + (unat n + i)) mod 2 ^ k"
      by (subst mod_add_left_eq [symmetric], subst unat_add_mod) (use r(3) in \<open>simp_all add: mod_add_left_eq add.assoc\<close>)
    moreover have "unat n + i < ?l" using i by simp
    ultimately show "kfifo_cont k ?f ! i = drop (unat n) (kfifo_cont k f) ! i" using i len by (simp add: kfifo_cont_def)
  qed (simp add: len)
qed

lemma kfifo_out_cont:
  assumes "kfifo_inv k e f"
  shows "\<exists>n f'. kfifo_out len f = Some (n, concat (take (unat n) (kfifo_cont k f)), f') \<and> kfifo_inv k e f' \<and>
    unat n = min (unat len) (length (kfifo_cont k f)) \<and> kfifo_cont k f' = drop (unat n) (kfifo_cont k f)"
proof -
  let ?l = "unat (fin f - fout f)"
  define n where "n = (if len > fin f - fout f then fin f - fout f else len)"
  note r = kfifo_inv_ring [OF assms(1)]
  have n: "unat n = min (unat len) ?l" by (auto simp: n_def word_less_nat_alt min_def)
  have le: "unat n \<le> ?l" "unat n \<le> 2 ^ k" using assms n by (auto simp: kfifo_inv_def)
  have "kfifo_copy_out n (fout f) f = Some (concat (take (unat n) (kfifo_cont k f)))"
    using kfifo_copy_out_ring [OF r(1) le(2)] le(1) by (simp add: kfifo_cont_def take_map)
  then have "kfifo_out len f = Some (n, concat (take (unat n) (kfifo_cont k f)), f\<lparr>fout := fout f + n\<rparr>)"
    by (simp add: kfifo_out_def kfifo_out_peek_def Let_def n_def [symmetric])
  then show ?thesis using cont_advance [OF assms, of n] n le(1) by simp
qed

section \<open>A queue of elements as an interface\<close>

text \<open>What the users of \<^verbatim>\<open>kfifo_put\<close> and \<^verbatim>\<open>kfifo_get\<close> rely on: a queue of bounded capacity.\<close>

datatype 'a fifo_op = Put 'a | Get

text \<open>A run of operations: the elements that came out, those that were accepted, and the final state.\<close>

primrec fifo_run ::
  "('a \<Rightarrow> 'f \<Rightarrow> (bool \<times> 'f) option) \<Rightarrow> ('f \<Rightarrow> ('a option \<times> 'f) option) \<Rightarrow> 'a fifo_op list \<Rightarrow> 'f \<Rightarrow>
   ('a list \<times> 'a list \<times> 'f) option" where
  "fifo_run put get [] f = Some ([], [], f)"
| "fifo_run put get (x # xs) f =
     (case x of
        Put v \<Rightarrow> do { (ok, f) \<leftarrow> put v f; (outs, accs, f) \<leftarrow> fifo_run put get xs f; Some (outs, if ok then v # accs else accs, f) }
      | Get \<Rightarrow> do { (r, f) \<leftarrow> get f; (outs, accs, f) \<leftarrow> fifo_run put get xs f;
                    Some (case r of Some v \<Rightarrow> v # outs | None \<Rightarrow> outs, accs, f) })"

locale fifo_queue =
  fixes inv :: "'f \<Rightarrow> bool" and cont :: "'f \<Rightarrow> 'a list" and cap :: nat and ok :: "'a \<Rightarrow> bool"
    and put :: "'a \<Rightarrow> 'f \<Rightarrow> (bool \<times> 'f) option" and get :: "'f \<Rightarrow> ('a option \<times> 'f) option"
  assumes put: "inv f \<Longrightarrow> ok v \<Longrightarrow> \<exists>f'. put v f = Some (length (cont f) < cap, f') \<and> inv f' \<and>
      cont f' = (if length (cont f) < cap then cont f @ [v] else cont f)"
    and get: "inv f \<Longrightarrow> \<exists>f'. get f = Some (if cont f = [] then None else Some (hd (cont f)), f') \<and> inv f' \<and> cont f' = tl (cont f)"
begin

lemma run_fifo:
  assumes "inv f" "\<forall>v. Put v \<in> set ops \<longrightarrow> ok v"
  shows "\<exists>outs accs f'. fifo_run put get ops f = Some (outs, accs, f') \<and> inv f' \<and> outs @ cont f' = cont f @ accs"
  using assms
proof (induction ops arbitrary: f)
  case (Cons x ops)
  show ?case
  proof (cases x)
    case (Put v)
    then obtain f1 where f1: "put v f = Some (length (cont f) < cap, f1)" "inv f1"
        "cont f1 = (if length (cont f) < cap then cont f @ [v] else cont f)"
      using put [OF Cons.prems(1), of v] Cons.prems(2) by auto
    obtain outs accs f' where ih: "fifo_run put get ops f1 = Some (outs, accs, f')" "inv f'" "outs @ cont f' = cont f1 @ accs"
      using Cons.IH [OF f1(2)] Cons.prems(2) by auto
    have "fifo_run put get (x # ops) f = Some (outs, if length (cont f) < cap then v # accs else accs, f')"
      using Put f1(1) ih(1) by simp
    moreover have "outs @ cont f' = cont f @ (if length (cont f) < cap then v # accs else accs)" using ih(3) f1(3) by simp
    ultimately show ?thesis using ih(2) by blast
  next
    case Get
    obtain f1 where f1: "get f = Some (if cont f = [] then None else Some (hd (cont f)), f1)" "inv f1" "cont f1 = tl (cont f)"
      using get [OF Cons.prems(1)] by blast
    obtain outs accs f' where ih: "fifo_run put get ops f1 = Some (outs, accs, f')" "inv f'" "outs @ cont f' = cont f1 @ accs"
      using Cons.IH [OF f1(2)] Cons.prems(2) by auto
    show ?thesis
    proof (cases "cont f")
      case Nil
      then show ?thesis using Get f1 ih by simp
    next
      case (Cons v vs)
      then show ?thesis using Get f1 ih by simp
    qed
  qed
qed simp

lemma run_drains:
  assumes "inv f" "n = length (cont f)"
  shows "\<exists>f'. fifo_run put get (replicate n Get) f = Some (cont f, [], f') \<and> inv f' \<and> cont f' = []"
  using assms
proof (induction n arbitrary: f)
  case (Suc n)
  obtain f1 where f1: "get f = Some (if cont f = [] then None else Some (hd (cont f)), f1)" "inv f1" "cont f1 = tl (cont f)"
    using get [OF Suc.prems(1)] by blast
  have ne: "cont f = hd (cont f) # tl (cont f)" using Suc.prems(2) by (cases "cont f") auto
  obtain f' where "fifo_run put get (replicate n Get) f1 = Some (cont f1, [], f')" "inv f'" "cont f' = []"
    using Suc.IH [OF f1(2)] f1(3) Suc.prems(2) by (metis diff_Suc_1 length_tl)
  then show ?case using f1 ne by (auto split: if_splits)
qed simp

end

section \<open>The ring buffer implements the queue\<close>

lemma kfifo_is_full_iff:
  assumes "kfifo_inv k e f"
  shows "kfifo_is_full f \<longleftrightarrow> \<not> length (kfifo_cont k f) < 2 ^ k"
proof -
  have "0 < (2 :: nat) ^ k" by simp
  moreover have "unat (fmask f) = 2 ^ k - 1"
    using kfifo_inv_ring [OF assms] by (simp add: ring_def unat_mask_32)
  ultimately show ?thesis unfolding kfifo_is_full_def kfifo_len_def word_less_nat_alt length_kfifo_cont by linarith
qed

lemma kfifo_put_cont:
  assumes "kfifo_inv k e f" "length v = e"
  shows "\<exists>f'. kfifo_put v f = Some (length (kfifo_cont k f) < 2 ^ k, f') \<and> kfifo_inv k e f' \<and>
    kfifo_cont k f' = (if length (kfifo_cont k f) < 2 ^ k then kfifo_cont k f @ [v] else kfifo_cont k f)"
proof (cases "length (kfifo_cont k f) < 2 ^ k")
  case True
  note r = kfifo_inv_ring [OF assms(1)]
  let ?i = "unat (fin f) mod 2 ^ k"
  define d where "d = store (?i * e) v (fdata f)"
  have ld: "length (fdata f) = 2 ^ k * e" using r(1,2) by (simp add: ring_def)
  have i: "?i + 1 \<le> 2 ^ k" by (simp add: Suc_leI)
  have fit: "?i * e + length v \<le> length (fdata f)" using mult_le_mono1 [OF i, of e] assms(2) ld by simp
  have "kfifo_put v f = Some (True, f\<lparr>fdata := d, fin := fin f + 1\<rparr>)"
    using True kfifo_is_full_iff [OF assms(1)] fit r(2) by (simp add: kfifo_put_def store_checked_def ring_mask [OF r(1)] d_def)
  moreover have el: "elements e (2 ^ k) d ! q = (if q = ?i then v else slots k f ! q)" if "q < 2 ^ k" for q
    using elements_store [of v 1 e ?i "2 ^ k" "fdata f" q] assms(2) i ld that r(2) load_single [OF assms(2)]
    by (auto simp: d_def le_less_Suc_eq)
  moreover have "length d = length (fdata f)" using fit by (simp add: d_def)
  ultimately show ?thesis
    using True cont_append [OF assms(1), of 1 1 d "\<lambda>_. v"] by simp
next
  case False
  then show ?thesis using assms(1) kfifo_is_full_iff [OF assms(1)] by (simp add: kfifo_put_def)
qed

lemma kfifo_get_cont:
  assumes "kfifo_inv k e f"
  shows "\<exists>f'. kfifo_get f = Some (if kfifo_cont k f = [] then None else Some (hd (kfifo_cont k f)), f') \<and> kfifo_inv k e f' \<and>
    kfifo_cont k f' = tl (kfifo_cont k f)"
proof (cases "kfifo_is_empty f")
  case True
  then have "kfifo_cont k f = []" by (simp add: kfifo_cont_def kfifo_is_empty_def)
  then show ?thesis using True assms by (simp add: kfifo_get_def)
next
  case False
  note r = kfifo_inv_ring [OF assms(1)]
  let ?i = "unat (fout f) mod 2 ^ k"
  have "unat (fin f - fout f) \<noteq> 0" using False by (simp add: kfifo_is_empty_def unat_eq_zero)
  then have ne: "kfifo_cont k f \<noteq> []" "hd (kfifo_cont k f) = slots k f ! ?i"
    by (auto simp: kfifo_cont_def hd_map hd_upt)
  have ld: "length (fdata f) = 2 ^ k * e" using r(1,2) by (simp add: ring_def)
  have i: "?i + 1 \<le> 2 ^ k" by (simp add: Suc_leI)
  have fit: "?i * e + e \<le> length (fdata f)" using mult_le_mono1 [OF i, of e] ld by simp
  have g: "kfifo_get f = Some (Some (hd (kfifo_cont k f)), f\<lparr>fout := fout f + 1\<rparr>)"
    using False fit ne(2) r(2) by (simp add: kfifo_get_def load_checked_def ring_mask [OF r(1)] nth_elements)
  obtain n f' where o: "kfifo_out 1 f = Some (n, concat (take (unat n) (kfifo_cont k f)), f')" "kfifo_inv k e f'"
      "unat n = min (unat (1 :: u32)) (length (kfifo_cont k f))" "kfifo_cont k f' = drop (unat n) (kfifo_cont k f)"
    using kfifo_out_cont [OF assms, of 1] by blast
  have "length (kfifo_cont k f) \<noteq> 0" using ne(1) by (simp del: length_kfifo_cont)
  then have n: "unat n = 1" using o(3) unfolding unat_1 by linarith
  then have "n = 1" by (metis unat_1 word_unat_eq_iff)
  then have "f' = f\<lparr>fout := fout f + 1\<rparr>"
    using o(1) by (auto simp: kfifo_out_def kfifo_out_peek_def Let_def bind_eq_Some_conv)
  then show ?thesis using g o(2,4) n ne(1) by (simp add: drop_Suc)
qed

interpretation kf: fifo_queue "kfifo_inv k e" "kfifo_cont k" "2 ^ k" "\<lambda>v. length v = e" kfifo_put kfifo_get for k e
  by unfold_locales (erule (1) kfifo_put_cont, erule kfifo_get_cont)

end
