(* ===== verification/Kfifo_Records.thy ===== *)
theory Kfifo_Records
  imports Kfifo
begin

text \<open>
  Facts on the FIFO of records of variable length, on copies from and to user space that may
  stop early, and on the set-up functions of \<^verbatim>\<open>lib/kfifo.c\<close>, and the properties of the FIFO.
\<close>

section \<open>Lemmas: records\<close>

text \<open>The length field of a record and the bytes of a sequence of records.\<close>

definition length_field :: "nat \<Rightarrow> nat \<Rightarrow> u8 list" where
  "length_field recsize n = (if recsize = 1 then [of_nat n] else [of_nat n, of_nat (n div 256)])"

definition encode :: "nat \<Rightarrow> u8 list list \<Rightarrow> u8 list" where
  "encode recsize rs = concat (map (\<lambda>r. length_field recsize (length r) @ r) rs)"

definition kfifo_bytes :: "nat \<Rightarrow> kfifo \<Rightarrow> u8 list" where
  "kfifo_bytes k f = concat (kfifo_cont k f)"

definition rec_queue :: "nat \<Rightarrow> nat \<Rightarrow> kfifo \<Rightarrow> u8 list list \<Rightarrow> bool" where
  "rec_queue k recsize f rs \<longleftrightarrow> kfifo_inv k 1 f \<and> kfifo_bytes k f = encode recsize rs \<and> (\<forall>r \<in> set rs. length r < 256 ^ recsize)"

lemma length_length_field: "recsize = 1 \<or> recsize = 2 \<Longrightarrow> length (length_field recsize n) = recsize"
  by (auto simp: length_field_def)

lemma slots_byte:
  assumes "ring k f" "unat (esize f) = 1" "q < 2 ^ k"
  shows "slots k f ! q = [fdata f ! q]"
  using assms by (simp add: nth_elements ring_def load_def take_Suc_conv_app_nth hd_drop_conv_nth take_Suc)

lemma bytes_eq:
  assumes "kfifo_inv k 1 f"
  shows "kfifo_bytes k f = map (\<lambda>i. fdata f ! ((unat (fout f) + i) mod 2 ^ k)) [0..<unat (fin f - fout f)]"
proof -
  note r = kfifo_inv_ring [OF assms]
  have "kfifo_cont k f = map (\<lambda>i. [fdata f ! ((unat (fout f) + i) mod 2 ^ k)]) [0..<unat (fin f - fout f)]"
    using slots_byte [OF r(1,2)] by (simp add: kfifo_cont_def)
  then show ?thesis unfolding kfifo_bytes_def by (simp add: concat_map_singleton)
qed

lemma length_kfifo_bytes: "kfifo_inv k 1 f \<Longrightarrow> length (kfifo_bytes k f) = unat (fin f - fout f)"
  by (simp add: bytes_eq)

lemma bytes_position:
  assumes "kfifo_inv k 1 f" "i < unat (fin f - fout f)"
  shows "fdata f ! ((unat (fout f) + i) mod 2 ^ k) = kfifo_bytes k f ! i"
  using assms by (simp add: bytes_eq)

lemma unat_and_mask_add:
  assumes "ring k f" "n < 2 ^ 32"
  shows "unat ((x + of_nat n) AND fmask f) = (unat x + n) mod 2 ^ k"
  using assms unat_add_mod [of k x "of_nat n"] by (simp add: ring_mask(2) unat_of_nat_32) (simp add: ring_def)

text \<open>The two bytes of a length.\<close>

lemma two_bytes:
  fixes a b :: u8
  shows "unat (ucast a OR push_bit 8 (ucast b) :: u32) = unat a + 256 * unat b"
proof -
  have "ucast a OR push_bit 8 (ucast b) = (ucast a + push_bit 8 (ucast b) :: u32)"
    by (rule disjunctive_add [symmetric]) (auto simp: bit_push_bit_iff bit_ucast_iff dest: bit_imp_le_length)
  moreover have "unat a < 256" "unat b < 256" using unsigned_less [of a] unsigned_less [of b] by simp_all
  ultimately show ?thesis by (simp add: push_bit_eq_mult unat_add_32 unat_mult_32 unat_ucast_8)
qed

lemma peek_length:
  assumes "kfifo_inv k 1 f" "recsize = 1 \<or> recsize = 2" "kfifo_bytes k f = length_field recsize n @ rest" "n < 256 ^ recsize"
  shows "unat (kfifo_peek_n f recsize) = n"
proof -
  note r = kfifo_inv_ring [OF assms(1)]
  have len: "unat (fin f - fout f) = recsize + length rest"
    using assms(1,2,3) length_kfifo_bytes [OF assms(1)] length_length_field by simp
  have p: "KFIFO_PEEK (fdata f) (fout f + of_nat i) (fmask f) = kfifo_bytes k f ! i" if "i < recsize" for i
    using bytes_position [OF assms(1), of i] that len assms(2) unat_and_mask_add [OF r(1), of i] by (auto simp: KFIFO_PEEK_def)
  show ?thesis
  proof (cases "recsize = 1")
    case True
    then have "unat (kfifo_peek_n f recsize) = unat (of_nat n :: u8)"
      using p [of 0] assms(3) by (simp add: kfifo_peek_n_def Let_def length_field_def unat_ucast_8)
    then show ?thesis using True assms(4) by (simp add: unsigned_of_nat take_bit_nat_eq_self)
  next
    case False
    then have two: "recsize = 2" using assms(2) by simp
    then have "unat (kfifo_peek_n f recsize) = unat (of_nat n :: u8) + 256 * unat (of_nat (n div 256) :: u8)"
      using p [of 0] p [of 1] assms(3) by (simp add: kfifo_peek_n_def Let_def length_field_def two_bytes)
    also have "\<dots> = n" using two assms(4) by (simp add: unsigned_of_nat take_bit_eq_mod)
    finally show ?thesis .
  qed
qed

lemma elements_bytes: "q < n \<Longrightarrow> length d = n \<Longrightarrow> elements 1 n d ! q = [d ! q]"
  by (simp add: nth_elements load_def take_Suc hd_drop_conv_nth)

lemma poke_length:
  fixes len f
  assumes "kfifo_inv k 1 f" "recsize = 1 \<or> recsize = 2" "recsize \<le> 2 ^ k"
  defines "d \<equiv> fdata (kfifo_poke_n len recsize f)"
  shows "kfifo_poke_n len recsize f = f\<lparr>fdata := d\<rparr>" "length d = length (fdata f)"
    "i < recsize \<Longrightarrow> d ! ((unat (fin f) + i) mod 2 ^ k) = length_field recsize (unat len) ! i"
    "(\<forall>i < recsize. q \<noteq> (unat (fin f) + i) mod 2 ^ k) \<Longrightarrow> d ! q = fdata f ! q"
proof -
  note r = kfifo_inv_ring [OF assms(1)]
  let ?p = "\<lambda>i. (unat (fin f) + i) mod 2 ^ k"
  have p0: "unat (fin f AND fmask f) = ?p 0" using unat_and_mask_add [OF r(1), of 0 "fin f"] by simp
  have p1: "unat ((fin f + 1) AND fmask f) = ?p 1" using unat_and_mask_add [OF r(1), of 1 "fin f"] by simp
  have d: "d = (if recsize = 1 then (fdata f)[?p 0 := ucast len] else (fdata f)[?p 0 := ucast len, ?p 1 := ucast (drop_bit 8 len)])"
    using assms(2) unfolding d_def kfifo_poke_n_def KFIFO_POKE_def Let_def p0 p1 by auto
  have len: "length (fdata f) = 2 ^ k" using r by (simp add: ring_def)
  have lt: "?p i < length (fdata f)" for i by (simp add: len)
  have ne: "?p 0 \<noteq> ?p 1" if "recsize = 2" using mod_add_inj [of "unat (fin f)" 0 "2 ^ k" 1] that assms(3) by auto
  show "kfifo_poke_n len recsize f = f\<lparr>fdata := d\<rparr>" by (simp add: d_def kfifo_poke_n_def Let_def)
  show "length d = length (fdata f)" by (simp add: d)
  have u: "ucast len = (of_nat (unat len) :: u8)" "ucast (drop_bit 8 len) = (of_nat (unat len div 256) :: u8)"
    by (simp_all add: of_nat_unat unat_drop_bit_32 [symmetric, where k = 8, simplified])
  show "d ! ?p i = length_field recsize (unat len) ! i" if "i < recsize"
  proof (cases "recsize = 1")
    case True
    then show ?thesis using that lt [of 0] u by (simp add: d length_field_def)
  next
    case False
    then have "recsize = 2" "i = 0 \<or> i = 1" using assms(2) that by auto
    then show ?thesis using ne lt [of 0] lt [of 1] u by (auto simp: d length_field_def)
  qed
  show "d ! q = fdata f ! q" if "\<forall>i < recsize. q \<noteq> ?p i"
  proof -
    have "0 < recsize" "recsize = 2 \<Longrightarrow> 1 < recsize" using assms(2) by auto
    then have "q \<noteq> ?p 0" "recsize = 2 \<Longrightarrow> q \<noteq> ?p 1" using that by blast+
    then show ?thesis using assms(2) by (auto simp: d)
  qed
qed

lemma kfifo_in_r_bytes:
  assumes "kfifo_inv k 1 f" "recsize = 1 \<or> recsize = 2" "unat len \<le> length buf" "unat len + recsize < 2 ^ 32"
  shows "\<exists>f'. kfifo_in_r buf len recsize f = Some (if unat len + recsize \<le> 2 ^ k - length (kfifo_bytes k f) then len else 0, f') \<and>
    kfifo_inv k 1 f' \<and> kfifo_bytes k f' =
      (if unat len + recsize \<le> 2 ^ k - length (kfifo_bytes k f)
       then kfifo_bytes k f @ length_field recsize (unat len) @ take (unat len) buf else kfifo_bytes k f)"
proof -
  note r = kfifo_inv_ring [OF assms(1)]
  have nr: "unat (of_nat recsize :: u32) = recsize" using assms(2) by auto
  have n: "unat (len + of_nat recsize) = unat len + recsize" using assms(4) by (simp add: unat_add_32 nr)
  have room: "len + of_nat recsize > kfifo_unused f \<longleftrightarrow> \<not> unat len + recsize \<le> 2 ^ k - length (kfifo_bytes k f)"
    using unused_eq [OF assms(1)] length_kfifo_bytes [OF assms(1)] by (simp add: word_less_nat_alt n not_le)
  show ?thesis
  proof (cases "len + of_nat recsize > kfifo_unused f")
    case True
    then show ?thesis using assms(1) room by (auto simp: kfifo_in_r_def)
  next
    case False
    then have fits: "unat len + recsize \<le> 2 ^ k - length (kfifo_bytes k f)" using room by simp
    then have R: "recsize \<le> 2 ^ k" "unat len \<le> 2 ^ k" by simp_all
    define f1 where "f1 = kfifo_poke_n len recsize f"
    define d1 where "d1 = fdata f1"
    note pk = poke_length [OF assms(1,2) R(1), where len = len, folded f1_def, folded d1_def]
    have r1: "ring k f1" "unat (esize f1) = 1" "fin f1 = fin f" using r pk(1,2) by (simp_all add: ring_def)
    obtain d where d: "kfifo_copy_in buf len (fin f + of_nat recsize) f1 = Some (f1\<lparr>fdata := d\<rparr>)" "length d = length d1"
      "\<forall>j < unat len. elements 1 (2 ^ k) d ! ((unat (fin f + of_nat recsize) + j) mod 2 ^ k) = load 1 (j * 1) buf"
      "\<forall>q < 2 ^ k. (\<forall>j < unat len. q \<noteq> (unat (fin f + of_nat recsize) + j) mod 2 ^ k) \<longrightarrow> elements 1 (2 ^ k) d ! q = slots k f1 ! q"
      using kfifo_copy_in_ring [OF r1(1) R(2), of buf "fin f + of_nat recsize"] assms(3) unfolding r1(2) d1_def by auto
    have pos: "(unat (fin f + of_nat recsize) + j) mod 2 ^ k = (unat (fin f) + (recsize + j)) mod 2 ^ k" for j
      by (subst mod_add_left_eq [symmetric], subst unat_add_mod) (use r(3) in \<open>simp_all add: nr mod_add_left_eq add.assoc\<close>)
    have ld: "length (fdata f) = 2 ^ k" using r by (simp add: ring_def)
    have s1: "slots k f1 ! q = [d1 ! q]" if "q < 2 ^ k" for q unfolding d1_def by (rule slots_byte [OF r1(1,2) that])
    define src where "src j = [if j < recsize then length_field recsize (unat len) ! j else buf ! (j - recsize)]" for j
    have a: "elements 1 (2 ^ k) d ! ((unat (fin f) + j) mod 2 ^ k) = src j" if j: "j < unat (len + of_nat recsize)" for j
    proof (cases "j < recsize")
      case True
      have "(unat (fin f) + j) mod 2 ^ k \<noteq> (unat (fin f) + (recsize + i)) mod 2 ^ k" if "i < unat len" for i
      proof -
        have "recsize + i < 2 ^ k" using that fits by linarith
        then show ?thesis using mod_add_inj [of "unat (fin f)" j "2 ^ k" "recsize + i"] True by auto
      qed
      then show ?thesis using d(4) s1 pk(3) [OF True] True unfolding pos by (simp add: src_def)
    next
      case False
      then have "j - recsize < unat len" "recsize + (j - recsize) = j" using j n by auto
      then show ?thesis using d(3) False assms(3) unfolding pos
        by (auto simp: src_def load_def take_Suc hd_drop_conv_nth)
    qed
    have b: "elements 1 (2 ^ k) d ! q = slots k f ! q"
      if q: "q < 2 ^ k" "\<forall>j < unat (len + of_nat recsize). q \<noteq> (unat (fin f) + j) mod 2 ^ k" for q
    proof -
      have "q \<noteq> (unat (fin f) + i) mod 2 ^ k" if "i < recsize" for i using q(2) that n by auto
      then have "d1 ! q = fdata f ! q" using pk(4) by blast
      moreover have "elements 1 (2 ^ k) d ! q = [d1 ! q]" using d(4) q s1 n unfolding pos by auto
      ultimately show ?thesis using slots_byte [OF r(1,2) q(1)] by simp
    qed
    have "length (kfifo_cont k f) + unat (len + of_nat recsize) \<le> 2 ^ k"
      using fits n length_kfifo_bytes [OF assms(1)] assms(1) by (auto simp: kfifo_inv_def)
    from cont_append [OF assms(1) this order_refl, of d src] a b d(2) pk(2)
    have c: "kfifo_inv k 1 (f\<lparr>fdata := d, fin := fin f + (len + of_nat recsize)\<rparr>)"
      "kfifo_cont k (f\<lparr>fdata := d, fin := fin f + (len + of_nat recsize)\<rparr>) = kfifo_cont k f @ map src [0..<unat len + recsize]"
      unfolding n by auto
    have "concat (map src [0..<unat len + recsize]) = length_field recsize (unat len) @ take (unat len) buf"
      using assms(3) length_length_field [OF assms(2), of "unat len"] unfolding src_def concat_map_singleton
      by (intro nth_equalityI) (auto simp: nth_append)
    moreover have "kfifo_in_r buf len recsize f = Some (len, f\<lparr>fdata := d, fin := fin f + (len + of_nat recsize)\<rparr>)"
      using False d(1) pk(1) r1(3) by (simp add: kfifo_in_r_def Let_def f1_def [symmetric])
    ultimately show ?thesis using c fits by (simp add: kfifo_bytes_def)
  qed
qed

lemma kfifo_out_r_bytes:
  assumes "kfifo_inv k 1 f" "recsize = 1 \<or> recsize = 2" "length rec < 256 ^ recsize"
    "kfifo_bytes k f = length_field recsize (length rec) @ rec @ rest"
  shows "\<exists>n f'. kfifo_out_r len recsize f = Some (n, take (unat len) rec, f') \<and> unat n = min (unat len) (length rec) \<and>
    kfifo_inv k 1 f' \<and> kfifo_bytes k f' = rest"
proof -
  note r = kfifo_inv_ring [OF assms(1)]
  define m where "m = kfifo_peek_n f recsize"
  have m: "unat m = length rec" unfolding m_def by (rule peek_length [OF assms(1,2,4,3)])
  have nr: "unat (of_nat recsize :: u32) = recsize" using assms(2) by auto
  define n where "n = (if len > m then m else len)"
  have n: "unat n = min (unat len) (length rec)" by (auto simp: n_def word_less_nat_alt m min_def)
  have tot: "unat (fin f - fout f) = recsize + length rec + length rest"
    using length_kfifo_bytes [OF assms(1)] assms(4) length_length_field [OF assms(2)] by simp
  have le: "recsize + length rec \<le> 2 ^ k" using tot assms(1) by (auto simp: kfifo_inv_def)
  have ne: "fin f \<noteq> fout f" using tot assms(2) by auto
  have pos: "(unat (fout f + of_nat recsize) + j) mod 2 ^ k = (unat (fout f) + (recsize + j)) mod 2 ^ k" for j
    by (subst mod_add_left_eq [symmetric], subst unat_add_mod) (use r(3) in \<open>simp_all add: nr mod_add_left_eq add.assoc\<close>)
  have "kfifo_copy_out n (fout f + of_nat recsize) f = Some (concat (map (\<lambda>j. [rec ! j]) [0..<unat n]))"
  proof -
    have "slots k f ! ((unat (fout f) + (recsize + j)) mod 2 ^ k) = [rec ! j]" if "j < unat n" for j
      using bytes_position [OF assms(1), of "recsize + j"] slots_byte [OF r(1,2)] that n tot assms(4) length_length_field [OF assms(2)]
      by (simp add: nth_append)
    then have eq: "map (\<lambda>j. slots k f ! ((unat (fout f) + (recsize + j)) mod 2 ^ k)) [0..<unat n] = map (\<lambda>j. [rec ! j]) [0..<unat n]" by simp
    have "unat n \<le> 2 ^ k" using n le by linarith
    from kfifo_copy_out_ring [OF r(1) this, of "fout f + of_nat recsize"] show ?thesis unfolding pos eq .
  qed
  moreover have "concat (map (\<lambda>j. [rec ! j]) [0..<unat n]) = take (unat len) rec"
    unfolding concat_map_singleton using n by (intro nth_equalityI) auto
  ultimately have out: "kfifo_out_r len recsize f = Some (n, take (unat len) rec, f\<lparr>fout := fout f + (m + of_nat recsize)\<rparr>)"
    using ne by (simp add: kfifo_out_r_def kfifo_out_copy_r_def Let_def m_def [symmetric] n_def [symmetric])
  have "unat m + recsize < 2 ^ 32" using m tot unat_less_32 [of "fin f - fout f"] by linarith
  then have adv: "unat (m + of_nat recsize) = recsize + length rec" by (simp add: unat_add_32 nr m)
  have c: "kfifo_inv k 1 (f\<lparr>fout := fout f + (m + of_nat recsize)\<rparr>)"
    "kfifo_cont k (f\<lparr>fout := fout f + (m + of_nat recsize)\<rparr>) = drop (recsize + length rec) (kfifo_cont k f)"
    using cont_advance [OF assms(1), of "m + of_nat recsize"] adv tot by simp_all
  have "kfifo_bytes k (f\<lparr>fout := fout f + (m + of_nat recsize)\<rparr>) = drop (recsize + length rec) (kfifo_bytes k f)"
  proof -
    have "kfifo_bytes k (f\<lparr>fout := fout f + (m + of_nat recsize)\<rparr>) = concat (drop (recsize + length rec) (kfifo_cont k f))"
      unfolding kfifo_bytes_def c(2) ..
    also have "kfifo_cont k f = map (\<lambda>x. [x]) (kfifo_bytes k f)"
      unfolding bytes_eq [OF assms(1)] using slots_byte [OF r(1,2)] by (simp add: kfifo_cont_def)
    finally show ?thesis unfolding drop_map by simp
  qed
  also have "\<dots> = rest" using assms(4) length_length_field [OF assms(2)] by simp
  finally show ?thesis using out n c(1) by blast
qed

section \<open>Lemmas: copies from user space\<close>








section \<open>Lemmas: copies to user space\<close>




section \<open>Lemmas: set-up\<close>




section \<open>Properties\<close>



text \<open>C17: the FIFO is a bounded queue of elements: \<^verbatim>\<open>__kfifo_in\<close> appends as many of the given elements as there is
  room for, \<^verbatim>\<open>__kfifo_out\<close> removes the oldest elements, as many as were asked for or are there; neither accesses memory outside the
  buffer, whatever the values of the two free-running indices.\<close>

theorem kfifo_refines_queue:
  assumes "kfifo_inv k e f" "unat len * e \<le> length buf"
  shows "(\<exists>n f'. kfifo_in buf len f = Some (n, f') \<and> kfifo_inv k e f' \<and> unat n = min (unat len) (2 ^ k - length (kfifo_cont k f)) \<and>
      kfifo_cont k f' = kfifo_cont k f @ elements e (unat n) buf) \<and>
    (\<exists>n f'. kfifo_out len f = Some (n, concat (take (unat n) (kfifo_cont k f)), f') \<and> kfifo_inv k e f' \<and>
      unat n = min (unat len) (length (kfifo_cont k f)) \<and> kfifo_cont k f' = drop (unat n) (kfifo_cont k f))"
  using kfifo_in_cont [OF assms] kfifo_out_cont [OF assms(1)] by blast

theorem kfifo_refines_queue_witness:
  "\<exists>n f'. kfifo_in [1, 2, 3, 4, 5, 6] 3 \<lparr>fin = 1, fout = 0xffffffff, fmask = 3, esize = 2, fdata = [9, 9, 0, 0, 0, 0, 8, 8]\<rparr> = Some (n, f') \<and>
     unat n = 2 \<and> kfifo_cont 2 f' = [[8, 8], [9, 9], [1, 2], [3, 4]]"
proof -
  let ?f = "\<lparr>fin = 1, fout = 0xffffffff, fmask = 3, esize = 2, fdata = [9, 9, 0, 0, 0, 0, 8, 8]\<rparr>"
  have "kfifo_inv 2 2 ?f" by (simp add: kfifo_inv_def ring_def mask_eq_exp_minus_1)
  moreover have "kfifo_cont 2 ?f = [[8, 8], [9, 9]]" by (simp add: kfifo_cont_def elements_def load_def upt_rec)
  moreover have "elements 2 2 [1, 2, 3, 4, 5, 6] = ([[1, 2], [3, 4]] :: u8 list list)" by code_simp
  ultimately show ?thesis using kfifo_refines_queue [of 2 2 ?f 3 "[1, 2, 3, 4, 5, 6]"] by auto
qed

text \<open>C18: every sequence of \<^verbatim>\<open>kfifo_put\<close> and \<^verbatim>\<open>kfifo_get\<close> runs to its end and is first in, first out: the elements that
  came out, followed by those still inside, are those that were inside at the start followed by the accepted ones. As many \<^verbatim>\<open>kfifo_get\<close>
  as there are elements inside then return all of them, and leave the FIFO empty.\<close>

theorem kfifo_first_in_first_out:
  assumes "kfifo_inv k e f" "\<forall>v. Put v \<in> set ops \<longrightarrow> length v = e"
  shows "\<exists>outs accs f' f''. fifo_run kfifo_put kfifo_get ops f = Some (outs, accs, f') \<and> outs @ kfifo_cont k f' = kfifo_cont k f @ accs \<and>
    fifo_run kfifo_put kfifo_get (replicate (length (kfifo_cont k f')) Get) f' = Some (kfifo_cont k f', [], f'') \<and> kfifo_is_empty f''"
proof -
  obtain outs accs f' where run: "fifo_run kfifo_put kfifo_get ops f = Some (outs, accs, f')" "kfifo_inv k e f'"
      "outs @ kfifo_cont k f' = kfifo_cont k f @ accs"
    using kf.run_fifo [OF assms] by blast
  obtain f'' where "fifo_run kfifo_put kfifo_get (replicate (length (kfifo_cont k f')) Get) f' = Some (kfifo_cont k f', [], f'')" "kfifo_cont k f'' = []"
    using kf.run_drains [OF run(2) refl] by blast
  moreover from this(2) have "length (kfifo_cont k f'') = 0" by simp
  then have "kfifo_is_empty f''" unfolding length_kfifo_cont kfifo_is_empty_def by (simp add: unat_eq_zero)
  ultimately show ?thesis using run(1,3) by blast
qed

theorem kfifo_first_in_first_out_witness:
  "\<exists>outs accs f'. fifo_run kfifo_put kfifo_get [Put [1], Put [2], Get, Put [3], Put [4]] \<lparr>fin = 0xffffffff, fout = 0xffffffff, fmask = 1, esize = 1, fdata = [0, 0]\<rparr> =
     Some (outs, accs, f') \<and> outs @ kfifo_cont 1 f' = accs"
proof -
  let ?f = "\<lparr>fin = 0xffffffff, fout = 0xffffffff, fmask = 1, esize = 1, fdata = [0, 0]\<rparr> :: kfifo"
  have "kfifo_inv 1 1 ?f" "kfifo_cont 1 ?f = []" by (simp_all add: kfifo_inv_def ring_def mask_eq_exp_minus_1 kfifo_cont_def)
  then show ?thesis using kfifo_first_in_first_out [of 1 1 ?f "[Put [1], Put [2], Get, Put [3], Put [4]]"] by auto
qed

text \<open>C19: a FIFO of records is a queue of byte strings: \<^verbatim>\<open>__kfifo_in_r\<close> appends a record that is not longer than its
  length field can say if there is room for it and its length field, and nothing otherwise; \<^verbatim>\<open>__kfifo_out_r\<close> removes the oldest record
  and returns its first bytes.\<close>

theorem kfifo_record_queue:
  assumes "rec_queue k recsize f rs" "recsize = 1 \<or> recsize = 2" "unat len \<le> length buf" "unat len < 256 ^ recsize"
  shows "(\<exists>f'. kfifo_in_r buf len recsize f =
        Some (if unat len + recsize \<le> 2 ^ k - length (encode recsize rs) then len else 0, f') \<and>
      rec_queue k recsize f' (if unat len + recsize \<le> 2 ^ k - length (encode recsize rs) then rs @ [take (unat len) buf] else rs)) \<and>
    (\<exists>n f'. kfifo_out_r len recsize f = Some (n, if rs = [] then [] else take (unat len) (hd rs), f') \<and>
      unat n = (if rs = [] then 0 else min (unat len) (length (hd rs))) \<and> rec_queue k recsize f' (tl rs))"
proof
  have i: "kfifo_inv k 1 f" "kfifo_bytes k f = encode recsize rs" "\<forall>r \<in> set rs. length r < 256 ^ recsize"
    using assms(1) by (simp_all add: rec_queue_def)
  have "unat len + recsize < 2 ^ 32" using assms(2,4) by auto
  from kfifo_in_r_bytes [OF i(1) assms(2,3) this]
  show "\<exists>f'. kfifo_in_r buf len recsize f =
        Some (if unat len + recsize \<le> 2 ^ k - length (encode recsize rs) then len else 0, f') \<and>
      rec_queue k recsize f' (if unat len + recsize \<le> 2 ^ k - length (encode recsize rs) then rs @ [take (unat len) buf] else rs)"
    using i assms(3,4) unfolding i(2) by (auto simp: rec_queue_def encode_def min_def)
  show "\<exists>n f'. kfifo_out_r len recsize f = Some (n, if rs = [] then [] else take (unat len) (hd rs), f') \<and>
      unat n = (if rs = [] then 0 else min (unat len) (length (hd rs))) \<and> rec_queue k recsize f' (tl rs)"
  proof (cases rs)
    case Nil
    then have "length (kfifo_bytes k f) = 0" using i(2) by (simp add: encode_def)
    then have "fin f = fout f" using length_kfifo_bytes [OF i(1)] by (simp add: unat_eq_zero)
    then show ?thesis using Nil assms(1) by (simp add: kfifo_out_r_def)
  next
    case (Cons r rest)
    then have "length r < 256 ^ recsize" "kfifo_bytes k f = length_field recsize (length r) @ r @ encode recsize rest"
      using i by (simp_all add: encode_def)
    from kfifo_out_r_bytes [OF i(1) assms(2) this, of len] show ?thesis using Cons i(3) by (auto simp: rec_queue_def)
  qed
qed

theorem kfifo_record_queue_witness:
  "\<exists>n f'. kfifo_out_r 1 1 \<lparr>fin = 3, fout = 0, fmask = 3, esize = 1, fdata = [2, 7, 8, 0]\<rparr> = Some (n, [7], f') \<and> rec_queue 2 1 f' []"
proof -
  let ?f = "\<lparr>fin = 3, fout = 0, fmask = 3, esize = 1, fdata = [2, 7, 8, 0]\<rparr> :: kfifo"
  have "rec_queue 2 1 ?f [[7, 8]]"
    by (simp add: rec_queue_def kfifo_inv_def ring_def mask_eq_exp_minus_1 kfifo_bytes_def kfifo_cont_def elements_def load_def encode_def
        length_field_def upt_rec)
  from kfifo_record_queue [OF this, of 1 "[0]"] show ?thesis by auto
qed





end
