(* ===== verification/Ctype.thy ===== *)
theory Ctype
  imports Kernel_Prelude
begin

text \<open>
  The character classes of \<^verbatim>\<open>lib/ctype.c\<close> and \<^verbatim>\<open>include/linux/ctype.h\<close>: the table of 256 flag bytes
  and the tests and conversions on it. Characters are bytes (\<^verbatim>\<open>char\<close> is unsigned on ARM).
\<close>

section \<open>Definitions\<close>

definition CT_U :: u8 where "CT_U = 0x01"
definition CT_L :: u8 where "CT_L = 0x02"
definition CT_D :: u8 where "CT_D = 0x04"
definition CT_C :: u8 where "CT_C = 0x08"
definition CT_P :: u8 where "CT_P = 0x10"
definition CT_S :: u8 where "CT_S = 0x20"
definition CT_X :: u8 where "CT_X = 0x40"
definition CT_SP :: u8 where "CT_SP = 0x80"

definition ctype_table :: "u8 list" where
  "ctype_table = [
    CT_C, CT_C, CT_C, CT_C, CT_C, CT_C, CT_C, CT_C,
    CT_C, CT_C OR CT_S, CT_C OR CT_S, CT_C OR CT_S, CT_C OR CT_S, CT_C OR CT_S, CT_C, CT_C,
    CT_C, CT_C, CT_C, CT_C, CT_C, CT_C, CT_C, CT_C,
    CT_C, CT_C, CT_C, CT_C, CT_C, CT_C, CT_C, CT_C,
    CT_S OR CT_SP, CT_P, CT_P, CT_P, CT_P, CT_P, CT_P, CT_P,
    CT_P, CT_P, CT_P, CT_P, CT_P, CT_P, CT_P, CT_P,
    CT_D, CT_D, CT_D, CT_D, CT_D, CT_D, CT_D, CT_D,
    CT_D, CT_D, CT_P, CT_P, CT_P, CT_P, CT_P, CT_P,
    CT_P, CT_U OR CT_X, CT_U OR CT_X, CT_U OR CT_X, CT_U OR CT_X, CT_U OR CT_X, CT_U OR CT_X, CT_U,
    CT_U, CT_U, CT_U, CT_U, CT_U, CT_U, CT_U, CT_U,
    CT_U, CT_U, CT_U, CT_U, CT_U, CT_U, CT_U, CT_U,
    CT_U, CT_U, CT_U, CT_P, CT_P, CT_P, CT_P, CT_P,
    CT_P, CT_L OR CT_X, CT_L OR CT_X, CT_L OR CT_X, CT_L OR CT_X, CT_L OR CT_X, CT_L OR CT_X, CT_L,
    CT_L, CT_L, CT_L, CT_L, CT_L, CT_L, CT_L, CT_L,
    CT_L, CT_L, CT_L, CT_L, CT_L, CT_L, CT_L, CT_L,
    CT_L, CT_L, CT_L, CT_P, CT_P, CT_P, CT_P, CT_C,
    0, 0, 0, 0, 0, 0, 0, 0, 0, 0, 0, 0, 0, 0, 0, 0,
    0, 0, 0, 0, 0, 0, 0, 0, 0, 0, 0, 0, 0, 0, 0, 0,
    CT_S OR CT_SP, CT_P, CT_P, CT_P, CT_P, CT_P, CT_P, CT_P, CT_P, CT_P, CT_P, CT_P, CT_P, CT_P, CT_P, CT_P,
    CT_P, CT_P, CT_P, CT_P, CT_P, CT_P, CT_P, CT_P, CT_P, CT_P, CT_P, CT_P, CT_P, CT_P, CT_P, CT_P,
    CT_U, CT_U, CT_U, CT_U, CT_U, CT_U, CT_U, CT_U, CT_U, CT_U, CT_U, CT_U, CT_U, CT_U, CT_U, CT_U,
    CT_U, CT_U, CT_U, CT_U, CT_U, CT_U, CT_U, CT_P, CT_U, CT_U, CT_U, CT_U, CT_U, CT_U, CT_U, CT_L,
    CT_L, CT_L, CT_L, CT_L, CT_L, CT_L, CT_L, CT_L, CT_L, CT_L, CT_L, CT_L, CT_L, CT_L, CT_L, CT_L,
    CT_L, CT_L, CT_L, CT_L, CT_L, CT_L, CT_L, CT_P, CT_L, CT_L, CT_L, CT_L, CT_L, CT_L, CT_L, CT_L]"

definition ismask :: "u8 \<Rightarrow> u8" where "ismask x = ctype_table ! unat x"

definition isalnum :: "u8 \<Rightarrow> bool" where "isalnum c \<longleftrightarrow> ismask c AND (CT_U OR CT_L OR CT_D) \<noteq> 0"
definition isalpha :: "u8 \<Rightarrow> bool" where "isalpha c \<longleftrightarrow> ismask c AND (CT_U OR CT_L) \<noteq> 0"
definition iscntrl :: "u8 \<Rightarrow> bool" where "iscntrl c \<longleftrightarrow> ismask c AND CT_C \<noteq> 0"
definition isdigit :: "u8 \<Rightarrow> bool" where "isdigit c \<longleftrightarrow> 0x30 \<le> c \<and> c \<le> 0x39"
definition isgraph :: "u8 \<Rightarrow> bool" where "isgraph c \<longleftrightarrow> ismask c AND (CT_P OR CT_U OR CT_L OR CT_D) \<noteq> 0"
definition islower :: "u8 \<Rightarrow> bool" where "islower c \<longleftrightarrow> ismask c AND CT_L \<noteq> 0"
definition isprint :: "u8 \<Rightarrow> bool" where "isprint c \<longleftrightarrow> ismask c AND (CT_P OR CT_U OR CT_L OR CT_D OR CT_SP) \<noteq> 0"
definition ispunct :: "u8 \<Rightarrow> bool" where "ispunct c \<longleftrightarrow> ismask c AND CT_P \<noteq> 0"
definition isspace :: "u8 \<Rightarrow> bool" where "isspace c \<longleftrightarrow> ismask c AND CT_S \<noteq> 0"
definition isupper :: "u8 \<Rightarrow> bool" where "isupper c \<longleftrightarrow> ismask c AND CT_U \<noteq> 0"
definition isxdigit :: "u8 \<Rightarrow> bool" where "isxdigit c \<longleftrightarrow> ismask c AND (CT_D OR CT_X) \<noteq> 0"

definition isascii :: "u8 \<Rightarrow> bool" where "isascii c \<longleftrightarrow> c \<le> 0x7f"
definition toascii :: "u8 \<Rightarrow> u8" where "toascii c = c AND 0x7f"

definition tolower :: "u8 \<Rightarrow> u8" where
  "tolower c = (if isupper c then c - (0x41 - 0x61) else c)"

definition toupper :: "u8 \<Rightarrow> u8" where
  "toupper c = (if islower c then c - (0x61 - 0x41) else c)"

text \<open>\<^verbatim>\<open>_tolower\<close>, the fast version for internal use.\<close>

definition fast_tolower :: "u8 \<Rightarrow> u8" where
  "fast_tolower c = c OR 0x20"

definition isodigit :: "u8 \<Rightarrow> bool" where "isodigit c \<longleftrightarrow> c \<ge> 0x30 \<and> c \<le> 0x37"

section \<open>Lemmas\<close>

text \<open>A statement about all bytes and their classes is decided by going through the table.\<close>

fun table_from :: "(u8 \<Rightarrow> u8 \<Rightarrow> bool) \<Rightarrow> u8 \<Rightarrow> u8 list \<Rightarrow> bool" where
  "table_from P c [] \<longleftrightarrow> True"
| "table_from P c (x # xs) \<longleftrightarrow> P c x \<and> table_from P (c + 1) xs"

lemma table_from_nth: "table_from P c xs \<Longrightarrow> i < length xs \<Longrightarrow> P (c + word_of_nat i) (xs ! i)"
proof (induction xs arbitrary: c i)
  case (Cons x xs)
  then show ?case using Cons.IH [of "c + 1"] by (cases i) (auto simp: add.assoc)
qed simp

lemma length_ctype_table: "length ctype_table = 256"
  by (simp add: ctype_table_def)

lemma table_lookup:
  assumes "table_from P 0 ctype_table"
  shows "P c (ismask c)"
proof -
  have "unat c < 256" using unsigned_less [of c] by simp
  then have "unat c < length ctype_table" by (simp only: length_ctype_table)
  from table_from_nth [OF assms this] show ?thesis by (simp add: ismask_def)
qed

lemma isspace_iff: "isspace c \<longleftrightarrow> c \<in> {9, 10, 11, 12, 13, 32, 160}"
  unfolding isspace_def by (rule table_lookup) code_simp

lemma isupper_iff: "isupper c \<longleftrightarrow> 65 \<le> c \<and> c \<le> 90 \<or> 192 \<le> c \<and> c \<le> 222 \<and> c \<noteq> 215"
  unfolding isupper_def by (rule table_lookup) code_simp

lemma islower_iff: "islower c \<longleftrightarrow> 97 \<le> c \<and> c \<le> 122 \<or> 223 \<le> c \<and> c \<noteq> 247"
  unfolding islower_def by (rule table_lookup) code_simp

lemma isxdigit_iff: "isxdigit c \<longleftrightarrow> isdigit c \<or> 65 \<le> c \<and> c \<le> 70 \<or> 97 \<le> c \<and> c \<le> 102"
  unfolding isxdigit_def by (rule table_lookup) code_simp

end
