(* ===== verification/String_Lib.thy ===== *)
theory String_Lib
  imports Ctype Byte_Memory Bit_Ops "HOL-Library.Monad_Syntax"
begin

text \<open>
  The string functions of \<^verbatim>\<open>lib/string.c\<close>.

  All functions work on one memory, a list of bytes whose positions are the addresses, so that
  source and destination may overlap. An access outside the memory is \<open>None\<close>, and so is a
  \<^verbatim>\<open>BUG_ON\<close> that fires. A pointer result that may be \<^verbatim>\<open>NULL\<close> is an optional address. Sizes are natural
  numbers: no object is larger than the memory. On ARM the functions \<^verbatim>\<open>memcpy\<close>, \<^verbatim>\<open>memmove\<close>, \<^verbatim>\<open>memset\<close>, \<^verbatim>\<open>memchr\<close>,
  \<^verbatim>\<open>strchr\<close> and \<^verbatim>\<open>strrchr\<close> are replaced by assembly; the definitions below are the generic versions.
\<close>

section \<open>Memory access\<close>

definition rd :: "mem \<Rightarrow> nat \<Rightarrow> u8 option" where
  "rd m a = (if a < length m then Some (m ! a) else None)"

definition wr :: "nat \<Rightarrow> u8 \<Rightarrow> mem \<Rightarrow> mem option" where
  "wr a v m = (if a < length m then Some (m[a := v]) else None)"

lemma rd_Some_iff: "rd m a = Some c \<longleftrightarrow> a < length m \<and> m ! a = c"
  by (simp add: rd_def)

lemma wr_Some_iff: "wr a v m = Some m' \<longleftrightarrow> a < length m \<and> m' = m[a := v]"
  by (auto simp: wr_def)

section \<open>Comparison\<close>

function strncasecmp_loop :: "mem \<Rightarrow> nat \<Rightarrow> nat \<Rightarrow> nat \<Rightarrow> int option" where
  "strncasecmp_loop m s1 s2 len =
     (case (rd m s1, rd m s2) of
        (Some c1, Some c2) \<Rightarrow>
          if c1 = 0 \<or> c2 = 0 then Some (uint c1 - uint c2)
          else let (c1, c2) = (if c1 = c2 then (c1, c2) else (tolower c1, tolower c2))
               in if c1 \<noteq> c2 then Some (uint c1 - uint c2)
                  else if len - 1 \<noteq> 0 then strncasecmp_loop m (s1 + 1) (s2 + 1) (len - 1)
                  else Some (uint c1 - uint c2)
      | _ \<Rightarrow> None)"
  by pat_completeness auto
termination
  by (relation "measure (\<lambda>(m, s1, s2, len). len)") auto

definition strncasecmp :: "mem \<Rightarrow> nat \<Rightarrow> nat \<Rightarrow> nat \<Rightarrow> int option" where
  "strncasecmp m s1 s2 len = (if len = 0 then Some 0 else strncasecmp_loop m s1 s2 len)"

function strcasecmp :: "mem \<Rightarrow> nat \<Rightarrow> nat \<Rightarrow> int option" where
  "strcasecmp m s1 s2 =
     (case (rd m s1, rd m s2) of
        (Some c1, Some c2) \<Rightarrow>
          let c1 = tolower c1; c2 = tolower c2
          in if c1 = c2 \<and> c1 \<noteq> 0 then strcasecmp m (s1 + 1) (s2 + 1) else Some (uint c1 - uint c2)
      | _ \<Rightarrow> None)"
  by pat_completeness auto
termination
  by (relation "measure (\<lambda>(m, s1, s2). length m - s1)") (auto simp: rd_def split: if_splits)

function strcmp :: "mem \<Rightarrow> nat \<Rightarrow> nat \<Rightarrow> int option" where
  "strcmp m cs ct =
     (case (rd m cs, rd m ct) of
        (Some c1, Some c2) \<Rightarrow>
          if c1 \<noteq> c2 then Some (if c1 < c2 then - 1 else 1)
          else if c1 = 0 then Some 0 else strcmp m (cs + 1) (ct + 1)
      | _ \<Rightarrow> None)"
  by pat_completeness auto
termination
  by (relation "measure (\<lambda>(m, cs, ct). length m - cs)") (auto simp: rd_def split: if_splits)

fun strncmp :: "mem \<Rightarrow> nat \<Rightarrow> nat \<Rightarrow> nat \<Rightarrow> int option" where
  "strncmp m cs ct 0 = Some 0"
| "strncmp m cs ct (Suc cnt) =
     (case (rd m cs, rd m ct) of
        (Some c1, Some c2) \<Rightarrow>
          if c1 \<noteq> c2 then Some (if c1 < c2 then - 1 else 1)
          else if c1 = 0 then Some 0 else strncmp m (cs + 1) (ct + 1) cnt
      | _ \<Rightarrow> None)"

fun memcmp :: "mem \<Rightarrow> nat \<Rightarrow> nat \<Rightarrow> nat \<Rightarrow> int option" where
  "memcmp m su1 su2 0 = Some 0"
| "memcmp m su1 su2 (Suc cnt) =
     (case (rd m su1, rd m su2) of
        (Some c1, Some c2) \<Rightarrow>
          if uint c1 - uint c2 \<noteq> 0 then Some (uint c1 - uint c2) else memcmp m (su1 + 1) (su2 + 1) cnt
      | _ \<Rightarrow> None)"

text \<open>\<^verbatim>\<open>sysfs_streq\<close>: the loop over the common part, then the tests for the ends.\<close>

function streq_loop :: "mem \<Rightarrow> nat \<Rightarrow> nat \<Rightarrow> (nat \<times> nat) option" where
  "streq_loop m s1 s2 =
     (case rd m s1 of None \<Rightarrow> None
      | Some c1 \<Rightarrow>
          if c1 = 0 then Some (s1, s2)
          else (case rd m s2 of None \<Rightarrow> None
                | Some c2 \<Rightarrow> if c1 = c2 then streq_loop m (s1 + 1) (s2 + 1) else Some (s1, s2)))"
  by pat_completeness auto
termination
  by (relation "measure (\<lambda>(m, s1, s2). length m - s1)") (auto simp: rd_def split: if_splits)

definition sysfs_streq :: "mem \<Rightarrow> nat \<Rightarrow> nat \<Rightarrow> bool option" where
  "sysfs_streq m s1 s2 = do {
     (s1, s2) \<leftarrow> streq_loop m s1 s2;
     c1 \<leftarrow> rd m s1;
     c2 \<leftarrow> rd m s2;
     if c1 = c2 then Some True
     else do {
       e2 \<leftarrow> (if c1 = 0 \<and> c2 = 0x0a then map_option (\<lambda>c. c = 0) (rd m (s2 + 1)) else Some False);
       if e2 then Some True
       else do {
         e1 \<leftarrow> (if c1 = 0x0a then map_option (\<lambda>c. c = 0) (rd m (s1 + 1)) else Some False);
         Some (e1 \<and> c2 = 0) } } }"

text \<open>\<^verbatim>\<open>match_string\<close>: the array is a list of pointers, \<open>None\<close> is \<^verbatim>\<open>NULL\<close>; reading beyond its end is an
  error like every access outside an object.\<close>

function match_loop :: "mem \<Rightarrow> nat option list \<Rightarrow> nat \<Rightarrow> nat \<Rightarrow> nat \<Rightarrow> int option" where
  "match_loop m arr n s index =
     (if index < n
      then if index < length arr
           then (case arr ! index of None \<Rightarrow> Some (- EINVAL)
                 | Some item \<Rightarrow>
                     (case strcmp m item s of None \<Rightarrow> None
                      | Some r \<Rightarrow> if r = 0 then Some (int index) else match_loop m arr n s (index + 1)))
           else None
      else Some (- EINVAL))"
  by pat_completeness auto
termination
  by (relation "measure (\<lambda>(m, arr, n, s, index). n - index)") auto

definition match_string :: "mem \<Rightarrow> nat option list \<Rightarrow> nat \<Rightarrow> nat \<Rightarrow> int option" where
  "match_string m arr n s = match_loop m arr n s 0"

section \<open>Searching\<close>

function strlen_loop :: "mem \<Rightarrow> nat \<Rightarrow> nat option" where
  "strlen_loop m sc = (case rd m sc of None \<Rightarrow> None | Some c \<Rightarrow> if c \<noteq> 0 then strlen_loop m (sc + 1) else Some sc)"
  by pat_completeness auto
termination
  by (relation "measure (\<lambda>(m, sc). length m - sc)") (auto simp: rd_def split: if_splits)

definition strlen :: "mem \<Rightarrow> nat \<Rightarrow> nat option" where
  "strlen m s = map_option (\<lambda>sc. sc - s) (strlen_loop m s)"

fun strnlen_loop :: "mem \<Rightarrow> nat \<Rightarrow> nat \<Rightarrow> nat option" where
  "strnlen_loop m sc 0 = Some sc"
| "strnlen_loop m sc (Suc cnt) = (case rd m sc of None \<Rightarrow> None | Some c \<Rightarrow> if c \<noteq> 0 then strnlen_loop m (sc + 1) cnt else Some sc)"

definition strnlen :: "mem \<Rightarrow> nat \<Rightarrow> nat \<Rightarrow> nat option" where
  "strnlen m s cnt = map_option (\<lambda>sc. sc - s) (strnlen_loop m s cnt)"

function strchr :: "mem \<Rightarrow> nat \<Rightarrow> u8 \<Rightarrow> nat option option" where
  "strchr m s c =
     (case rd m s of None \<Rightarrow> None
      | Some x \<Rightarrow> if x \<noteq> c then if x = 0 then Some None else strchr m (s + 1) c else Some (Some s))"
  by pat_completeness auto
termination
  by (relation "measure (\<lambda>(m, s, c). length m - s)") (auto simp: rd_def split: if_splits)

function strchrnul :: "mem \<Rightarrow> nat \<Rightarrow> u8 \<Rightarrow> nat option" where
  "strchrnul m s c =
     (case rd m s of None \<Rightarrow> None | Some x \<Rightarrow> if x \<noteq> 0 \<and> x \<noteq> c then strchrnul m (s + 1) c else Some s)"
  by pat_completeness auto
termination
  by (relation "measure (\<lambda>(m, s, c). length m - s)") (auto simp: rd_def split: if_splits)

function strrchr_loop :: "mem \<Rightarrow> nat \<Rightarrow> u8 \<Rightarrow> nat option \<Rightarrow> nat option option" where
  "strrchr_loop m s c found =
     (case rd m s of None \<Rightarrow> None
      | Some x \<Rightarrow> let found = (if x = c then Some s else found)
                  in if x \<noteq> 0 then strrchr_loop m (s + 1) c found else Some found)"
  by pat_completeness auto
termination
  by (relation "measure (\<lambda>(m, s, c, found). length m - s)") (auto simp: rd_def split: if_splits)

definition strrchr :: "mem \<Rightarrow> nat \<Rightarrow> u8 \<Rightarrow> nat option option" where
  "strrchr m s c = strrchr_loop m s c None"

fun strnchr :: "mem \<Rightarrow> nat \<Rightarrow> nat \<Rightarrow> u8 \<Rightarrow> nat option option" where
  "strnchr m s 0 c = Some None"
| "strnchr m s (Suc cnt) c =
     (case rd m s of None \<Rightarrow> None
      | Some x \<Rightarrow> if x \<noteq> 0 then if x = c then Some (Some s) else strnchr m (s + 1) cnt c else Some None)"

function skip_spaces :: "mem \<Rightarrow> nat \<Rightarrow> nat option" where
  "skip_spaces m s = (case rd m s of None \<Rightarrow> None | Some c \<Rightarrow> if isspace c then skip_spaces m (s + 1) else Some s)"
  by pat_completeness auto
termination
  by (relation "measure (\<lambda>(m, s). length m - s)") (auto simp: rd_def split: if_splits)

text \<open>\<^verbatim>\<open>strim\<close>: the loop runs with \<open>k\<close> characters left, \<^verbatim>\<open>end = s + k - 1\<close>.\<close>

fun strim_loop :: "mem \<Rightarrow> nat \<Rightarrow> nat \<Rightarrow> nat option" where
  "strim_loop m s 0 = Some 0"
| "strim_loop m s (Suc k) = (case rd m (s + k) of None \<Rightarrow> None | Some c \<Rightarrow> if isspace c then strim_loop m s k else Some (Suc k))"

definition strim :: "mem \<Rightarrow> nat \<Rightarrow> (nat \<times> mem) option" where
  "strim m s = do {
     sz \<leftarrow> strlen m s;
     if sz = 0 then Some (s, m)
     else do {
       k \<leftarrow> strim_loop m s sz;
       m \<leftarrow> wr (s + k) 0 m;
       p \<leftarrow> skip_spaces m s;
       Some (p, m) } }"

text \<open>The inner loops of \<^verbatim>\<open>strspn\<close>, \<^verbatim>\<open>strcspn\<close> and \<^verbatim>\<open>strpbrk\<close>: whether the character is in the string.\<close>

function char_in :: "mem \<Rightarrow> nat \<Rightarrow> u8 \<Rightarrow> bool option" where
  "char_in m a c =
     (case rd m a of None \<Rightarrow> None | Some x \<Rightarrow> if x \<noteq> 0 then if c = x then Some True else char_in m (a + 1) c else Some False)"
  by pat_completeness auto
termination
  by (relation "measure (\<lambda>(m, a, c). length m - a)") (auto simp: rd_def split: if_splits)

function strspn_loop :: "mem \<Rightarrow> nat \<Rightarrow> nat \<Rightarrow> nat \<Rightarrow> nat option" where
  "strspn_loop m p accept n =
     (case rd m p of None \<Rightarrow> None
      | Some c \<Rightarrow>
          if c \<noteq> 0
          then (case char_in m accept c of None \<Rightarrow> None
                | Some b \<Rightarrow> if b then strspn_loop m (p + 1) accept (n + 1) else Some n)
          else Some n)"
  by pat_completeness auto
termination
  by (relation "measure (\<lambda>(m, p, accept, n). length m - p)") (auto simp: rd_def split: if_splits)

definition strspn :: "mem \<Rightarrow> nat \<Rightarrow> nat \<Rightarrow> nat option" where
  "strspn m s accept = strspn_loop m s accept 0"

function strcspn_loop :: "mem \<Rightarrow> nat \<Rightarrow> nat \<Rightarrow> nat \<Rightarrow> nat option" where
  "strcspn_loop m p reject n =
     (case rd m p of None \<Rightarrow> None
      | Some c \<Rightarrow>
          if c \<noteq> 0
          then (case char_in m reject c of None \<Rightarrow> None
                | Some b \<Rightarrow> if b then Some n else strcspn_loop m (p + 1) reject (n + 1))
          else Some n)"
  by pat_completeness auto
termination
  by (relation "measure (\<lambda>(m, p, reject, n). length m - p)") (auto simp: rd_def split: if_splits)

definition strcspn :: "mem \<Rightarrow> nat \<Rightarrow> nat \<Rightarrow> nat option" where
  "strcspn m s reject = strcspn_loop m s reject 0"

function strpbrk :: "mem \<Rightarrow> nat \<Rightarrow> nat \<Rightarrow> nat option option" where
  "strpbrk m cs ct =
     (case rd m cs of None \<Rightarrow> None
      | Some c \<Rightarrow>
          if c \<noteq> 0
          then (case char_in m ct c of None \<Rightarrow> None
                | Some b \<Rightarrow> if b then Some (Some cs) else strpbrk m (cs + 1) ct)
          else Some None)"
  by pat_completeness auto
termination
  by (relation "measure (\<lambda>(m, cs, ct). length m - cs)") (auto simp: rd_def split: if_splits)

text \<open>\<^verbatim>\<open>strsep\<close>: the new value of \<^verbatim>\<open>*s\<close>, the result and the memory.\<close>

definition strsep :: "mem \<Rightarrow> nat option \<Rightarrow> nat \<Rightarrow> (nat option \<times> nat option \<times> mem) option" where
  "strsep m s ct =
     (case s of None \<Rightarrow> Some (None, None, m)
      | Some sbegin \<Rightarrow> do {
          end' \<leftarrow> strpbrk m sbegin ct;
          case end' of None \<Rightarrow> Some (None, Some sbegin, m)
          | Some e \<Rightarrow> do { m \<leftarrow> wr e 0 m; Some (Some (e + 1), Some sbegin, m) } })"

fun memscan :: "mem \<Rightarrow> nat \<Rightarrow> u8 \<Rightarrow> nat \<Rightarrow> nat option" where
  "memscan m p c 0 = Some p"
| "memscan m p c (Suc sz) = (case rd m p of None \<Rightarrow> None | Some x \<Rightarrow> if x = c then Some p else memscan m (p + 1) c sz)"

fun memchr :: "mem \<Rightarrow> nat \<Rightarrow> u8 \<Rightarrow> nat \<Rightarrow> nat option option" where
  "memchr m p c 0 = Some None"
| "memchr m p c (Suc n) = (case rd m p of None \<Rightarrow> None | Some x \<Rightarrow> if c = x then Some (Some p) else memchr m (p + 1) c n)"

text \<open>\<^verbatim>\<open>strstr\<close> and \<^verbatim>\<open>strnstr\<close> share their loop, which is not entered with an empty second string.\<close>

function strstr_loop :: "mem \<Rightarrow> nat \<Rightarrow> nat \<Rightarrow> nat \<Rightarrow> nat \<Rightarrow> nat option option" where
  "strstr_loop m s1 s2 l1 l2 =
     (if l1 \<ge> l2 \<and> l2 \<noteq> 0
      then (case memcmp m s1 s2 l2 of None \<Rightarrow> None
            | Some r \<Rightarrow> if r = 0 then Some (Some s1) else strstr_loop m (s1 + 1) s2 (l1 - 1) l2)
      else Some None)"
  by pat_completeness auto
termination
  by (relation "measure (\<lambda>(m, s1, s2, l1, l2). l1)") auto

definition strstr :: "mem \<Rightarrow> nat \<Rightarrow> nat \<Rightarrow> nat option option" where
  "strstr m s1 s2 = do {
     l2 \<leftarrow> strlen m s2;
     if l2 = 0 then Some (Some s1) else do { l1 \<leftarrow> strlen m s1; strstr_loop m s1 s2 l1 l2 } }"

definition strnstr :: "mem \<Rightarrow> nat \<Rightarrow> nat \<Rightarrow> nat \<Rightarrow> nat option option" where
  "strnstr m s1 s2 len = do {
     l2 \<leftarrow> strlen m s2;
     if l2 = 0 then Some (Some s1) else strstr_loop m s1 s2 len l2 }"

fun check_bytes8 :: "mem \<Rightarrow> nat \<Rightarrow> u8 \<Rightarrow> nat \<Rightarrow> nat option option" where
  "check_bytes8 m start v 0 = Some None"
| "check_bytes8 m start v (Suc n) =
     (case rd m start of None \<Rightarrow> None | Some x \<Rightarrow> if x \<noteq> v then Some (Some start) else check_bytes8 m (start + 1) v n)"

section \<open>Copying\<close>

fun memcpy :: "nat \<Rightarrow> nat \<Rightarrow> nat \<Rightarrow> mem \<Rightarrow> mem option" where
  "memcpy dest src 0 m = Some m"
| "memcpy dest src (Suc n) m = do { c \<leftarrow> rd m src; m \<leftarrow> wr dest c m; memcpy (dest + 1) (src + 1) n m }"

fun memmove_down :: "nat \<Rightarrow> nat \<Rightarrow> nat \<Rightarrow> mem \<Rightarrow> mem option" where
  "memmove_down dest src 0 m = Some m"
| "memmove_down dest src (Suc n) m = do { c \<leftarrow> rd m (src + n); m \<leftarrow> wr (dest + n) c m; memmove_down dest src n m }"

definition memmove :: "nat \<Rightarrow> nat \<Rightarrow> nat \<Rightarrow> mem \<Rightarrow> mem option" where
  "memmove dest src n m = (if dest \<le> src then memcpy dest src n m else memmove_down dest src n m)"

fun memset :: "nat \<Rightarrow> u8 \<Rightarrow> nat \<Rightarrow> mem \<Rightarrow> mem option" where
  "memset xs c 0 m = Some m"
| "memset xs c (Suc n) m = do { m \<leftarrow> wr xs c m; memset (xs + 1) c n m }"

definition memzero_explicit :: "nat \<Rightarrow> nat \<Rightarrow> mem \<Rightarrow> mem option" where
  "memzero_explicit s n m = memset s 0 n m"

function strcpy :: "nat \<Rightarrow> nat \<Rightarrow> mem \<Rightarrow> mem option" where
  "strcpy dest src m =
     (case rd m src of None \<Rightarrow> None
      | Some c \<Rightarrow> (case wr dest c m of None \<Rightarrow> None
                   | Some m' \<Rightarrow> if c \<noteq> 0 then strcpy (dest + 1) (src + 1) m' else Some m'))"
  by pat_completeness auto
termination
  by (relation "measure (\<lambda>(dest, src, m). length m - src)") (auto simp: rd_def wr_def split: if_splits)

fun strncpy :: "nat \<Rightarrow> nat \<Rightarrow> nat \<Rightarrow> mem \<Rightarrow> mem option" where
  "strncpy dest src 0 m = Some m"
| "strncpy dest src (Suc n) m = do {
     c \<leftarrow> rd m src;
     m \<leftarrow> wr dest c m;
     strncpy (dest + 1) (if c \<noteq> 0 then src + 1 else src) n m }"

definition strlcpy :: "nat \<Rightarrow> nat \<Rightarrow> nat \<Rightarrow> mem \<Rightarrow> (nat \<times> mem) option" where
  "strlcpy dest src sz m = do {
     ret \<leftarrow> strlen m src;
     if sz \<noteq> 0
     then do {
       let len = (if ret \<ge> sz then sz - 1 else ret);
       m \<leftarrow> memcpy dest src len m;
       m \<leftarrow> wr (dest + len) 0 m;
       Some (ret, m) }
     else Some (ret, m) }"

definition strcat :: "nat \<Rightarrow> nat \<Rightarrow> mem \<Rightarrow> mem option" where
  "strcat dest src m = do { d \<leftarrow> strlen_loop m dest; strcpy d src m }"

text \<open>The copying loop of \<^verbatim>\<open>strncat\<close>, entered with a count that is not 0.\<close>

fun strncat_loop :: "nat \<Rightarrow> nat \<Rightarrow> nat \<Rightarrow> mem \<Rightarrow> mem option" where
  "strncat_loop dest src 0 m = Some m"
| "strncat_loop dest src (Suc n) m = do {
     c \<leftarrow> rd m src;
     m \<leftarrow> wr dest c m;
     if c \<noteq> 0 then if n = 0 then wr (dest + 1) 0 m else strncat_loop (dest + 1) (src + 1) n m
     else Some m }"

definition strncat :: "nat \<Rightarrow> nat \<Rightarrow> nat \<Rightarrow> mem \<Rightarrow> mem option" where
  "strncat dest src n m = (if n \<noteq> 0 then do { d \<leftarrow> strlen_loop m dest; strncat_loop d src n m } else Some m)"

definition strlcat :: "nat \<Rightarrow> nat \<Rightarrow> nat \<Rightarrow> mem \<Rightarrow> (nat \<times> mem) option" where
  "strlcat dest src sz m = do {
     dsize \<leftarrow> strlen m dest;
     len \<leftarrow> strlen m src;
     let res = dsize + len;
     if dsize \<ge> sz then None
     else do {
       let dest = dest + dsize;
       let sz = sz - dsize;
       let len = (if len \<ge> sz then sz - 1 else len);
       m \<leftarrow> memcpy dest src len m;
       m \<leftarrow> wr (dest + len) 0 m;
       Some (res, m) } }"

function strreplace :: "nat \<Rightarrow> u8 \<Rightarrow> u8 \<Rightarrow> mem \<Rightarrow> (nat \<times> mem) option" where
  "strreplace s old new m =
     (case rd m s of None \<Rightarrow> None
      | Some c \<Rightarrow> if c \<noteq> 0 then strreplace (s + 1) old new (if c = old then m[s := new] else m) else Some (s, m))"
  by pat_completeness auto
termination
  by (relation "measure (\<lambda>(s, old, new, m). length m - s)") (auto simp: rd_def split: if_splits)

section \<open>Words at a time\<close>

text \<open>\<^verbatim>\<open>arch/arm/include/asm/word-at-a-time.h\<close>, little endian, with the \<^verbatim>\<open>clz\<close> version of \<^verbatim>\<open>find_zero\<close>.\<close>

definition one_bits :: u32 where "one_bits = 0x01010101"
definition high_bits :: u32 where "high_bits = 0x80808080"

definition has_zero :: "u32 \<Rightarrow> u32" where
  "has_zero a = ((a - one_bits) AND NOT a) AND high_bits"

definition prep_zero_mask :: "u32 \<Rightarrow> u32 \<Rightarrow> u32" where
  "prep_zero_mask a bits = bits"

definition create_zero_mask :: "u32 \<Rightarrow> u32" where
  "create_zero_mask bits = drop_bit 7 ((bits - 1) AND NOT bits)"

definition find_zero :: "u32 \<Rightarrow> nat" where
  "find_zero m = fls m div 8"

definition zero_bytemask :: "u32 \<Rightarrow> u32" where
  "zero_bytemask m = m"

text \<open>Words in memory, low byte first.\<close>

definition cat_byte :: "u8 \<Rightarrow> 'a::len word \<Rightarrow> 'a word" where
  "cat_byte b h = ucast b OR push_bit 8 h"

definition of_bytes :: "u8 list \<Rightarrow> 'a::len word" where
  "of_bytes bs = foldr cat_byte bs 0"

definition to_bytes :: "u32 \<Rightarrow> u8 list" where
  "to_bytes w = [ucast w, ucast (drop_bit 8 w), ucast (drop_bit 16 w), ucast (drop_bit 24 w)]"

definition PAGE_BYTES :: nat where "PAGE_BYTES = 4096"

fun strscpy_bytes :: "nat \<Rightarrow> nat \<Rightarrow> nat \<Rightarrow> nat \<Rightarrow> mem \<Rightarrow> (int \<times> mem) option" where
  "strscpy_bytes dest src res 0 m =
     (if res \<noteq> 0 then do { m \<leftarrow> wr (dest + res - 1) 0 m; Some (- E2BIG, m) } else Some (- E2BIG, m))"
| "strscpy_bytes dest src res (Suc n) m = do {
     c \<leftarrow> rd m (src + res);
     m \<leftarrow> wr (dest + res) c m;
     if c = 0 then Some (int res, m) else strscpy_bytes dest src (res + 1) n m }"

function strscpy_words :: "nat \<Rightarrow> nat \<Rightarrow> nat \<Rightarrow> nat \<Rightarrow> nat \<Rightarrow> mem \<Rightarrow> (int \<times> mem) option" where
  "strscpy_words dest src res n mx m =
     (if mx \<ge> 4
      then (case load_checked 4 (src + res) m of None \<Rightarrow> None
            | Some bs \<Rightarrow>
                let c = of_bytes bs; data = has_zero c
                in if data \<noteq> 0
                   then let data = create_zero_mask (prep_zero_mask c data)
                        in do { m \<leftarrow> store_checked (dest + res) (to_bytes (c AND zero_bytemask data)) m;
                                Some (int (res + find_zero data), m) }
                   else (case store_checked (dest + res) (to_bytes c) m of None \<Rightarrow> None
                         | Some m' \<Rightarrow> strscpy_words dest src (res + 4) (n - 4) (mx - 4) m'))
      else strscpy_bytes dest src res n m)"
  by pat_completeness auto
termination
  by (relation "measure (\<lambda>(dest, src, res, n, mx, m). mx)") auto

definition strscpy :: "nat \<Rightarrow> nat \<Rightarrow> nat \<Rightarrow> mem \<Rightarrow> (int \<times> mem) option" where
  "strscpy dest src n m =
     (if n = 0 then Some (- E2BIG, m)
      else let mx = n;
               mx = (if src mod 4 \<noteq> 0
                     then let limit = PAGE_BYTES - src mod PAGE_BYTES in if limit < mx then limit else mx
                     else mx)
           in strscpy_words dest src 0 n mx m)"

text \<open>\<^verbatim>\<open>memchr_inv\<close>. The replicated byte is computed by shifts: \<^verbatim>\<open>CONFIG_ARCH_HAS_FAST_MULTIPLIER\<close> is not set on ARM.\<close>

fun inv_words :: "mem \<Rightarrow> nat \<Rightarrow> u8 \<Rightarrow> u64 \<Rightarrow> nat \<Rightarrow> (nat option + nat) option" where
  "inv_words m start v v64 0 = Some (Inr start)"
| "inv_words m start v v64 (Suc words) = do {
     bs \<leftarrow> load_checked 8 start m;
     if of_bytes bs \<noteq> v64 then map_option Inl (check_bytes8 m start v 8)
     else inv_words m (start + 8) v v64 words }"

definition memchr_inv :: "mem \<Rightarrow> nat \<Rightarrow> u8 \<Rightarrow> nat \<Rightarrow> nat option option" where
  "memchr_inv m start v bytes =
     (if bytes \<le> 16 then check_bytes8 m start v bytes
      else let v64 = (ucast v :: u64);
               v64 = v64 OR push_bit 8 v64;
               v64 = v64 OR push_bit 16 v64;
               v64 = v64 OR push_bit 32 v64;
               prefix = start mod 8;
               prefix = (if prefix \<noteq> 0 then 8 - prefix else 0)
           in do {
             r \<leftarrow> check_bytes8 m start v prefix;
             if r \<noteq> None then Some r
             else do {
               let start = start + prefix;
               let bytes = bytes - prefix;
               r \<leftarrow> inv_words m start v v64 (bytes div 8);
               case r of Inl p \<Rightarrow> Some p | Inr start \<Rightarrow> check_bytes8 m start v (bytes mod 8) } })"

end
