(* ===== verification/String_Search.thy ===== *)
theory String_Search
  imports String_Lib
begin

text \<open>
  Facts on the functions of \<^verbatim>\<open>lib/string.c\<close> that search, compare and split strings, stated for a string
  with given characters at an address.
\<close>

section \<open>Strings in memory\<close>

text \<open>The characters of a string at an address, and a block of bytes at an address.\<close>

fun str_at :: "mem \<Rightarrow> nat \<Rightarrow> u8 list \<Rightarrow> bool" where
  "str_at m a [] \<longleftrightarrow> rd m a = Some 0"
| "str_at m a (b # bs) \<longleftrightarrow> b \<noteq> 0 \<and> rd m a = Some b \<and> str_at m (a + 1) bs"

fun bytes_at :: "mem \<Rightarrow> nat \<Rightarrow> u8 list \<Rightarrow> bool" where
  "bytes_at m a [] \<longleftrightarrow> True"
| "bytes_at m a (b # bs) \<longleftrightarrow> rd m a = Some b \<and> bytes_at m (a + 1) bs"

lemma str_at_bound: "str_at m a bs \<Longrightarrow> a + length bs < length m"
proof (induction bs arbitrary: a)
  case (Cons b bs)
  then show ?case using Cons.IH [of "a + 1"] by auto
qed (simp add: rd_Some_iff)

lemma str_at_unique: "str_at m a xs \<Longrightarrow> str_at m a ys \<Longrightarrow> xs = ys"
proof (induction xs arbitrary: a ys)
  case Nil
  then show ?case by (cases ys) auto
next
  case (Cons x xs)
  then show ?case by (cases ys) auto
qed

lemma str_at_drop: "str_at m a xs \<Longrightarrow> k \<le> length xs \<Longrightarrow> str_at m (a + k) (drop k xs)"
proof (induction xs arbitrary: a k)
  case (Cons x xs)
  then show ?case using Cons.IH [of "a + 1"] by (cases k) auto
qed simp

text \<open>The positions of a string: its characters, then the terminator.\<close>

lemma str_at_nth: "str_at m a xs \<Longrightarrow> i < length xs \<Longrightarrow> m ! (a + i) = xs ! i"
proof (induction xs arbitrary: a i)
  case (Cons x xs)
  then show ?case using Cons.IH [of "a + 1"] by (cases i) (auto simp: rd_Some_iff)
qed simp

lemma str_at_end: "str_at m a xs \<Longrightarrow> m ! (a + length xs) = 0"
proof (induction xs arbitrary: a)
  case (Cons x xs)
  then show ?case using Cons.IH [of "a + 1"] by auto
qed (simp add: rd_Some_iff)

lemma str_at_nonzero: "str_at m a xs \<Longrightarrow> 0 \<notin> set xs"
  by (induction xs arbitrary: a) auto

lemma str_atI:
  assumes "a + length xs < length m" "0 \<notin> set xs" "\<And>i. i < length xs \<Longrightarrow> m ! (a + i) = xs ! i" "m ! (a + length xs) = 0"
  shows "str_at m a xs"
  using assms
proof (induction xs arbitrary: a)
  case (Cons x xs)
  have "m ! (a + 1 + i) = xs ! i" if "i < length xs" for i using Cons.prems(3) [of "Suc i"] that by simp
  then show ?case using Cons.IH [of "a + 1"] Cons.prems(1,2,4) Cons.prems(3) [of 0] by (auto simp: rd_def)
qed (simp add: rd_def)

lemma bytes_at_iff: "bytes_at m a bs \<longleftrightarrow> bs = [] \<or> a + length bs \<le> length m \<and> load (length bs) a m = bs"
proof (induction bs arbitrary: a)
  case (Cons b bs)
  have "load (Suc n) a m = m ! a # load n (Suc a) m" if "a < length m" for n
    using that by (simp add: load_def Cons_nth_drop_Suc [symmetric])
  then show ?case using Cons [of "a + 1"] by (cases bs) (auto simp: rd_def load_def)
qed simp

lemma str_at_bytes: "str_at m a xs \<Longrightarrow> k + n \<le> length xs \<Longrightarrow> bytes_at m (a + k) (take n (drop k xs))"
proof -
  assume a: "str_at m a xs" "k + n \<le> length xs"
  have "take n (drop k xs) = load n (a + k) m"
    using a str_at_nth [OF a(1)] str_at_bound [OF a(1)] by (intro nth_equalityI) (auto simp: nth_load add.assoc)
  then show ?thesis using a str_at_bound [OF a(1)] by (auto simp: bytes_at_iff)
qed

text \<open>A string is kept by changes outside of it.\<close>

lemma str_at_cong:
  assumes "str_at m a xs" "length m' = length m" "\<And>p. a \<le> p \<Longrightarrow> p \<le> a + length xs \<Longrightarrow> m' ! p = m ! p"
  shows "str_at m' a xs"
  using assms str_at_bound [OF assms(1)] str_at_nth [OF assms(1)] str_at_end [OF assms(1)] str_at_nonzero [OF assms(1)]
  by (intro str_atI) auto

section \<open>Lemmas: searching\<close>

declare strlen_loop.simps [simp del] strcmp.simps [simp del] strcasecmp.simps [simp del] strncasecmp_loop.simps [simp del]
  streq_loop.simps [simp del] match_loop.simps [simp del] strchr.simps [simp del] strchrnul.simps [simp del]
  strrchr_loop.simps [simp del] skip_spaces.simps [simp del] char_in.simps [simp del] strspn_loop.simps [simp del]
  strcspn_loop.simps [simp del] strpbrk.simps [simp del] strstr_loop.simps [simp del] strcpy.simps [simp del]
  strreplace.simps [simp del] strscpy_words.simps [simp del]

lemma strlen_loop_str: "str_at m a xs \<Longrightarrow> strlen_loop m a = Some (a + length xs)"
proof (induction xs arbitrary: a)
  case (Cons x xs)
  then show ?case using Cons.IH [of "a + 1"] by (simp add: strlen_loop.simps [of m a])
qed (simp add: strlen_loop.simps)

lemma strlen_str: "str_at m a xs \<Longrightarrow> strlen m a = Some (length xs)"
  by (simp add: strlen_def strlen_loop_str)

lemma strnlen_str: "str_at m a xs \<Longrightarrow> strnlen m a n = Some (min n (length xs))"
proof -
  have "strnlen_loop m a n = Some (a + min n (length xs))" if "str_at m a xs" for a n
    using that
  proof (induction xs arbitrary: a n)
    case Nil
    then show ?case by (cases n) auto
  next
    case (Cons x xs)
    then show ?case using Cons.IH [of "a + 1"] by (cases n) auto
  qed
  then show "str_at m a xs \<Longrightarrow> ?thesis" by (simp add: strnlen_def)
qed

text \<open>The position of the first character of a set.\<close>

primrec first_in :: "u8 set \<Rightarrow> u8 list \<Rightarrow> nat option" where
  "first_in A [] = None"
| "first_in A (x # xs) = (if x \<in> A then Some 0 else map_option Suc (first_in A xs))"

lemma first_in_eq: "first_in A xs = (if \<exists>x \<in> set xs. x \<in> A then Some (length (takeWhile (\<lambda>x. x \<notin> A) xs)) else None)"
  by (induction xs) auto

lemma strchr_str: "str_at m a xs \<Longrightarrow> c \<noteq> 0 \<Longrightarrow> strchr m a c = Some (map_option (\<lambda>i. a + i) (first_in {c} xs))"
proof (induction xs arbitrary: a)
  case (Cons x xs)
  then show ?case using Cons.IH [of "a + 1"] by (simp add: strchr.simps [of m a] option.map_comp comp_def)
qed (simp add: strchr.simps)

lemma strchrnul_str: "str_at m a xs \<Longrightarrow> c \<noteq> 0 \<Longrightarrow> strchrnul m a c = Some (a + length (takeWhile (\<lambda>x. x \<noteq> c) xs))"
proof (induction xs arbitrary: a)
  case (Cons x xs)
  then show ?case using Cons.IH [of "a + 1"] by (simp add: strchrnul.simps [of m a])
qed (simp add: strchrnul.simps)

lemma strnchr_str: "str_at m a xs \<Longrightarrow> c \<noteq> 0 \<Longrightarrow> strnchr m a n c = Some (map_option (\<lambda>i. a + i) (first_in {c} (take n xs)))"
proof (induction xs arbitrary: a n)
  case Nil
  then show ?case by (cases n) auto
next
  case (Cons x xs)
  then show ?case using Cons.IH [of "a + 1"] by (cases n) (auto simp: option.map_comp comp_def)
qed

lemma skip_spaces_str: "str_at m a xs \<Longrightarrow> skip_spaces m a = Some (a + length (takeWhile isspace xs))"
proof (induction xs arbitrary: a)
  case (Cons x xs)
  then show ?case using Cons.IH [of "a + 1"] by (simp add: skip_spaces.simps [of m a])
qed (simp add: skip_spaces.simps isspace_iff)

lemma char_in_str: "str_at m a xs \<Longrightarrow> char_in m a c = Some (c \<in> set xs)"
proof (induction xs arbitrary: a)
  case (Cons x xs)
  then show ?case using Cons.IH [of "a + 1"] by (simp add: char_in.simps [of m a])
qed (simp add: char_in.simps)

lemma strspn_str:
  assumes "str_at m a xs" "str_at m b ys"
  shows "strspn m a b = Some (length (takeWhile (\<lambda>x. x \<in> set ys) xs))"
proof -
  have "strspn_loop m a b n = Some (n + length (takeWhile (\<lambda>x. x \<in> set ys) xs))" for n
    using assms(1)
  proof (induction xs arbitrary: a n)
    case (Cons x xs)
    then show ?case using Cons.IH [of "a + 1"] by (simp add: strspn_loop.simps [of m a] char_in_str [OF assms(2)])
  qed (simp add: strspn_loop.simps)
  then show ?thesis by (simp add: strspn_def)
qed

lemma strcspn_str:
  assumes "str_at m a xs" "str_at m b ys"
  shows "strcspn m a b = Some (length (takeWhile (\<lambda>x. x \<notin> set ys) xs))"
proof -
  have "strcspn_loop m a b n = Some (n + length (takeWhile (\<lambda>x. x \<notin> set ys) xs))" for n
    using assms(1)
  proof (induction xs arbitrary: a n)
    case (Cons x xs)
    then show ?case using Cons.IH [of "a + 1"] by (simp add: strcspn_loop.simps [of m a] char_in_str [OF assms(2)])
  qed (simp add: strcspn_loop.simps)
  then show ?thesis by (simp add: strcspn_def)
qed

lemma strpbrk_str: "str_at m a xs \<Longrightarrow> str_at m b ys \<Longrightarrow> strpbrk m a b = Some (map_option (\<lambda>i. a + i) (first_in (set ys) xs))"
proof (induction xs arbitrary: a)
  case (Cons x xs)
  then show ?case using Cons.IH [of "a + 1"] by (simp add: strpbrk.simps [of m a] char_in_str option.map_comp comp_def)
qed (simp add: strpbrk.simps)

section \<open>Lemmas: comparison\<close>

text \<open>The sign of the lexicographic comparison.\<close>

fun lex_sign :: "u8 list \<Rightarrow> u8 list \<Rightarrow> int" where
  "lex_sign [] [] = 0"
| "lex_sign [] (y # ys) = - 1"
| "lex_sign (x # xs) [] = 1"
| "lex_sign (x # xs) (y # ys) = (if x \<noteq> y then if x < y then - 1 else 1 else lex_sign xs ys)"

lemma lex_sign_zero_iff: "lex_sign xs ys = 0 \<longleftrightarrow> xs = ys"
  by (induction xs ys rule: lex_sign.induct) auto

lemma lex_sign_neg_iff: "lex_sign xs ys = - 1 \<longleftrightarrow> (xs, ys) \<in> lexord {(x, y). x < y}"
  by (induction xs ys rule: lex_sign.induct) auto

lemma lex_sign_values: "lex_sign xs ys \<in> {- 1, 0, 1}"
  by (induction xs ys rule: lex_sign.induct) auto

lemma strcmp_str: "str_at m a xs \<Longrightarrow> str_at m b ys \<Longrightarrow> strcmp m a b = Some (lex_sign xs ys)"
proof (induction xs ys arbitrary: a b rule: lex_sign.induct)
  case (4 x xs y ys)
  then show ?case by (simp add: strcmp.simps [of m a])
qed (simp_all add: strcmp.simps word_gt_0)

lemma strncmp_str: "str_at m a xs \<Longrightarrow> str_at m b ys \<Longrightarrow> strncmp m a b n = Some (lex_sign (take n xs) (take n ys))"
proof (induction n arbitrary: a b xs ys)
  case (Suc n)
  then show ?case by (cases xs; cases ys) (auto simp: word_gt_0)
qed simp

lemma sgn_uint_diff: "sgn (uint x - uint y) = (if x \<noteq> y then if x < y then - 1 else 1 else 0)" for x y :: "'a::len word"
  using uint_nonnegative by (auto simp: sgn_if word_less_def word_uint_eq_iff)

lemma sgn_uint: "sgn (uint x) = (if x = 0 then 0 else 1)" for x :: "'a::len word"
  using sgn_uint_diff [of x 0] by (simp add: word_gt_0)

lemma memcmp_bytes:
  "bytes_at m a xs \<Longrightarrow> bytes_at m b ys \<Longrightarrow> length xs = n \<Longrightarrow> length ys = n \<Longrightarrow> \<exists>r. memcmp m a b n = Some r \<and> sgn r = lex_sign xs ys"
proof (induction n arbitrary: a b xs ys)
  case (Suc n)
  then obtain x xs' y ys' where xy: "xs = x # xs'" "ys = y # ys'" by (metis length_Suc_conv)
  show ?case
  proof (cases "x = y")
    case True
    then show ?thesis using Suc xy by simp
  next
    case False
    then show ?thesis using Suc.prems xy sgn_uint_diff [of x y] by (auto simp: word_uint_eq_iff)
  qed
qed simp

lemma memcmp_zero_iff:
  assumes "bytes_at m a xs" "bytes_at m b ys" "length xs = length ys"
  shows "\<exists>r. memcmp m a b (length ys) = Some r \<and> (r = 0 \<longleftrightarrow> xs = ys)"
proof -
  obtain r where "memcmp m a b (length ys) = Some r" "sgn r = lex_sign xs ys" using memcmp_bytes [OF assms(1,2)] assms(3) by auto
  then show ?thesis using lex_sign_zero_iff [of xs ys] by (auto simp: sgn_0_0)
qed

lemma tolower_zero: "tolower c = 0 \<longleftrightarrow> c = 0"
proof
  assume t: "tolower c = 0"
  show "c = 0"
  proof (cases "isupper c")
    case True
    then have "c + 32 = 0" using t by (simp add: tolower_def)
    then have "c = - 32" by (rule eq_neg_iff_add_eq_0 [THEN iffD2])
    then have "c = 224" by simp
    then show ?thesis using True by (simp add: isupper_iff)
  qed (use t in \<open>simp add: tolower_def\<close>)
qed (simp add: tolower_def isupper_iff)

lemma tolower_0 [simp]: "tolower 0 = 0"
  by (simp add: tolower_zero)

lemma strcasecmp_str:
  "str_at m a xs \<Longrightarrow> str_at m b ys \<Longrightarrow> \<exists>r. strcasecmp m a b = Some r \<and> sgn r = lex_sign (map tolower xs) (map tolower ys)"
proof (induction xs ys arbitrary: a b rule: list_induct2')
  case (4 x xs y ys)
  then show ?case using sgn_uint_diff [of "tolower x" "tolower y"] by (auto simp: strcasecmp.simps [of m a] tolower_zero Let_def)
next
  case (2 x xs)
  then show ?case by (simp add: strcasecmp.simps [of m a] tolower_zero sgn_uint)
next
  case (3 y ys)
  then show ?case by (simp add: strcasecmp.simps [of m a] tolower_zero sgn_uint sgn_minus)
qed (simp add: strcasecmp.simps)

lemma strncasecmp_str:
  assumes "str_at m a xs" "str_at m b ys"
  shows "\<exists>r. strncasecmp m a b n = Some r \<and> sgn r = lex_sign (map tolower (take n xs)) (map tolower (take n ys))"
proof -
  have "\<exists>r. strncasecmp_loop m a b (Suc k) = Some r \<and> sgn r = lex_sign (map tolower (take (Suc k) xs)) (map tolower (take (Suc k) ys))" for k
    using assms
  proof (induction k arbitrary: a b xs ys)
    case 0
    then show ?case
      by (cases xs; cases ys) (auto simp: strncasecmp_loop.simps tolower_zero Let_def sgn_uint_diff sgn_uint sgn_minus)
  next
    case (Suc k)
    show ?case
    proof (cases xs)
      case Nil
      then show ?thesis using Suc.prems by (cases ys) (auto simp: strncasecmp_loop.simps sgn_uint_diff sgn_uint sgn_minus)
    next
      case (Cons x xs')
      then show ?thesis using Suc.prems Suc.IH [of "a + 1" xs' "b + 1"]
        by (cases ys) (auto simp: strncasecmp_loop.simps [of m a b] tolower_zero Let_def sgn_uint_diff sgn_uint sgn_minus)
    qed
  qed
  then show ?thesis by (cases n) (auto simp: strncasecmp_def)
qed

text \<open>\<^verbatim>\<open>sysfs_streq\<close> and \<^verbatim>\<open>match_string\<close>.\<close>

lemma sysfs_streq_str:
  "str_at m a xs \<Longrightarrow> str_at m b ys \<Longrightarrow> sysfs_streq m a b = Some (xs = ys \<or> ys = xs @ [0x0a] \<or> xs = ys @ [0x0a])"
proof (induction xs ys arbitrary: a b rule: list_induct2')
  case (2 x xs)
  then show ?case by (cases xs) (auto simp: sysfs_streq_def streq_loop.simps)
next
  case (3 y ys)
  then show ?case by (cases ys) (auto simp: sysfs_streq_def streq_loop.simps)
next
  case (4 x xs y ys)
  show ?case
  proof (cases "x = y")
    case True
    then have "sysfs_streq m a b = sysfs_streq m (a + 1) (b + 1)" using 4 by (simp add: sysfs_streq_def streq_loop.simps [of m a])
    then show ?thesis using 4 True by simp
  next
    case False
    then show ?thesis using 4 by (cases xs; cases ys) (auto simp: sysfs_streq_def streq_loop.simps [of m a])
  qed
qed (simp add: sysfs_streq_def streq_loop.simps)

lemma match_string_str:
  assumes "arr = map Some ps @ rest" "list_all2 (str_at m) ps strs" "str_at m s xs" "n = length ps \<or> length ps < n \<and> rest \<noteq> [] \<and> hd rest = None"
  shows "match_string m arr n s = Some (if xs \<in> set strs then int (length (takeWhile (\<lambda>x. x \<noteq> xs) strs)) else - EINVAL)"
proof -
  have "match_loop m arr n s k = Some (if xs \<in> set (drop k strs) then int (k + length (takeWhile (\<lambda>x. x \<noteq> xs) (drop k strs))) else - EINVAL)"
    if "k \<le> length ps" for k
    using that
  proof (induction "length ps - k" arbitrary: k)
    case 0
    then have "k = length ps" "k = length strs" using assms(2) by (auto dest: list_all2_lengthD)
    then show ?case using assms(1,4) by (subst match_loop.simps) (cases rest, auto simp: nth_append)
  next
    case (Suc d)
    then have k: "k < length ps" "k < length strs" using assms(2) by (auto dest: list_all2_lengthD)
    have "strcmp m (ps ! k) s = Some (lex_sign (strs ! k) xs)" using assms(2,3) k by (intro strcmp_str) (auto dest: list_all2_nthD)
    moreover have "match_loop m arr n s (k + 1) =
        Some (if xs \<in> set (drop (k + 1) strs) then int (k + 1 + length (takeWhile (\<lambda>x. x \<noteq> xs) (drop (k + 1) strs))) else - EINVAL)"
      using Suc by (intro Suc.hyps) auto
    moreover have "drop k strs = strs ! k # drop (k + 1) strs" using k by (simp add: Cons_nth_drop_Suc)
    moreover have "k < n" "arr ! k = Some (ps ! k)" "k < length arr" using assms(1,4) k by (auto simp: nth_append)
    ultimately show ?case by (auto simp: match_loop.simps [of m arr n s k] lex_sign_zero_iff)
  qed
  from this [of 0] show ?thesis by (simp add: match_string_def)
qed

section \<open>Lemmas: substrings, tokens and trimming\<close>

text \<open>The first occurrence of a string in another.\<close>

definition occurs_at :: "u8 list \<Rightarrow> u8 list \<Rightarrow> nat \<Rightarrow> bool" where
  "occurs_at ys xs i \<longleftrightarrow> i + length ys \<le> length xs \<and> take (length ys) (drop i xs) = ys"

fun first_occurrence :: "u8 list \<Rightarrow> u8 list \<Rightarrow> nat option" where
  "first_occurrence ys [] = (if ys = [] then Some 0 else None)"
| "first_occurrence ys (x # xs) = (if take (length ys) (x # xs) = ys then Some 0 else map_option Suc (first_occurrence ys xs))"

lemma occurs_at_Suc: "occurs_at ys (x # xs) (Suc i) \<longleftrightarrow> occurs_at ys xs i"
  by (simp add: occurs_at_def)

lemma occurs_at_0: "occurs_at ys xs 0 \<longleftrightarrow> take (length ys) xs = ys"
  by (auto simp: occurs_at_def) (metis length_take min.cobounded1)

lemma first_occurrence_least:
  "case first_occurrence ys xs of None \<Rightarrow> \<forall>i. \<not> occurs_at ys xs i | Some i \<Rightarrow> occurs_at ys xs i \<and> (\<forall>j < i. \<not> occurs_at ys xs j)"
proof (induction xs)
  case Nil
  then show ?case by (auto simp: occurs_at_def)
next
  case (Cons x xs)
  show ?case
  proof (cases "occurs_at ys (x # xs) 0")
    case True
    then show ?thesis by (simp add: occurs_at_0)
  next
    case False
    then have n: "\<not> occurs_at ys (x # xs) j" if "\<forall>i. j = Suc i \<longrightarrow> \<not> occurs_at ys xs i" for j
      using that by (cases j) (auto simp: occurs_at_Suc)
    show ?thesis
    proof (cases "first_occurrence ys xs")
      case None
      then show ?thesis using False Cons n by (simp add: occurs_at_0)
    next
      case (Some i)
      then have "occurs_at ys (x # xs) (Suc i)" "\<forall>j < Suc i. \<not> occurs_at ys (x # xs) j"
        using Cons n by (auto simp: occurs_at_Suc)
      then show ?thesis using Some False by (simp add: occurs_at_0)
    qed
  qed
qed

lemma strstr_loop_str:
  assumes "str_at m b ys" "ys \<noteq> []"
  shows "str_at m a xs \<Longrightarrow> strstr_loop m a b (length xs) (length ys) = Some (map_option (\<lambda>i. a + i) (first_occurrence ys xs))"
proof (induction xs arbitrary: a)
  case Nil
  then show ?case using assms(2) by (simp add: strstr_loop.simps)
next
  case (Cons x xs)
  show ?case
  proof (cases "length ys \<le> length (x # xs)")
    case True
    have "bytes_at m a (take (length ys) (x # xs))" using str_at_bytes [OF Cons.prems, of 0 "length ys"] True by simp
    moreover have "bytes_at m b ys" using str_at_bytes [OF assms(1), of 0 "length ys"] by simp
    ultimately obtain r where r: "memcmp m a b (length ys) = Some r" "r = 0 \<longleftrightarrow> take (length ys) (x # xs) = ys"
      using memcmp_zero_iff [of m a "take (length ys) (x # xs)" b ys] True by auto
    have "strstr_loop m (a + 1) b (length xs) (length ys) = Some (map_option (\<lambda>i. a + 1 + i) (first_occurrence ys xs))"
      using Cons by simp
    then show ?thesis using True r assms(2)
      by (subst strstr_loop.simps) (auto simp: option.map_comp comp_def)
  next
    case False
    then have "\<not> occurs_at ys (x # xs) i" for i by (simp add: occurs_at_def)
    then have "first_occurrence ys (x # xs) = None"
      using first_occurrence_least [of ys "x # xs"] by (cases "first_occurrence ys (x # xs)") (simp_all del: first_occurrence.simps)
    then show ?thesis using False by (simp add: strstr_loop.simps del: first_occurrence.simps)
  qed
qed

lemma strstr_str:
  assumes "str_at m a xs" "str_at m b ys"
  shows "strstr m a b = Some (map_option (\<lambda>i. a + i) (first_occurrence ys xs))"
proof (cases "ys = []")
  case True
  then have "first_occurrence ys xs = Some 0" by (cases xs) auto
  then show ?thesis using True strlen_str [OF assms(2)] by (simp add: strstr_def)
next
  case False
  then show ?thesis using strlen_str [OF assms(2)] strlen_str [OF assms(1)] strstr_loop_str [OF assms(2) False assms(1)]
    by (simp add: strstr_def)
qed

text \<open>\<^verbatim>\<open>strsep\<close> cuts the string at the first delimiter.\<close>

lemma str_at_cut:
  assumes "str_at m a xs" "k < length xs"
  shows "str_at (m[a + k := 0]) a (take k xs)" "str_at (m[a + k := 0]) (a + k + 1) (drop (Suc k) xs)"
proof -
  show "str_at (m[a + k := 0]) a (take k xs)"
    using assms str_at_bound [OF assms(1)] str_at_nth [OF assms(1)] str_at_nonzero [OF assms(1)]
    by (intro str_atI) (auto dest: in_set_takeD)
  have "str_at m (a + Suc k) (drop (Suc k) xs)" using assms by (intro str_at_drop) auto
  then have "str_at (m[a + k := 0]) (a + Suc k) (drop (Suc k) xs)" by (rule str_at_cong) auto
  then show "str_at (m[a + k := 0]) (a + k + 1) (drop (Suc k) xs)" by simp
qed

lemma str_at_outside: "str_at m b ys \<Longrightarrow> p < b \<or> b + length ys < p \<Longrightarrow> str_at (m[p := v]) b ys"
  by (erule str_at_cong) (auto simp: nth_list_update)

lemma first_in_less: "first_in A xs = Some k \<Longrightarrow> k < length xs"
  by (induction xs arbitrary: k) (auto split: if_splits)

lemma strsep_str:
  assumes "str_at m a xs" "str_at m b ys" "a + length xs < b \<or> b + length ys < a"
  shows "first_in (set ys) xs = None \<Longrightarrow> strsep m (Some a) b = Some (None, Some a, m)"
    "first_in (set ys) xs = Some k \<Longrightarrow>
      \<exists>m'. strsep m (Some a) b = Some (Some (a + k + 1), Some a, m') \<and> length m' = length m \<and> str_at m' a (take k xs) \<and>
        str_at m' (a + k + 1) (drop (Suc k) xs) \<and> str_at m' b ys \<and> (\<forall>p. p \<noteq> a + k \<longrightarrow> m' ! p = m ! p)"
proof -
  have p: "strpbrk m a b = Some (map_option (\<lambda>i. a + i) (first_in (set ys) xs))" by (rule strpbrk_str [OF assms(1,2)])
  show "first_in (set ys) xs = None \<Longrightarrow> strsep m (Some a) b = Some (None, Some a, m)" by (simp add: strsep_def p)
  assume k: "first_in (set ys) xs = Some k"
  then have "k < length xs" by (rule first_in_less)
  moreover from this have "strsep m (Some a) b = Some (Some (a + k + 1), Some a, m[a + k := 0])"
    using str_at_bound [OF assms(1)] by (simp add: strsep_def p k wr_def)
  ultimately show "\<exists>m'. strsep m (Some a) b = Some (Some (a + k + 1), Some a, m') \<and> length m' = length m \<and> str_at m' a (take k xs) \<and>
        str_at m' (a + k + 1) (drop (Suc k) xs) \<and> str_at m' b ys \<and> (\<forall>p. p \<noteq> a + k \<longrightarrow> m' ! p = m ! p)"
    using str_at_cut [OF assms(1)] str_at_outside [OF assms(2), of "a + k" 0] assms(3)
    by (intro exI [of _ "m[a + k := 0]"]) auto
qed

lemma strim_loop_str: "str_at m a xs \<Longrightarrow> n \<le> length xs \<Longrightarrow> strim_loop m a n = Some (length (dropWhile isspace (rev (take n xs))))"
proof (induction n)
  case (Suc n)
  then have "rd m (a + n) = Some (xs ! n)" "take (Suc n) xs = take n xs @ [xs ! n]"
    using str_at_nth [of m a xs n] str_at_bound [of m a xs] by (auto simp: rd_def take_Suc_conv_app_nth)
  then show ?case using Suc by simp
qed simp

lemma strim_str:
  assumes "str_at m a xs"
  shows "\<exists>p m'. strim m a = Some (p, m') \<and> length m' = length m \<and> str_at m' p (dropWhile isspace (rev (dropWhile isspace (rev xs)))) \<and>
    (\<forall>q. q < a \<or> a + length xs < q \<longrightarrow> m' ! q = m ! q)"
proof (cases "xs = []")
  case True
  then show ?thesis using assms strlen_str [OF assms] by (auto simp: strim_def)
next
  case False
  define k where "k = length (dropWhile isspace (rev xs))"
  define ts where "ts = rev (dropWhile isspace (rev xs))"
  have k: "k \<le> length xs" "ts = take k xs"
    unfolding k_def ts_def by (simp_all add: dropWhile_eq_drop rev_drop)
  have "strim_loop m a (length xs) = Some k" using strim_loop_str [OF assms, of "length xs"] by (simp add: k_def)
  then have st: "strim m a = do { p \<leftarrow> skip_spaces (m[a + k := 0]) a; Some (p, m[a + k := 0]) }"
    using False strlen_str [OF assms] k(1) str_at_bound [OF assms] by (simp add: strim_def wr_def)
  have ts: "str_at (m[a + k := 0]) a ts"
  proof (cases "k < length xs")
    case True
    then show ?thesis using str_at_cut(1) [OF assms] k(2) by simp
  next
    case f: False
    then have "m[a + k := 0] = m" using str_at_end [OF assms] k(1) by (metis le_neq_implies_less list_update_id)
    then show ?thesis using assms f k by simp
  qed
  have "str_at (m[a + k := 0]) (a + length (takeWhile isspace ts)) (dropWhile isspace ts)"
    using str_at_drop [OF ts, of "length (takeWhile isspace ts)"] by (simp add: length_takeWhile_le dropWhile_eq_drop)
  then show ?thesis using st skip_spaces_str [OF ts] k(1) by (auto simp: ts_def nth_list_update)
qed

text \<open>The tokens of a string, and a caller that calls \<^verbatim>\<open>strsep\<close> until it returns \<^verbatim>\<open>NULL\<close>, \<open>n\<close> times at most.\<close>

function tokens :: "u8 set \<Rightarrow> u8 list \<Rightarrow> u8 list list" where
  "tokens A xs = (case first_in A xs of None \<Rightarrow> [xs] | Some k \<Rightarrow> take k xs # tokens A (drop (Suc k) xs))"
  by pat_completeness auto
termination
  by (relation "measure (\<lambda>(A, xs). length xs)") (auto dest: first_in_less)

declare tokens.simps [simp del]

fun strsep_run :: "nat \<Rightarrow> mem \<Rightarrow> nat option \<Rightarrow> nat \<Rightarrow> (nat list \<times> mem) option" where
  "strsep_run 0 m s ct = None"
| "strsep_run (Suc n) m s ct = do {
     (s', tok, m) \<leftarrow> strsep m s ct;
     case tok of None \<Rightarrow> Some ([], m)
     | Some t \<Rightarrow> do { (ts, m) \<leftarrow> strsep_run n m s' ct; Some (t # ts, m) } }"

lemma strsep_run_tokens:
  assumes "str_at m a xs" "str_at m b ys" "a + length xs < b \<or> b + length ys < a" "length xs + 2 \<le> n"
  shows "\<exists>ts m'. strsep_run n m (Some a) b = Some (ts, m') \<and> length m' = length m \<and> list_all2 (str_at m') ts (tokens (set ys) xs) \<and>
    (\<forall>p. p < a \<or> a + length xs < p \<longrightarrow> m' ! p = m ! p)"
  using assms
proof (induction n arbitrary: m a xs)
  case (Suc n)
  show ?case
  proof (cases "first_in (set ys) xs")
    case None
    obtain n' where n: "n = Suc n'" using Suc.prems(4) by (cases n) auto
    have "strsep_run n m None b = Some ([], m)" by (simp add: n strsep_def)
    then have "strsep_run (Suc n) m (Some a) b = Some ([a], m)" using strsep_str(1) [OF Suc.prems(1-3) None] by simp
    then show ?thesis using None Suc.prems(1) by (simp add: tokens.simps)
  next
    case (Some k)
    have k: "k < length xs" by (rule first_in_less [OF Some])
    obtain m1 where m1: "strsep m (Some a) b = Some (Some (a + k + 1), Some a, m1)" "length m1 = length m" "str_at m1 a (take k xs)"
        "str_at m1 (a + k + 1) (drop (Suc k) xs)" "str_at m1 b ys" "\<forall>p. p \<noteq> a + k \<longrightarrow> m1 ! p = m ! p"
      using strsep_str(2) [OF Suc.prems(1-3) Some] by blast
    have e: "a + k + 1 + length (drop (Suc k) xs) = a + length xs" using k by simp
    obtain ts m' where r: "strsep_run n m1 (Some (a + k + 1)) b = Some (ts, m')" "length m' = length m1"
        "list_all2 (str_at m') ts (tokens (set ys) (drop (Suc k) xs))"
        "\<forall>p. p < a + k + 1 \<or> a + length xs < p \<longrightarrow> m' ! p = m1 ! p"
      using Suc.IH [OF m1(4,5)] Suc.prems(3,4) k unfolding e by fastforce
    have "str_at m' a (take k xs)" using m1(3) r(2,4) by (rule_tac str_at_cong) auto
    moreover have "\<forall>p. p < a \<or> a + length xs < p \<longrightarrow> m' ! p = m ! p" using r(4) m1(6) k by auto
    ultimately show ?thesis using r(1-3) m1(1,2) Some by (simp add: tokens.simps [of _ xs])
  qed
qed simp

text \<open>The tokens are the pieces between delimiters: put together with the delimiters they are the string.\<close>

primrec joined :: "u8 set \<Rightarrow> u8 list list \<Rightarrow> u8 list \<Rightarrow> bool" where
  "joined A [] xs \<longleftrightarrow> False"
| "joined A (t # ts) xs \<longleftrightarrow>
     set t \<inter> A = {} \<and> (if ts = [] then xs = t else \<exists>d rest. d \<in> A \<and> xs = t @ d # rest \<and> joined A ts rest)"

lemma first_in_split: "first_in A xs = Some k \<Longrightarrow> set (take k xs) \<inter> A = {} \<and> xs ! k \<in> A"
proof (induction xs arbitrary: k)
  case (Cons x xs)
  then show ?case by (auto split: if_splits)
qed simp

lemma first_in_None: "first_in A xs = None \<longleftrightarrow> set xs \<inter> A = {}"
  by (induction xs) auto

lemma tokens_joined: "joined A (tokens A xs) xs"
proof (induction A xs rule: tokens.induct)
  case (1 A xs)
  show ?case
  proof (cases "first_in A xs")
    case None
    then show ?thesis by (simp add: tokens.simps) (simp add: first_in_None)
  next
    case (Some k)
    have k: "k < length xs" by (rule first_in_less [OF Some])
    have "tokens A (drop (Suc k) xs) \<noteq> []" using 1 [OF Some] by (cases "tokens A (drop (Suc k) xs)") auto
    moreover have "xs = take k xs @ xs ! k # drop (Suc k) xs" using k by (rule id_take_nth_drop)
    ultimately show ?thesis using 1 [OF Some] first_in_split [OF Some]
      by (subst tokens.simps) (auto simp: Some intro!: exI [of _ "xs ! k"] exI [of _ "drop (Suc k) xs"])
  qed
qed

section \<open>Lemmas: copying\<close>

lemma store_Cons: "a < length m \<Longrightarrow> store (Suc a) bs (m[a := c]) = store a (c # bs) m"
  by (simp add: store_def take_Suc_conv_app_nth drop_update_cancel)

lemma store_snoc:
  assumes "a + length bs < length m"
  shows "store a bs (m[a + length bs := c]) = store a (bs @ [c]) m"
proof -
  have "drop (a + length bs) (m[a + length bs := c]) = c # drop (Suc (a + length bs)) m"
    using assms by (simp add: Cons_nth_drop_Suc [symmetric])
  then show ?thesis by (simp add: store_def)
qed

lemma load_update: "p < a \<or> a + n \<le> p \<Longrightarrow> load n a (m[p := v]) = load n a m"
  by (auto simp: load_def drop_update_swap drop_update_cancel)

lemma load_Suc: "a < length m \<Longrightarrow> load (Suc n) a m = m ! a # load n (Suc a) m"
  by (simp add: load_def Cons_nth_drop_Suc [symmetric])

lemma memcpy_forward:
  "dest + n \<le> length m \<Longrightarrow> src + n \<le> length m \<Longrightarrow> dest \<le> src \<or> src + n \<le> dest \<Longrightarrow>
   memcpy dest src n m = Some (store dest (load n src m) m)"
proof (induction n arbitrary: dest src m)
  case 0
  then show ?case by (simp add: load_def store_def)
next
  case (Suc n)
  then have "memcpy (dest + 1) (src + 1) n (m[dest := m ! src]) =
      Some (store (dest + 1) (load n (src + 1) (m[dest := m ! src])) (m[dest := m ! src]))"
    by (intro Suc.IH) auto
  moreover have "load n (src + 1) (m[dest := m ! src]) = load n (src + 1) m" using Suc.prems by (intro load_update) auto
  ultimately show ?case using Suc.prems by (simp add: rd_def wr_def store_Cons load_Suc)
qed

lemma memmove_backward:
  "dest + n \<le> length m \<Longrightarrow> src + n \<le> length m \<Longrightarrow> src \<le> dest \<Longrightarrow> memmove_down dest src n m = Some (store dest (load n src m) m)"
proof (induction n arbitrary: m)
  case 0
  then show ?case by (simp add: load_def store_def)
next
  case (Suc n)
  let ?m = "m[dest + n := m ! (src + n)]"
  have "memmove_down dest src n ?m = Some (store dest (load n src ?m) ?m)" using Suc.prems by (intro Suc.IH) auto
  moreover have "load n src ?m = load n src m" using Suc.prems by (intro load_update) auto
  moreover have "store dest (load n src m) ?m = store dest (load n src m @ [m ! (src + n)]) m"
    using store_snoc [of dest "load n src m" m] Suc.prems by simp
  moreover have "load (Suc n) src m = load n src m @ [m ! (src + n)]"
    using Suc.prems by (simp add: load_def take_Suc_conv_app_nth)
  ultimately show ?case using Suc.prems by (simp add: rd_def wr_def)
qed

lemma memset_store: "a + n \<le> length m \<Longrightarrow> memset a c n m = Some (store a (replicate n c) m)"
proof (induction n arbitrary: a m)
  case (Suc n)
  then show ?case using store_Cons [of a m "replicate n c" c] by (simp add: wr_def)
qed simp

end
