(* ===== verification/String_Copy.thy ===== *)
theory String_Copy
  imports String_Search
begin

text \<open>
  Facts on the functions of \<^verbatim>\<open>lib/string.c\<close> that copy, on those that work on words at a time, and the
  properties of the string functions.
\<close>

section \<open>Lemmas: copying strings\<close>

lemma store_update: "a + length bs < length m \<Longrightarrow> (store a bs m)[a + length bs := c] = store a (bs @ [c]) m"
  using store_snoc [of a bs m c] by (simp add: store_def list_update_append drop_update_swap)

lemma str_at_load: "str_at m a xs \<Longrightarrow> n \<le> length xs \<Longrightarrow> load n a m = take n xs"
  using str_at_nth [of m a xs] str_at_bound [of m a xs] by (intro nth_equalityI) (auto simp: nth_load)

lemma str_at_store: "a + length xs < length m \<Longrightarrow> 0 \<notin> set xs \<Longrightarrow> str_at (store a (xs @ [0]) m) a xs"
  by (intro str_atI) (auto simp: nth_store nth_append)

lemma strcpy_str:
  "str_at m src xs \<Longrightarrow> dest + length xs < length m \<Longrightarrow> dest + length xs < src \<or> src + length xs < dest \<Longrightarrow>
   strcpy dest src m = Some (store dest (xs @ [0]) m)"
proof (induction xs arbitrary: dest src m)
  case Nil
  then show ?case using store_Cons [of dest m "[]" 0] by (simp add: strcpy.simps [of dest src] wr_def)
next
  case (Cons x xs)
  have "str_at (m[dest := x]) (src + 1) xs" using Cons.prems by (intro str_at_outside) auto
  then have "strcpy (dest + 1) (src + 1) (m[dest := x]) = Some (store (dest + 1) (xs @ [0]) (m[dest := x]))"
    using Cons.prems by (intro Cons.IH) auto
  then show ?case using Cons.prems by (simp add: strcpy.simps [of dest src] wr_def store_Cons)
qed

lemma strncpy_str:
  "str_at m src xs \<Longrightarrow> dest + n \<le> length m \<Longrightarrow> dest + n \<le> src \<or> src + length xs < dest \<Longrightarrow>
   strncpy dest src n m = Some (store dest (take n (xs @ replicate n 0)) m)"
proof (induction n arbitrary: dest src xs m)
  case (Suc n)
  obtain x src' xs' where x: "rd m src = Some x" "src' = (if x \<noteq> 0 then src + 1 else src)" "str_at m src' xs'"
      "take (Suc n) (xs @ replicate (Suc n) 0) = x # take n (xs' @ replicate n 0)" "src \<le> src'" "src' + length xs' = src + length xs"
    using Suc.prems(1) by (cases xs) (auto simp flip: replicate_Suc)
  have "str_at (m[dest := x]) src' xs'" using x(3,5,6) Suc.prems(3) by (intro str_at_outside) auto
  then have "strncpy (dest + 1) src' n (m[dest := x]) = Some (store (dest + 1) (take n (xs' @ replicate n 0)) (m[dest := x]))"
    using Suc.prems(2,3) x(5,6) by (intro Suc.IH) auto
  then show ?case using Suc.prems(2) x(1,2,4) by (simp add: wr_def store_Cons)
qed simp

text \<open>A bounded copy: the characters that fit, then the terminator.\<close>

lemma copy_then_terminate:
  assumes "str_at m src xs" "k \<le> length xs" "dest + k < length m" "dest + k < src \<or> src + length xs < dest"
  shows "do { m \<leftarrow> memcpy dest src k m; wr (dest + k) 0 m } = Some (store dest (take k xs @ [0]) m)"
proof -
  have b: "src + k \<le> length m" using str_at_bound [OF assms(1)] assms(2) by simp
  have l: "length (take k xs) = k" using assms(2) by simp
  have "memcpy dest src k m = Some (store dest (take k xs) m)"
    using memcpy_forward [of dest k m src] str_at_load [OF assms(1,2)] assms b by auto
  moreover have "(store dest (take k xs) m)[dest + k := 0] = store dest (take k xs @ [0]) m"
    using store_update [of dest "take k xs" m 0] assms(3) unfolding l by simp
  ultimately show ?thesis using assms(3) l by (simp add: wr_def)
qed

lemma strlcpy_str:
  assumes "str_at m src xs" "0 < n" "dest + n \<le> length m" "dest + n \<le> src \<or> src + length xs < dest"
  shows "strlcpy dest src n m = Some (length xs, store dest (take (n - 1) xs @ [0]) m)"
proof -
  let ?k = "if length xs \<ge> n then n - 1 else length xs"
  have "do { m \<leftarrow> memcpy dest src ?k m; wr (dest + ?k) 0 m } = Some (store dest (take ?k xs @ [0]) m)"
    using assms by (intro copy_then_terminate) auto
  moreover have "take ?k xs = take (n - 1) xs" by auto
  ultimately show ?thesis using assms(2) strlen_str [OF assms(1)] by (auto simp: strlcpy_def Let_def bind_eq_Some_conv)
qed

lemma strcat_str:
  assumes "str_at m dest ds" "str_at m src xs" "dest + length ds + length xs < length m"
    "dest + length ds + length xs < src \<or> src + length xs < dest"
  shows "strcat dest src m = Some (store (dest + length ds) (xs @ [0]) m)"
  using assms strlen_loop_str [OF assms(1)] strcpy_str [OF assms(2), of "dest + length ds"] by (auto simp: strcat_def)

lemma strlcat_str:
  assumes "str_at m dest ds" "str_at m src xs" "dest + n \<le> length m" "length ds < n" "dest + n \<le> src \<or> src + length xs < dest"
  shows "strlcat dest src n m = Some (length ds + length xs, store (dest + length ds) (take (n - length ds - 1) xs @ [0]) m)"
proof -
  let ?r = "n - length ds" and ?d = "dest + length ds"
  let ?k = "if length xs \<ge> ?r then ?r - 1 else length xs"
  have "do { m \<leftarrow> memcpy ?d src ?k m; wr (?d + ?k) 0 m } = Some (store ?d (take ?k xs @ [0]) m)"
    using assms by (intro copy_then_terminate) auto
  moreover have "take ?k xs = take (?r - 1) xs" by auto
  ultimately show ?thesis using assms(4) strlen_str [OF assms(1)] strlen_str [OF assms(2)]
    by (auto simp: strlcat_def Let_def bind_eq_Some_conv)
qed

lemma strncat_loop_str:
  "str_at m src xs \<Longrightarrow> 0 < n \<Longrightarrow> dest + min n (length xs) < length m \<Longrightarrow> dest + min n (length xs) < src \<or> src + length xs < dest \<Longrightarrow>
   strncat_loop dest src n m = Some (store dest (take n xs @ [0]) m)"
proof (induction n arbitrary: dest src xs m)
  case (Suc n)
  show ?case
  proof (cases xs)
    case Nil
    then show ?thesis using Suc.prems store_Cons [of dest m "[]" 0] by (simp add: wr_def)
  next
    case (Cons x xs')
    then have o: "str_at (m[dest := x]) (src + 1) xs'" using Suc.prems by (intro str_at_outside) auto
    show ?thesis
    proof (cases "n = 0")
      case True
      then show ?thesis using Cons Suc.prems store_Cons [of dest m "[0]" x] store_Cons [of "dest + 1" "m[dest := x]" "[]" 0]
        by (simp add: wr_def)
    next
      case False
      then have "strncat_loop (dest + 1) (src + 1) n (m[dest := x]) = Some (store (dest + 1) (take n xs' @ [0]) (m[dest := x]))"
        using Suc.prems Cons o by (intro Suc.IH) auto
      then show ?thesis using Cons Suc.prems False by (simp add: wr_def store_Cons)
    qed
  qed
qed simp

lemma strreplace_str:
  "str_at m a xs \<Longrightarrow> strreplace a old new m = Some (a + length xs, store a (map (\<lambda>c. if c = old then new else c) xs) m)"
proof (induction xs arbitrary: a m)
  case (Cons x xs)
  let ?m = "if x = old then m[a := new] else m"
  have a: "a < length m" "m ! a = x" using Cons.prems by (auto simp: rd_Some_iff)
  have "str_at ?m (a + 1) xs" using Cons.prems str_at_outside [of m "a + 1" xs a new] by auto
  then have "strreplace (a + 1) old new ?m = Some (a + 1 + length xs, store (a + 1) (map (\<lambda>c. if c = old then new else c) xs) ?m)"
    by (rule Cons.IH)
  moreover have "?m = m[a := if x = old then new else x]" using a by auto
  ultimately show ?case using Cons.prems a store_Cons [OF a(1)] by (simp add: strreplace.simps [of a old new m])
qed (simp add: strreplace.simps)

section \<open>Lemmas: words at a time\<close>

lemma bit_cat_byte: "bit (cat_byte b h :: 'a::len word) i \<longleftrightarrow> i < LENGTH('a) \<and> (if i < 8 then bit b i else bit h (i - 8))"
  by (auto simp: cat_byte_def bit_or_iff bit_push_bit_iff bit_ucast_iff dest: bit_imp_le_length)

lemma cat_byte_sum: "cat_byte b h = ucast b + 256 * (h :: u32)"
proof -
  have "cat_byte b h = ucast b + push_bit 8 h"
    unfolding cat_byte_def by (rule disjunctive_add [symmetric]) (auto simp: bit_push_bit_iff bit_ucast_iff dest: bit_imp_le_length)
  then show ?thesis by (simp add: push_bit_eq_mult)
qed

lemma ucast_minus_one: "b \<noteq> 0 \<Longrightarrow> ucast (b - 1) = (ucast b - 1 :: u32)" for b :: u8
proof -
  assume b: "b \<noteq> 0"
  then have "unat (b - 1) = unat b - 1" by (rule unat_minus_one)
  moreover have "unat b \<noteq> 0" using b by (simp add: unat_eq_zero)
  ultimately have "of_nat (unat (b - 1)) = (of_nat (unat b) - 1 :: u32)" by (simp add: of_nat_diff del: of_nat_unat)
  then show ?thesis unfolding of_nat_unat .
qed

lemma word_borrow:
  fixes x h o' :: u32
  shows "(x + 256 * h) - (1 + 256 * o') = (x - 1) + 256 * (h - o')"
    "256 * h - (1 + 256 * o') = 255 + 256 * (h - o' - 1)" "256 * h - 1 = 255 + 256 * (h - 1)"
  by (simp_all add: right_diff_distrib)

text \<open>The test word of a word made of a byte and the rest.\<close>

definition zero_test :: "u32 \<Rightarrow> u32 \<Rightarrow> u32 \<Rightarrow> u32" where
  "zero_test h o' hi = ((h - o') AND NOT h) AND hi"

lemma cat_byte_and: "(cat_byte x y AND NOT (cat_byte b h)) AND cat_byte c hi = cat_byte ((x AND NOT b) AND c) ((y AND NOT h) AND hi :: u32)"
  by (rule bit_word_eqI) (auto simp: bit_cat_byte bit_and_iff bit_not_iff)

lemma cat_byte_and_not: "cat_byte x y AND NOT (cat_byte b h) = cat_byte (x AND NOT b) (y AND NOT h :: u32)"
  by (rule bit_word_eqI) (auto simp: bit_cat_byte bit_and_iff bit_not_iff)

lemma byte_minus_one_high: "b \<noteq> 0 \<Longrightarrow> ((b - 1) AND NOT b) AND 0x80 = (0 :: u8)"
proof -
  have "b \<noteq> 0 \<longrightarrow> ((b - 1) AND NOT b) AND 0x80 = 0" by (rule table_lookup [of "\<lambda>b _. b \<noteq> 0 \<longrightarrow> ((b - 1) AND NOT b) AND 0x80 = 0"]) code_simp
  then show "b \<noteq> 0 \<Longrightarrow> ?thesis" by blast
qed

lemma zero_test_nonzero:
  assumes "b \<noteq> 0"
  shows "zero_test (cat_byte b h) (1 + 256 * o') (cat_byte 0x80 hi) = cat_byte 0 (zero_test h o' hi)"
proof -
  have "cat_byte b h - (1 + 256 * o') = cat_byte (b - 1) (h - o')"
    unfolding cat_byte_sum ucast_minus_one [OF assms] by (rule word_borrow)
  then show ?thesis by (simp add: zero_test_def cat_byte_and byte_minus_one_high [OF assms])
qed

lemma zero_test_zero: "\<exists>y. zero_test (cat_byte 0 h) (1 + 256 * o') (cat_byte 0x80 hi) = cat_byte 0x80 y"
proof -
  have "cat_byte 0 h - (1 + 256 * o') = cat_byte 0xff (h - o' - 1)" using word_borrow(2) [of h o'] by (simp add: cat_byte_sum)
  then show ?thesis by (auto simp: zero_test_def cat_byte_and)
qed

lemma low_mask_zero: "(cat_byte 0 z - 1) AND NOT (cat_byte 0 z) = cat_byte 0xff ((z - 1) AND NOT (z :: u32))"
proof -
  have "cat_byte 0 z - 1 = cat_byte 0xff (z - 1)" using word_borrow(3) [of z] by (simp add: cat_byte_sum)
  then show ?thesis by (simp add: cat_byte_and_not)
qed

lemma low_mask_high: "(cat_byte 0x80 z - 1) AND NOT (cat_byte 0x80 z) = (0x7f :: u32)"
proof -
  have "cat_byte 0x80 z - 1 = cat_byte 0x7f z" by (simp add: cat_byte_sum)
  then have "(cat_byte 0x80 z - 1) AND NOT (cat_byte 0x80 z) = cat_byte 0x7f 0" by (simp add: cat_byte_and_not)
  then show ?thesis by (simp add: cat_byte_sum)
qed

lemma of_bytes_simps: "of_bytes [] = 0" "of_bytes (b # bs) = cat_byte b (of_bytes bs)"
  by (simp_all add: of_bytes_def)

lemma cat_byte_both: "cat_byte x y AND cat_byte b h = cat_byte (x AND b) (y AND h :: u32)"
  by (rule bit_word_eqI) (auto simp: bit_cat_byte bit_and_iff)

lemma ucast_cat_byte: "ucast (cat_byte b h :: u32) = b"
  by (rule bit_word_eqI) (auto simp: bit_cat_byte bit_ucast_iff)

lemma drop_bit_cat_byte:
  "drop_bit 8 (cat_byte b h :: u32) = take_bit 24 h"
  "drop_bit 16 (cat_byte b (cat_byte c h) :: u32) = take_bit 16 h"
  "drop_bit 24 (cat_byte b (cat_byte c (cat_byte d h)) :: u32) = take_bit 8 h"
  by (rule bit_word_eqI; auto simp: bit_cat_byte bit_drop_bit_eq bit_take_bit_iff)+

lemma ucast_take_bit: "8 \<le> n \<Longrightarrow> ucast (take_bit n (w :: u32)) = (ucast w :: u8)"
  by (rule bit_word_eqI) (auto simp: bit_ucast_iff bit_take_bit_iff)

lemma to_of_bytes: "to_bytes (of_bytes [a, b, c, d]) = [a, b, c, d]"
  by (simp add: to_bytes_def of_bytes_simps ucast_cat_byte drop_bit_cat_byte ucast_take_bit)

lemma one_bits_eq: "one_bits = 1 + 256 * (1 + 256 * (1 + 256 * (1 + 256 * 0)))"
  by (simp add: one_bits_def)

lemma high_bits_eq: "high_bits = cat_byte 0x80 (cat_byte 0x80 (cat_byte 0x80 (cat_byte 0x80 0)))"
  by (simp add: high_bits_def cat_byte_sum)

lemma byte_masks:
  "0xff = (cat_byte 0xff 0 :: u32)" "0xffff = (cat_byte 0xff (cat_byte 0xff 0) :: u32)"
  "0xffffff = (cat_byte 0xff (cat_byte 0xff (cat_byte 0xff 0)) :: u32)" "cat_byte 0 0 = (0 :: u32)"
  by (simp_all add: cat_byte_sum)

lemma byte_and_full: "b AND 0xff = (b :: u8)"
  by (rule table_lookup [of "\<lambda>b _. b AND 0xff = b"]) code_simp

lemma fls_byte_masks: "fls 0 = 0" "fls 0xff = 8" "fls 0xffff = 16" "fls 0xffffff = 24"
  by code_simp+

text \<open>The word holds a zero byte exactly if the test says so, and then the mask selects the bytes in front of the first one.\<close>

lemma has_zero_none:
  assumes "a \<noteq> 0" "b \<noteq> 0" "c \<noteq> 0" "d \<noteq> 0"
  shows "has_zero (of_bytes [a, b, c, d]) = 0"
  unfolding has_zero_def zero_test_def [symmetric] one_bits_eq high_bits_eq of_bytes_simps zero_test_nonzero [OF assms(1)]
    zero_test_nonzero [OF assms(2)] zero_test_nonzero [OF assms(3)] zero_test_nonzero [OF assms(4)]
  by (simp add: zero_test_def byte_masks(4))

lemma has_zero_first:
  "\<exists>y. has_zero (of_bytes [0, b, c, d]) = cat_byte 0x80 y"
  "a \<noteq> 0 \<Longrightarrow> \<exists>y. has_zero (of_bytes [a, 0, c, d]) = cat_byte 0 (cat_byte 0x80 y)"
  "a \<noteq> 0 \<Longrightarrow> b \<noteq> 0 \<Longrightarrow> \<exists>y. has_zero (of_bytes [a, b, 0, d]) = cat_byte 0 (cat_byte 0 (cat_byte 0x80 y))"
  "a \<noteq> 0 \<Longrightarrow> b \<noteq> 0 \<Longrightarrow> c \<noteq> 0 \<Longrightarrow> \<exists>y. has_zero (of_bytes [a, b, c, 0]) = cat_byte 0 (cat_byte 0 (cat_byte 0 (cat_byte 0x80 y)))"
proof -
  note defs = has_zero_def zero_test_def [symmetric] one_bits_eq high_bits_eq of_bytes_simps
  show "\<exists>y. has_zero (of_bytes [0, b, c, d]) = cat_byte 0x80 y" unfolding defs by (rule zero_test_zero)
  assume a: "a \<noteq> 0"
  show "\<exists>y. has_zero (of_bytes [a, 0, c, d]) = cat_byte 0 (cat_byte 0x80 y)"
    unfolding defs zero_test_nonzero [OF a] using zero_test_zero by metis
  assume b: "b \<noteq> 0"
  show "\<exists>y. has_zero (of_bytes [a, b, 0, d]) = cat_byte 0 (cat_byte 0 (cat_byte 0x80 y))"
    unfolding defs zero_test_nonzero [OF a] zero_test_nonzero [OF b] using zero_test_zero by metis
  assume c: "c \<noteq> 0"
  show "\<exists>y. has_zero (of_bytes [a, b, c, 0]) = cat_byte 0 (cat_byte 0 (cat_byte 0 (cat_byte 0x80 y)))"
    unfolding defs zero_test_nonzero [OF a] zero_test_nonzero [OF b] zero_test_nonzero [OF c] using zero_test_zero by metis
qed

lemma create_zero_mask_eq:
  "create_zero_mask (cat_byte 0x80 y) = 0" "create_zero_mask (cat_byte 0 (cat_byte 0x80 y)) = 0xff"
  "create_zero_mask (cat_byte 0 (cat_byte 0 (cat_byte 0x80 y))) = 0xffff"
  "create_zero_mask (cat_byte 0 (cat_byte 0 (cat_byte 0 (cat_byte 0x80 y)))) = 0xffffff"
  unfolding create_zero_mask_def low_mask_zero low_mask_high by (simp_all add: cat_byte_sum)

lemma cat_byte_high_nonzero:
  "cat_byte 0x80 y \<noteq> (0 :: u32)" "cat_byte 0 (cat_byte 0x80 y) \<noteq> (0 :: u32)" "cat_byte 0 (cat_byte 0 (cat_byte 0x80 y)) \<noteq> (0 :: u32)"
  "cat_byte 0 (cat_byte 0 (cat_byte 0 (cat_byte 0x80 y))) \<noteq> (0 :: u32)"
proof -
  have "bit (cat_byte 0x80 y :: u32) 7" "bit (cat_byte 0 (cat_byte 0x80 y) :: u32) 15"
    "bit (cat_byte 0 (cat_byte 0 (cat_byte 0x80 y)) :: u32) 23" "bit (cat_byte 0 (cat_byte 0 (cat_byte 0 (cat_byte 0x80 y))) :: u32) 31"
    by (simp_all add: bit_cat_byte)
  then show "cat_byte 0x80 y \<noteq> (0 :: u32)" "cat_byte 0 (cat_byte 0x80 y) \<noteq> (0 :: u32)"
    "cat_byte 0 (cat_byte 0 (cat_byte 0x80 y)) \<noteq> (0 :: u32)"
    "cat_byte 0 (cat_byte 0 (cat_byte 0 (cat_byte 0x80 y))) \<noteq> (0 :: u32)" by (metis bit_0_eq bot_apply bot_bool_def)+
qed

lemma word_at_a_time:
  fixes bs :: "u8 list"
  assumes "length bs = 4"
  defines "c \<equiv> of_bytes bs" and "k \<equiv> length (takeWhile (\<lambda>b. b \<noteq> 0) bs)"
  shows "has_zero c = 0 \<longleftrightarrow> 0 \<notin> set bs" "0 \<notin> set bs \<Longrightarrow> to_bytes c = bs"
    "0 \<in> set bs \<Longrightarrow> find_zero (create_zero_mask (has_zero c)) = k"
    "0 \<in> set bs \<Longrightarrow> to_bytes (c AND create_zero_mask (has_zero c)) = take k bs @ replicate (4 - k) 0"
proof -
  obtain b0 b1 b2 b3 where bs: "bs = [b0, b1, b2, b3]" using assms(1) by (auto simp: length_Suc_conv numeral_eq_Suc)
  show "to_bytes c = bs" by (simp add: c_def bs to_of_bytes)
  have and_mask: "to_bytes 0 = [0, 0, 0, 0]" "to_bytes (c AND 0xff) = [b0, 0, 0, 0]" "to_bytes (c AND 0xffff) = [b0, b1, 0, 0]"
    "to_bytes (c AND 0xffffff) = [b0, b1, b2, 0]"
    using to_of_bytes [of 0 0 0 0] to_of_bytes [of b0 0 0 0] to_of_bytes [of b0 b1 0 0] to_of_bytes [of b0 b1 b2 0]
    unfolding c_def bs of_bytes_simps byte_masks(1-3) cat_byte_both by (simp_all add: byte_masks(4) byte_and_full)
  have rep: "replicate 4 0 = [0, 0, 0, 0 :: u8]" "replicate 3 0 = [0, 0, 0 :: u8]" "replicate 2 0 = [0, 0 :: u8]"
    by (simp_all add: numeral_eq_Suc)
  note res = create_zero_mask_eq cat_byte_high_nonzero fls_byte_masks find_zero_def and_mask rep
  consider "0 \<notin> set bs" | "b0 = 0" | "b0 \<noteq> 0" "b1 = 0" | "b0 \<noteq> 0" "b1 \<noteq> 0" "b2 = 0" | "b0 \<noteq> 0" "b1 \<noteq> 0" "b2 \<noteq> 0" "b3 = 0"
    using bs by auto
  then have "(has_zero c = 0 \<longleftrightarrow> 0 \<notin> set bs) \<and> (0 \<in> set bs \<longrightarrow> find_zero (create_zero_mask (has_zero c)) = k \<and>
      to_bytes (c AND create_zero_mask (has_zero c)) = take k bs @ replicate (4 - k) 0)"
  proof cases
    case 1
    then show ?thesis using has_zero_none [of b0 b1 b2 b3] by (simp add: c_def bs)
  next
    case 2
    obtain y where "has_zero c = cat_byte 0x80 y" using has_zero_first(1) 2 unfolding c_def bs by blast
    then show ?thesis using 2 by (simp add: res k_def bs)
  next
    case 3
    obtain y where "has_zero c = cat_byte 0 (cat_byte 0x80 y)" using has_zero_first(2) 3 unfolding c_def bs by blast
    then show ?thesis using 3 by (simp add: res k_def bs)
  next
    case 4
    obtain y where "has_zero c = cat_byte 0 (cat_byte 0 (cat_byte 0x80 y))" using has_zero_first(3) 4 unfolding c_def bs by blast
    then show ?thesis using 4 by (simp add: res k_def bs)
  next
    case 5
    obtain y where "has_zero c = cat_byte 0 (cat_byte 0 (cat_byte 0 (cat_byte 0x80 y)))" using has_zero_first(4) 5 unfolding c_def bs by blast
    then show ?thesis using 5 by (simp add: res k_def bs)
  qed
  then show "has_zero c = 0 \<longleftrightarrow> 0 \<notin> set bs" "0 \<in> set bs \<Longrightarrow> find_zero (create_zero_mask (has_zero c)) = k"
    "0 \<in> set bs \<Longrightarrow> to_bytes (c AND create_zero_mask (has_zero c)) = take k bs @ replicate (4 - k) 0" by blast+
qed

section \<open>Lemmas: bounded copies\<close>

text \<open>What a bounded copy of \<open>xs\<close> into \<open>n\<close> bytes leaves behind, and the state after \<open>i\<close> characters.\<close>

definition copy_result :: "mem \<Rightarrow> nat \<Rightarrow> nat \<Rightarrow> u8 list \<Rightarrow> mem \<Rightarrow> bool" where
  "copy_result m dest n xs m' \<longleftrightarrow>
     length m' = length m \<and> str_at m' dest (take (n - 1) xs) \<and> (\<forall>p < length m. p < dest \<or> dest + n \<le> p \<longrightarrow> m' ! p = m ! p)"

definition copied :: "mem \<Rightarrow> nat \<Rightarrow> nat \<Rightarrow> u8 list \<Rightarrow> nat \<Rightarrow> mem \<Rightarrow> bool" where
  "copied m dest n xs i m' \<longleftrightarrow>
     length m' = length m \<and> i \<le> length xs \<and> i \<le> n \<and> (\<forall>j < i. m' ! (dest + j) = xs ! j) \<and>
     (\<forall>p < length m. p < dest \<or> dest + n \<le> p \<longrightarrow> m' ! p = m ! p)"

definition apart :: "nat \<Rightarrow> nat \<Rightarrow> nat \<Rightarrow> u8 list \<Rightarrow> bool" where
  "apart dest n src xs \<longleftrightarrow> dest + n \<le> src \<or> src + length xs < dest"

lemma copied_src: "copied m dest n xs i m' \<Longrightarrow> str_at m src xs \<Longrightarrow> apart dest n src xs \<Longrightarrow> str_at m' src xs"
  using str_at_bound [of m src xs] by (auto simp: copied_def apart_def intro: str_at_cong)

lemma copied_store:
  assumes "copied m dest n xs i m'" "dest + n \<le> length m" "i + length bs \<le> n" "bs = take (length bs) (drop i xs)"
  shows "copied m dest n xs (i + length bs) (store (dest + i) bs m')"
proof -
  have l: "i + length bs \<le> length xs" using arg_cong [OF assms(4), of length] assms(1) by (auto simp: copied_def)
  have "bs ! k = xs ! (i + k)" if "k < length bs" for k using that l by (subst assms(4)) simp
  then have "store (dest + i) bs m' ! (dest + j) = xs ! j" if "j < i + length bs" for j
    using that assms(1-3) by (auto simp: nth_store copied_def)
  moreover have "store (dest + i) bs m' ! p = m ! p" if "p < length m" "p < dest \<or> dest + n \<le> p" for p
    using that assms(1-3) by (auto simp: nth_store copied_def)
  ultimately show ?thesis using assms(1-3) l by (auto simp: copied_def)
qed

lemma copied_byte:
  assumes "copied m dest n xs i m'" "dest + n \<le> length m" "i < n" "i < length xs"
  shows "copied m dest n xs (Suc i) (m'[dest + i := xs ! i])"
  using assms by (auto simp: copied_def nth_list_update less_Suc_eq)

text \<open>The two ends of a copy: the whole string fits, or its first \<open>n - 1\<close> characters are kept.\<close>

lemma copied_fits:
  assumes "copied m dest n xs (length xs) m'" "dest + n \<le> length m" "length xs + length zs \<le> n" "zs \<noteq> []" "hd zs = 0" "0 \<notin> set xs"
  shows "copy_result m dest n xs (store (dest + length xs) zs m')"
proof -
  let ?m = "store (dest + length xs) zs m'"
  have z: "zs ! 0 = 0" "0 < length zs" using assms(4,5) by (simp_all add: hd_conv_nth)
  have "length m' = length m" using assms(1) by (simp add: copied_def)
  then have l: "dest + length xs < length m'" using z(2) assms(2,3) by linarith
  have n: "?m ! p = (if dest + length xs \<le> p \<and> p < dest + length xs + length zs then zs ! (p - (dest + length xs)) else m' ! p)"
    if "p < length m'" for p using that assms(1-3) by (intro nth_store) (auto simp: copied_def)
  have "str_at ?m dest xs"
  proof (rule str_atI)
    show "dest + length xs < length ?m" using l assms(1-3) by (simp add: copied_def)
    show "?m ! (dest + length xs) = 0" using n [OF l] z by simp
    show "?m ! (dest + i) = xs ! i" if "i < length xs" for i using n [of "dest + i"] l that assms(1) by (simp add: copied_def)
  qed (rule assms(6))
  moreover have "take (n - 1) xs = xs" using assms(3,4) by (cases zs) auto
  moreover have "?m ! p = m ! p" if "p < length m" "p < dest \<or> dest + n \<le> p" for p
    using that assms(1-3) by (auto simp: nth_store copied_def)
  ultimately show ?thesis using assms(1-3) by (auto simp: copy_result_def copied_def)
qed

lemma copied_full:
  assumes "copied m dest n xs n m'" "dest + n \<le> length m" "0 < n" "0 \<notin> set xs"
  shows "copy_result m dest n xs (m'[dest + n - 1 := 0])"
proof -
  have "str_at (m'[dest + n - 1 := 0]) dest (take (n - 1) xs)"
    using assms by (intro str_atI) (auto simp: copied_def nth_list_update dest: in_set_takeD)
  moreover have "(m'[dest + n - 1 := 0]) ! p = m ! p" if "p < length m" "p < dest \<or> dest + n \<le> p" for p
    using that assms(1,3) by (auto simp: copied_def nth_list_update)
  ultimately show ?thesis using assms(1) by (auto simp: copy_result_def copied_def)
qed

lemma strscpy_bytes_str:
  assumes "str_at m src xs" "apart dest n src xs" "dest + n \<le> length m" "0 < n"
  shows "copied m dest n xs i m' \<Longrightarrow> i + cnt = n \<Longrightarrow>
    \<exists>m''. strscpy_bytes dest src i cnt m' = Some (if length xs < n then int (length xs) else - E2BIG, m'') \<and> copy_result m dest n xs m''"
proof (induction cnt arbitrary: i m')
  case 0
  then have "length xs \<ge> n" "copied m dest n xs n m'" by (auto simp: copied_def)
  then show ?case using 0 assms(3,4) copied_full [OF _ assms(3,4) str_at_nonzero [OF assms(1)]] by (auto simp: wr_def copied_def)
next
  case (Suc cnt)
  have s: "str_at m' src xs" by (rule copied_src [OF Suc.prems(1) assms(1,2)])
  have w: "dest + i < length m'" using Suc.prems assms(3) by (auto simp: copied_def)
  show ?case
  proof (cases "i = length xs")
    case True
    have "copy_result m dest n xs (store (dest + length xs) [0] m')"
      using Suc.prems True assms(3) str_at_nonzero [OF assms(1)] by (intro copied_fits) auto
    moreover have "store (dest + length xs) [0] m' = m'[dest + i := 0]" using store_Cons [OF w, of "[]" 0] True by simp
    ultimately show ?thesis using True Suc.prems(2) str_at_end [OF s] str_at_bound [OF s] w by (auto simp: rd_def wr_def)
  next
    case False
    then have i: "i < length xs" using Suc.prems(1) by (simp add: copied_def)
    then have r: "rd m' (src + i) = Some (xs ! i)" using str_at_nth [OF s] str_at_bound [OF s] by (simp add: rd_def)
    have nz: "xs ! i \<noteq> 0" using str_at_nonzero [OF s] nth_mem [OF i] by metis
    have "copied m dest n xs (Suc i) (m'[dest + i := xs ! i])" using Suc.prems i assms(3) by (intro copied_byte) auto
    from Suc.IH [OF this] show ?thesis using Suc.prems(2) r nz w by (simp add: wr_def)
  qed
qed

lemma first_zero:
  assumes "str_at m a xs" "i \<le> length xs" "a + i + 4 \<le> length m"
  shows "0 \<notin> set (load 4 (a + i) m) \<Longrightarrow> i + 4 \<le> length xs \<and> load 4 (a + i) m = take 4 (drop i xs)"
    "0 \<in> set (load 4 (a + i) m) \<Longrightarrow> length (takeWhile (\<lambda>b. b \<noteq> 0) (load 4 (a + i) m)) = length xs - i \<and> length xs < i + 4 \<and>
      take (length xs - i) (load 4 (a + i) m) = drop i xs"
proof -
  let ?b = "load 4 (a + i) m"
  have d: "str_at m (a + i) (drop i xs)" by (rule str_at_drop [OF assms(1,2)])
  have b: "?b ! j = m ! (a + i + j)" if "j < 4" for j using that assms(3) by (simp add: nth_load)
  have pre: "?b ! j = drop i xs ! j" if "j < 4" "j < length xs - i" for j
    using that b str_at_nth [OF d, of j] by simp
  have z: "?b ! (length xs - i) = 0" if "length xs - i < 4" using that b str_at_end [OF d] by simp
  show "i + 4 \<le> length xs \<and> ?b = take 4 (drop i xs)" if n: "0 \<notin> set ?b"
  proof -
    have "\<not> length xs - i < 4" using z n assms(3) by (metis length_load nth_mem)
    then have l: "i + 4 \<le> length xs" by simp
    then show ?thesis using assms(3) pre by (auto intro!: nth_equalityI)
  qed
  show "length (takeWhile (\<lambda>b. b \<noteq> 0) ?b) = length xs - i \<and> length xs < i + 4 \<and> take (length xs - i) ?b = drop i xs" if n: "0 \<in> set ?b"
  proof -
    have nz: "0 \<notin> set (drop i xs)" by (rule str_at_nonzero [OF d])
    have l: "length xs < i + 4"
    proof (rule ccontr)
      assume "\<not> length xs < i + 4"
      then have "?b = take 4 (drop i xs)" using assms(3) pre by (auto intro!: nth_equalityI)
      then show False using n nz by (auto dest: in_set_takeD)
    qed
    then have t: "take (length xs - i) ?b = drop i xs" using assms(2,3) pre by (intro nth_equalityI) auto
    have "?b = drop i xs @ 0 # drop (Suc (length xs - i)) ?b"
      using id_take_nth_drop [of "length xs - i" ?b] l assms(2,3) z t by simp
    then have "takeWhile (\<lambda>b. b \<noteq> 0) ?b = drop i xs"
      using nz by (metis (mono_tags, lifting) takeWhile_append2 takeWhile.simps(2) append_Nil2)
    then show ?thesis using l t by simp
  qed
qed

lemma store_store: "a + length bs \<le> length m \<Longrightarrow> store (a + length bs) cs (store a bs m) = store a (bs @ cs) m"
  by (simp add: store_def ac_simps)

text \<open>The word with the terminator: the rest of the string, then zeros.\<close>

lemma copied_last_word:
  assumes "copied m dest n xs i m'" "dest + n \<le> length m" "i + 4 \<le> n" "length xs < i + 4" "0 \<notin> set xs"
  shows "copy_result m dest n xs (store (dest + i) (drop i xs @ replicate (4 - (length xs - i)) 0) m')"
proof -
  have i: "i \<le> length xs" "length m' = length m" using assms(1) by (simp_all add: copied_def)
  have "copied m dest n xs (i + length (drop i xs)) (store (dest + i) (drop i xs) m')"
    using assms by (intro copied_store) auto
  then have "copied m dest n xs (length xs) (store (dest + i) (drop i xs) m')" using i by simp
  then have "copy_result m dest n xs (store (dest + length xs) (replicate (4 - (length xs - i)) 0) (store (dest + i) (drop i xs) m'))"
    using assms i by (intro copied_fits) auto
  then show ?thesis using store_store [of "dest + i" "drop i xs" m' "replicate (4 - (length xs - i)) 0"] assms(2-4) i by simp
qed

lemma strscpy_words_str:
  assumes "str_at m src xs" "apart dest n src xs" "dest + n \<le> length m" "0 < n" "4 dvd length m"
  shows "copied m dest n xs i m' \<Longrightarrow> i + cnt = n \<Longrightarrow> mx \<le> cnt \<Longrightarrow> 4 dvd src + i \<or> src + i + mx \<le> length m \<Longrightarrow>
    \<exists>m''. strscpy_words dest src i cnt mx m' = Some (if length xs < n then int (length xs) else - E2BIG, m'') \<and> copy_result m dest n xs m''"
proof (induction mx arbitrary: i cnt m' rule: less_induct)
  case (less mx)
  have s: "str_at m' src xs" by (rule copied_src [OF less.prems(1) assms(1,2)])
  have lm: "length m' = length m" and i: "i \<le> length xs" using less.prems(1) by (simp_all add: copied_def)
  show ?case
  proof (cases "mx \<ge> 4")
    case True
    let ?b = "load 4 (src + i) m'"
    have fit: "src + i + 4 \<le> length m'"
    proof (cases "4 dvd src + i")
      case al: True
      have "src + i < length m" using str_at_bound [OF s] i lm by simp
      moreover obtain u v where "src + i = 4 * u" "length m = 4 * v" using al assms(5) by (auto simp: dvd_def)
      ultimately show ?thesis using lm by simp
    next
      case False
      then show ?thesis using less.prems(4) True lm by simp
    qed
    have lb: "length ?b = 4" using fit by simp
    note w = word_at_a_time [OF lb] and z = first_zero [OF s i fit]
    have st: "dest + i + 4 \<le> length m'" using less.prems(2,3) True assms(3) lm by simp
    show ?thesis
    proof (cases "0 \<in> set ?b")
      case zero: True
      let ?k = "length xs - i" and ?z = "take (length xs - i) ?b @ replicate (4 - (length xs - i)) 0"
      have k: "length (takeWhile (\<lambda>b. b \<noteq> 0) ?b) = ?k" "length xs < i + 4" "take ?k ?b = drop i xs" using z(2) [OF zero] by auto
      have r: "strscpy_words dest src i cnt mx m' = Some (int (i + ?k), store (dest + i) ?z m')"
        using True fit st w(1,3,4) zero k(1)
        by (subst strscpy_words.simps) (simp add: load_checked_def store_checked_def Let_def prep_zero_mask_def zero_bytemask_def)
      have "copy_result m dest n xs (store (dest + i) ?z m')"
        using less.prems(1-3) True k(2,3) assms(3) str_at_nonzero [OF s] copied_last_word [of m dest n xs i m'] by simp
      then show ?thesis using r i less.prems(2,3) True k(2) by auto
    next
      case False
      then have nz: "0 \<notin> set ?b" "has_zero (of_bytes ?b) = 0" "to_bytes (of_bytes ?b) = ?b" using w(1,2) by simp_all
      have "copied m dest n xs (i + length ?b) (store (dest + i) ?b m')"
        using less.prems(1-3) True z(1) [OF nz(1)] lb assms(3) by (intro copied_store) auto
      then have "\<exists>m''. strscpy_words dest src (i + 4) (cnt - 4) (mx - 4) (store (dest + i) ?b m') =
          Some (if length xs < n then int (length xs) else - E2BIG, m'') \<and> copy_result m dest n xs m''"
        using less.prems(2-4) True lb by (intro less.IH) (auto simp: add.assoc [symmetric])
      then show ?thesis using True fit st nz lb by (subst strscpy_words.simps) (simp add: load_checked_def store_checked_def Let_def)
    qed
  next
    case False
    then show ?thesis using strscpy_bytes_str [OF assms(1-4) less.prems(1,2)] by (simp add: strscpy_words.simps)
  qed
qed

text \<open>A memory of whole pages.\<close>

definition paged :: "mem \<Rightarrow> bool" where
  "paged m \<longleftrightarrow> length m mod PAGE_BYTES = 0"

lemma strscpy_str:
  assumes "str_at m src xs" "apart dest n src xs" "dest + n \<le> length m" "0 < n" "paged m"
  shows "\<exists>m'. strscpy dest src n m = Some (if length xs < n then int (length xs) else - E2BIG, m') \<and> copy_result m dest n xs m'"
proof -
  let ?mx = "if src mod 4 \<noteq> 0 then if PAGE_BYTES - src mod PAGE_BYTES < n then PAGE_BYTES - src mod PAGE_BYTES else n else n"
  have p: "PAGE_BYTES dvd length m" using assms(5) by (simp add: paged_def dvd_eq_mod_eq_0)
  then have d: "4 dvd length m" by (rule dvd_trans [rotated]) (simp add: PAGE_BYTES_def)
  have "4 dvd src + 0 \<or> src + 0 + ?mx \<le> length m"
  proof (cases "src mod 4 = 0")
    case False
    have "src < length m" using str_at_bound [OF assms(1)] by simp
    moreover obtain v where v: "length m = PAGE_BYTES * v" using p by (auto simp: dvd_def)
    moreover have s: "src = PAGE_BYTES * (src div PAGE_BYTES) + src mod PAGE_BYTES" by simp
    moreover have "src mod PAGE_BYTES < PAGE_BYTES" by (simp add: PAGE_BYTES_def)
    ultimately have "src div PAGE_BYTES < v" by (metis less_mult_imp_div_less mult.commute)
    then have "PAGE_BYTES * (src div PAGE_BYTES + 1) \<le> PAGE_BYTES * v" by (intro mult_le_mono2) simp
    then have "src + (PAGE_BYTES - src mod PAGE_BYTES) \<le> length m"
      using s v \<open>src mod PAGE_BYTES < PAGE_BYTES\<close> unfolding distrib_left by linarith
    then show ?thesis using False by auto
  qed (simp add: dvd_eq_mod_eq_0)
  moreover have "copied m dest n xs 0 m" by (simp add: copied_def)
  ultimately have "\<exists>m'. strscpy_words dest src 0 n ?mx m = Some (if length xs < n then int (length xs) else - E2BIG, m') \<and> copy_result m dest n xs m'"
    by (intro strscpy_words_str [OF assms(1-4) d]) auto
  moreover have "strscpy dest src n m = strscpy_words dest src 0 n ?mx m" using assms(4) by (simp add: strscpy_def Let_def)
  ultimately show ?thesis by metis
qed

section \<open>Bounded copies as an interface\<close>

text \<open>What the users of \<^verbatim>\<open>strlcpy\<close> and \<^verbatim>\<open>strscpy\<close> rely on; \<open>ok\<close> says on which memories.\<close>

locale bounded_copy =
  fixes copy :: "nat \<Rightarrow> nat \<Rightarrow> nat \<Rightarrow> mem \<Rightarrow> ('r \<times> mem) option" and ok :: "mem \<Rightarrow> bool"
  assumes copy: "ok m \<Longrightarrow> str_at m src xs \<Longrightarrow> apart dest n src xs \<Longrightarrow> dest + n \<le> length m \<Longrightarrow> 0 < n \<Longrightarrow>
    \<exists>r m'. copy dest src n m = Some (r, m') \<and> copy_result m dest n xs m'"
begin

lemma copy_terminated:
  assumes "ok m" "str_at m src xs" "apart dest n src xs" "dest + n \<le> length m" "0 < n"
  shows "\<exists>r m'. copy dest src n m = Some (r, m') \<and> strlen m' dest = Some (min (n - 1) (length xs)) \<and>
    (\<exists>c. strcmp m' dest src = Some c \<and> (c = 0 \<longleftrightarrow> length xs < n)) \<and> strncmp m' dest src (n - 1) = Some 0"
proof -
  obtain r m' where c: "copy dest src n m = Some (r, m')" "copy_result m dest n xs m'" using copy [OF assms] by blast
  then have d: "str_at m' dest (take (n - 1) xs)" by (simp add: copy_result_def)
  have s: "str_at m' src xs"
    using c(2) assms(2,3) str_at_bound [OF assms(2)] by (auto simp: copy_result_def apart_def intro: str_at_cong)
  have "lex_sign (take (n - 1) xs) xs = 0 \<longleftrightarrow> length xs < n"
    using assms(5) by (auto simp: lex_sign_zero_iff min_def dest: arg_cong [of _ _ length] split: if_splits)
  then show ?thesis using c(1) strlen_str [OF d] strcmp_str [OF d s] strncmp_str [OF d s] lex_sign_zero_iff by auto
qed

end

interpretation lcpy: bounded_copy strlcpy "\<lambda>m. True"
proof
  fix m src xs dest n
  assume a: "str_at m src xs" "apart dest n src xs" "dest + n \<le> length m" "0 < n"
  have l: "dest + length (take (n - 1) xs @ [0]) \<le> dest + n" using a(4) by simp
  have "str_at (store dest (take (n - 1) xs @ [0]) m) dest (take (n - 1) xs)"
    using a(3,4) str_at_nonzero [OF a(1)] by (intro str_at_store) (auto dest: in_set_takeD)
  moreover have "store dest (take (n - 1) xs @ [0]) m ! p = m ! p" if "p < length m" "p < dest \<or> dest + n \<le> p" for p
    using nth_store [of dest "take (n - 1) xs @ [0]" m p] that l a(3) by auto
  moreover have "length (store dest (take (n - 1) xs @ [0]) m) = length m" using l a(3) by (intro length_store) linarith
  ultimately have "copy_result m dest n xs (store dest (take (n - 1) xs @ [0]) m)" by (simp add: copy_result_def)
  then show "\<exists>r m'. strlcpy dest src n m = Some (r, m') \<and> copy_result m dest n xs m'"
    using strlcpy_str [OF a(1,4,3)] a(2) by (auto simp: apart_def)
qed

interpretation scpy: bounded_copy strscpy paged
  by unfold_locales (use strscpy_str in blast)

section \<open>Lemmas: searching for another byte\<close>

lemma check_bytes8_bytes:
  "bytes_at m a xs \<Longrightarrow> check_bytes8 m a v (length xs) = Some (map_option (\<lambda>i. a + i) (first_in (- {v}) xs))"
proof (induction xs arbitrary: a)
  case (Cons x xs)
  then show ?case using Cons.IH [of "a + 1"] by (simp add: option.map_comp comp_def)
qed simp

lemma bytes_at_append: "bytes_at m a (xs @ ys) \<longleftrightarrow> bytes_at m a xs \<and> bytes_at m (a + length xs) ys"
  by (induction xs arbitrary: a) auto

lemma first_in_append:
  "first_in A (xs @ ys) = (case first_in A xs of None \<Rightarrow> map_option (\<lambda>i. length xs + i) (first_in A ys) | Some i \<Rightarrow> Some i)"
  by (induction xs; cases "first_in A ys") (auto split: option.splits)

lemma bit_of_bytes:
  fixes bs :: "u8 list"
  assumes "8 * length bs \<le> LENGTH('a::len)" "i < 8 * length bs"
  shows "bit (of_bytes bs :: 'a word) i \<longleftrightarrow> bit (bs ! (i div 8)) (i mod 8)"
  using assms
proof (induction bs arbitrary: i)
  case (Cons b bs)
  show ?case
  proof (cases "i < 8")
    case True
    then show ?thesis using Cons.prems by (simp add: of_bytes_simps bit_cat_byte)
  next
    case False
    then have "bit (of_bytes bs :: 'a word) (i - 8) \<longleftrightarrow> bit (bs ! ((i - 8) div 8)) ((i - 8) mod 8)" using Cons by auto
    then show ?thesis using False Cons.prems by (simp add: of_bytes_simps bit_cat_byte le_div_geq le_mod_geq)
  qed
qed simp

lemma of_bytes_inj:
  fixes bs cs :: "u8 list"
  assumes "length bs = length cs" "8 * length bs \<le> LENGTH('a::len)" "of_bytes bs = (of_bytes cs :: 'a word)"
  shows "bs = cs"
proof (rule nth_equalityI)
  fix j assume j: "j < length bs"
  show "bs ! j = cs ! j"
  proof (rule bit_word_eqI)
    fix i assume "i < LENGTH(8)"
    then have i: "8 * j + i < 8 * length bs" "(8 * j + i) div 8 = j" "(8 * j + i) mod 8 = i" using j by auto
    then show "bit (bs ! j) i \<longleftrightarrow> bit (cs ! j) i"
      using bit_of_bytes [OF assms(2) i(1)] bit_of_bytes [of cs "8 * j + i", where 'a = 'a] assms by simp
  qed
qed (rule assms(1))

lemma replicated_byte:
  fixes v :: u8
  defines "w1 \<equiv> ucast v OR push_bit 8 (ucast v) :: u64"
  defines "w2 \<equiv> w1 OR push_bit 16 w1"
  shows "w2 OR push_bit 32 w2 = of_bytes (replicate 8 v)"
proof (rule bit_word_eqI)
  fix i assume i: "i < LENGTH(64)"
  have m: "(j - k) mod 8 = j mod 8" if "k \<le> j" "8 dvd k" for j k :: nat
    using that by (metis le_add_diff_inverse2 mod_add_right_eq dvd_imp_mod_0 add_0_right)
  have a: "bit (ucast v :: u64) j \<longleftrightarrow> j < 8 \<and> bit v (j mod 8)" for j
    by (cases "j < 8") (auto simp: bit_ucast_iff dest: bit_imp_le_length)
  have 1: "bit w1 j \<longleftrightarrow> j < 16 \<and> bit v (j mod 8)" for j
    unfolding w1_def bit_or_iff bit_push_bit_iff a using m [of 8 j] by (cases "j < 8") auto
  have 2: "bit w2 j \<longleftrightarrow> j < 32 \<and> bit v (j mod 8)" for j
    unfolding w2_def bit_or_iff bit_push_bit_iff 1 using m [of 16 j] by (cases "j < 16") auto
  have "bit (w2 OR push_bit 32 w2) i \<longleftrightarrow> bit v (i mod 8)"
    using i unfolding bit_or_iff bit_push_bit_iff 2 using m [of 32 i] by (cases "i < 32") auto
  moreover have "bit (of_bytes (replicate 8 v) :: u64) i \<longleftrightarrow> bit (replicate 8 v ! (i div 8)) (i mod 8)"
    using i by (intro bit_of_bytes) simp_all
  ultimately show "bit (w2 OR push_bit 32 w2) i \<longleftrightarrow> bit (of_bytes (replicate 8 v) :: u64) i"
    using i by (simp add: less_mult_imp_div_less)
qed

lemma inv_words_bytes:
  assumes "v64 = of_bytes (replicate 8 v)"
  shows "bytes_at m a xs \<Longrightarrow> length xs = 8 * w \<Longrightarrow>
    inv_words m a v v64 w = Some (case first_in (- {v}) xs of None \<Rightarrow> Inr (a + 8 * w) | Some i \<Rightarrow> Inl (Some (a + i)))"
proof (induction w arbitrary: a xs)
  case (Suc w)
  obtain ys zs where x: "xs = ys @ zs" "length ys = 8" "length zs = 8 * w"
    using Suc.prems(2) by (metis append_take_drop_id length_drop length_take mult_Suc_right add_diff_cancel_left' le_add1 min.absorb2)
  then have b: "bytes_at m a ys" "bytes_at m (a + 8) zs" using Suc.prems(1) by (simp_all add: bytes_at_append)
  then have l: "load_checked 8 a m = Some ys" using x(2) by (auto simp: bytes_at_iff load_checked_def)
  have c: "check_bytes8 m a v 8 = Some (map_option (\<lambda>i. a + i) (first_in (- {v}) ys))" using check_bytes8_bytes [OF b(1)] x(2) by simp
  have eq: "of_bytes ys = v64 \<longleftrightarrow> ys = replicate 8 v" unfolding assms using of_bytes_inj [of ys "replicate 8 v", where 'a = 64] x(2) by auto
  have f: "ys = replicate 8 v \<longleftrightarrow> first_in (- {v}) ys = None"
    unfolding first_in_None using x(2) by (auto intro!: replicate_eqI)
  show ?case using Suc.IH [OF b(2) x(3)] l c eq f x by (auto simp: first_in_append split: option.splits)
qed simp

lemma memchr_inv_bytes:
  assumes "bytes_at m a xs"
  shows "memchr_inv m a v (length xs) = Some (map_option (\<lambda>i. a + i) (first_in (- {v}) xs))"
proof (cases "length xs \<le> 16")
  case True
  then show ?thesis using check_bytes8_bytes [OF assms] by (simp add: memchr_inv_def)
next
  case False
  define pre where "pre = (if a mod 8 \<noteq> 0 then 8 - a mod 8 else 0)"
  define w where "w = (length xs - pre) div 8"
  define ps where "ps = take pre xs"
  define ws where "ws = take (8 * w) (drop pre xs)"
  define rs where "rs = drop (pre + 8 * w) xs"
  have p: "pre < 8" by (simp add: pre_def)
  have w: "8 * w + (length xs - pre) mod 8 = length xs - pre" by (simp add: w_def)
  have x: "xs = ps @ ws @ rs" by (simp add: ps_def ws_def rs_def) (metis append_take_drop_id drop_drop add.commute)
  have l: "length ps = pre" "length ws = 8 * w" "length rs = (length xs - pre) mod 8" using w p False by (simp_all add: ps_def ws_def rs_def)
  have b: "bytes_at m a ps" "bytes_at m (a + pre) ws" "bytes_at m (a + pre + 8 * w) rs"
    using assms l by (simp_all add: x bytes_at_append)
  note c = check_bytes8_bytes [OF b(1), of v, unfolded l] check_bytes8_bytes [OF b(3), of v, unfolded l]
    inv_words_bytes [OF replicated_byte b(2) l(2)]
  have "first_in (- {v}) xs = (case first_in (- {v}) ps of None \<Rightarrow>
      (case first_in (- {v}) ws of None \<Rightarrow> map_option (\<lambda>i. pre + 8 * w + i) (first_in (- {v}) rs) | Some i \<Rightarrow> Some (pre + i)) | Some i \<Rightarrow> Some i)"
    unfolding x first_in_append l by (cases "first_in (- {v}) rs") (auto split: option.splits)
  then show ?thesis using False c unfolding memchr_inv_def Let_def pre_def [symmetric] w_def [symmetric]
    by (cases "first_in (- {v}) rs") (auto simp: option.map_comp comp_def split: option.splits)
qed

section \<open>Properties\<close>

text \<open>C22: \<^verbatim>\<open>strscpy\<close>, which copies words while it can, and \<^verbatim>\<open>strlcpy\<close> copy a string into a buffer of \<open>n\<close> bytes: the
  buffer then holds the string, cut to \<open>n - 1\<close> characters and terminated, no byte outside the buffer has changed, and the result is
  the length or \<^verbatim>\<open>-E2BIG\<close> (\<^verbatim>\<open>strlcpy\<close>: the length of the source). The word reads of \<^verbatim>\<open>strscpy\<close> beyond the end of the string never
  leave the mapped pages.\<close>

theorem string_copies:
  assumes "str_at m src xs" "apart dest n src xs" "dest + n \<le> length m" "0 < n" "paged m"
  shows "(\<exists>m'. strscpy dest src n m = Some (if length xs < n then int (length xs) else - E2BIG, m') \<and> copy_result m dest n xs m') \<and>
    (\<exists>m'. strlcpy dest src n m = Some (length xs, m') \<and> copy_result m dest n xs m')"
  using strscpy_str [OF assms] lcpy.copy [OF TrueI assms(1-4)] strlcpy_str [OF assms(1,4,3)] assms(2) by (auto simp: apart_def)

theorem string_copies_witness:
  "\<exists>m'. strscpy 8 1 2 ([0, 65, 66] @ replicate 4093 0) = Some (- E2BIG, m') \<and> str_at m' 8 [65]"
proof -
  let ?m = "[0, 65, 66] @ replicate 4093 0 :: mem"
  have "str_at ?m 1 [65, 66]" by (simp add: rd_def)
  moreover have "paged ?m" by (simp add: paged_def PAGE_BYTES_def)
  ultimately show ?thesis using string_copies [of ?m 1 "[65, 66]" 8 2] by (auto simp: apart_def copy_result_def)
qed

text \<open>A bounded copy compared with its source: \<^verbatim>\<open>strncmp\<close> finds no difference within the buffer, and \<^verbatim>\<open>strcmp\<close> finds one
  exactly if the string was cut; this holds for every function that keeps the contract, \<^verbatim>\<open>strscpy\<close> and \<^verbatim>\<open>strlcpy\<close> among them.\<close>

theorem copy_then_compare:
  assumes "paged m" "str_at m src xs" "apart dest n src xs" "dest + n \<le> length m" "0 < n"
  shows "\<forall>copy \<in> {\<lambda>d s k m. map_option snd (strscpy d s k m), \<lambda>d s k m. map_option snd (strlcpy d s k m)}.
    \<exists>m' c. copy dest src n m = Some m' \<and> strlen m' dest = Some (min (n - 1) (length xs)) \<and>
      strcmp m' dest src = Some c \<and> (c = 0 \<longleftrightarrow> length xs < n) \<and> strncmp m' dest src (n - 1) = Some 0"
  using scpy.copy_terminated [OF assms] lcpy.copy_terminated [OF TrueI assms(2-5)] by fastforce



text \<open>C26: \<^verbatim>\<open>strstr\<close> returns the first place where the second string occurs in the first, or \<^verbatim>\<open>NULL\<close> if it occurs nowhere.\<close>

theorem strstr_first:
  assumes "str_at m a xs" "str_at m b ys"
  shows "(\<exists>i. strstr m a b = Some (Some (a + i)) \<and> occurs_at ys xs i \<and> (\<forall>j < i. \<not> occurs_at ys xs j)) \<or>
    strstr m a b = Some None \<and> (\<forall>i. \<not> occurs_at ys xs i)"
  using strstr_str [OF assms] first_occurrence_least [of ys xs] by (cases "first_occurrence ys xs") auto

theorem strstr_first_witness: "strstr [65, 66, 66, 0, 66, 0] 0 4 \<noteq> Some None"
proof -
  have "str_at [65, 66, 66, 0, 66, 0] 0 [65, 66, 66]" "str_at [65, 66, 66, 0, 66, 0] 4 [66]" by (simp_all add: rd_def)
  moreover have "occurs_at [66] [65, 66, 66] 1" by (simp add: occurs_at_def)
  ultimately show ?thesis using strstr_first by fastforce
qed

text \<open>C25: a caller that calls \<^verbatim>\<open>strsep\<close> until it returns \<^verbatim>\<open>NULL\<close> comes to an end and gets the tokens of the string in
  order, each terminated in place, empty ones included; joined with the delimiters they are the string again.\<close>

theorem strsep_tokens:
  assumes "str_at m a xs" "str_at m b ys" "a + length xs < b \<or> b + length ys < a" "length xs + 2 \<le> n"
  shows "\<exists>ts toks m'. strsep_run n m (Some a) b = Some (ts, m') \<and> list_all2 (str_at m') ts toks \<and> joined (set ys) toks xs"
  using strsep_run_tokens [OF assms] tokens_joined by blast

theorem strsep_tokens_witness:
  "\<exists>ts toks m'. strsep_run 5 [65, 44, 66, 0, 44, 0] (Some 0) 4 = Some (ts, m') \<and> list_all2 (str_at m') ts toks \<and> joined {44} toks [65, 44, 66]"
  using strsep_tokens [of "[65, 44, 66, 0, 44, 0]" 0 "[65, 44, 66]" 4 "[44]" 5] by (simp add: rd_def)

text \<open>C24: \<^verbatim>\<open>memchr_inv\<close>, which compares eight aligned bytes at a time, returns what the loop over single bytes returns.\<close>

theorem memchr_inv_bytewise:
  assumes "a + n \<le> length m"
  shows "memchr_inv m a v n = check_bytes8 m a v n"
proof -
  have "bytes_at m a (load n a m)" using assms by (simp add: bytes_at_iff)
  from memchr_inv_bytes [OF this] check_bytes8_bytes [OF this] show ?thesis using assms by simp
qed

theorem memchr_inv_bytewise_witness: "memchr_inv (replicate 20 7 @ [8, 7]) 3 7 19 = check_bytes8 (replicate 20 7 @ [8, 7]) 3 7 19"
  by (rule memchr_inv_bytewise) simp

text \<open>\<^verbatim>\<open>memmove\<close> stores what the source held before the call, however the two areas overlap.\<close>

theorem memmove_overlapping:
  assumes "dest + n \<le> length m" "src + n \<le> length m"
  shows "memmove dest src n m = Some (store dest (load n src m) m)"
  using memcpy_forward [OF assms] memmove_backward [OF assms] by (simp add: memmove_def)

end
