(* ===== verification/Kstrtox.thy ===== *)
theory Kstrtox
  imports String_Search
begin

text \<open>
  Conversion of strings to integers: \<^verbatim>\<open>lib/kstrtox.c\<close> and the \<^verbatim>\<open>simple_strto*\<close> functions of \<^verbatim>\<open>lib/vsprintf.c\<close>.

  Strings are in the memory of \<open>String_Lib\<close>. A conversion returns \<open>Inl\<close> of the negative error number, and then
  leaves the result of the caller alone, or \<open>Inr\<close> of the word it stores; signed results are words read with \<^const>\<open>sint\<close>.
\<close>

section \<open>Definitions\<close>

definition KSTRTOX_OVERFLOW :: u32 where "KSTRTOX_OVERFLOW = 0x80000000"

definition parse_integer_fixup_radix :: "mem \<Rightarrow> nat \<Rightarrow> u32 \<Rightarrow> (nat \<times> u32) option" where
  "parse_integer_fixup_radix m s base = do {
     base \<leftarrow>
       (if base = 0
        then do {
          c0 \<leftarrow> rd m s;
          if c0 = 0x30
          then do {
            c1 \<leftarrow> rd m (s + 1);
            if fast_tolower c1 = 0x78 then do { c2 \<leftarrow> rd m (s + 2); Some (if isxdigit c2 then 16 else 8) } else Some 8 }
          else Some 10 }
        else Some base);
     if base = 16
     then do {
       c0 \<leftarrow> rd m s;
       if c0 = 0x30 then do { c1 \<leftarrow> rd m (s + 1); Some (if fast_tolower c1 = 0x78 then s + 2 else s, base) } else Some (s, base) }
     else Some (s, base) }"

text \<open>The value of a digit, as the body of the loop computes it.\<close>

definition digit_value :: "u8 \<Rightarrow> u32 option" where
  "digit_value c =
     (if 0x30 \<le> c \<and> c \<le> 0x39 then Some (ucast (c - 0x30))
      else if 0x61 \<le> fast_tolower c \<and> fast_tolower c \<le> 0x66 then Some (ucast (fast_tolower c - 0x61) + 10)
      else None)"

function parse_loop :: "mem \<Rightarrow> nat \<Rightarrow> u32 \<Rightarrow> u64 \<Rightarrow> u32 \<Rightarrow> (u32 \<times> u64) option" where
  "parse_loop m s base res rv =
     (case rd m s of None \<Rightarrow> None
      | Some c \<Rightarrow>
          if c = 0 then Some (rv, res)
          else (case digit_value c of None \<Rightarrow> Some (rv, res)
                | Some val \<Rightarrow>
                    if val \<ge> base then Some (rv, res)
                    else let rv = (if res AND push_bit 60 (NOT 0) \<noteq> 0 \<and> res > (- 1 - ucast val) div ucast base
                                   then rv OR KSTRTOX_OVERFLOW else rv)
                         in parse_loop m (s + 1) base (res * ucast base + ucast val) (rv + 1)))"
  by pat_completeness auto
termination
  by (relation "measure (\<lambda>(m, s, base, res, rv). length m - s)") (auto simp: rd_def split: if_splits)

definition parse_integer :: "mem \<Rightarrow> nat \<Rightarrow> u32 \<Rightarrow> (u32 \<times> u64) option" where
  "parse_integer m s base = parse_loop m s base 0 0"

text \<open>\<^verbatim>\<open>_kstrtoull\<close>.\<close>

definition kstrtoull_body :: "mem \<Rightarrow> nat \<Rightarrow> u32 \<Rightarrow> (int + u64) option" where
  "kstrtoull_body m s base = do {
     (s, base) \<leftarrow> parse_integer_fixup_radix m s base;
     (rv, res) \<leftarrow> parse_integer m s base;
     if rv AND KSTRTOX_OVERFLOW \<noteq> 0 then Some (Inl (- ERANGE))
     else if rv = 0 then Some (Inl (- EINVAL))
     else do {
       let s = s + unat rv;
       c \<leftarrow> rd m s;
       let s = (if c = 0x0a then s + 1 else s);
       c \<leftarrow> rd m s;
       Some (if c \<noteq> 0 then Inl (- EINVAL) else Inr res) } }"

definition kstrtoull :: "mem \<Rightarrow> nat \<Rightarrow> u32 \<Rightarrow> (int + u64) option" where
  "kstrtoull m s base = do {
     c \<leftarrow> rd m s;
     kstrtoull_body m (if c = 0x2b then s + 1 else s) base }"

definition kstrtoll :: "mem \<Rightarrow> nat \<Rightarrow> u32 \<Rightarrow> (int + u64) option" where
  "kstrtoll m s base = do {
     c \<leftarrow> rd m s;
     if c = 0x2d
     then do {
       r \<leftarrow> kstrtoull_body m (s + 1) base;
       Some (case r of Inl e \<Rightarrow> Inl e | Inr tmp \<Rightarrow> if sint (- tmp) > 0 then Inl (- ERANGE) else Inr (- tmp)) }
     else do {
       r \<leftarrow> kstrtoull m s base;
       Some (case r of Inl e \<Rightarrow> Inl e | Inr tmp \<Rightarrow> if sint tmp < 0 then Inl (- ERANGE) else Inr tmp) } }"

text \<open>The check of the smaller types: the value must survive the conversion to the type and back.\<close>

definition narrow_unsigned :: "(int + u64) option \<Rightarrow> (int + 'a::len word) option" where
  "narrow_unsigned r = map_option (\<lambda>r. case r of Inl e \<Rightarrow> Inl e
     | Inr tmp \<Rightarrow> if tmp \<noteq> ucast (ucast tmp :: 'a word) then Inl (- ERANGE) else Inr (ucast tmp)) r"

definition narrow_signed :: "(int + u64) option \<Rightarrow> (int + 'a::len word) option" where
  "narrow_signed r = map_option (\<lambda>r. case r of Inl e \<Rightarrow> Inl e
     | Inr tmp \<Rightarrow> if tmp \<noteq> scast (ucast tmp :: 'a word) then Inl (- ERANGE) else Inr (ucast tmp)) r"

definition kstrtoul :: "mem \<Rightarrow> nat \<Rightarrow> u32 \<Rightarrow> (int + u32) option" where "kstrtoul m s base = narrow_unsigned (kstrtoull m s base)"
definition kstrtol :: "mem \<Rightarrow> nat \<Rightarrow> u32 \<Rightarrow> (int + u32) option" where "kstrtol m s base = narrow_signed (kstrtoll m s base)"
definition kstrtouint :: "mem \<Rightarrow> nat \<Rightarrow> u32 \<Rightarrow> (int + u32) option" where "kstrtouint m s base = narrow_unsigned (kstrtoull m s base)"
definition kstrtoint :: "mem \<Rightarrow> nat \<Rightarrow> u32 \<Rightarrow> (int + u32) option" where "kstrtoint m s base = narrow_signed (kstrtoll m s base)"
definition kstrtou16 :: "mem \<Rightarrow> nat \<Rightarrow> u32 \<Rightarrow> (int + u16) option" where "kstrtou16 m s base = narrow_unsigned (kstrtoull m s base)"
definition kstrtos16 :: "mem \<Rightarrow> nat \<Rightarrow> u32 \<Rightarrow> (int + u16) option" where "kstrtos16 m s base = narrow_signed (kstrtoll m s base)"
definition kstrtou8 :: "mem \<Rightarrow> nat \<Rightarrow> u32 \<Rightarrow> (int + u8) option" where "kstrtou8 m s base = narrow_unsigned (kstrtoull m s base)"
definition kstrtos8 :: "mem \<Rightarrow> nat \<Rightarrow> u32 \<Rightarrow> (int + u8) option" where "kstrtos8 m s base = narrow_signed (kstrtoll m s base)"

definition kstrtobool :: "mem \<Rightarrow> nat option \<Rightarrow> (int + bool) option" where
  "kstrtobool m s =
     (case s of None \<Rightarrow> Some (Inl (- EINVAL))
      | Some s \<Rightarrow> do {
          c \<leftarrow> rd m s;
          if c \<in> {0x79, 0x59, 0x31} then Some (Inr True)
          else if c \<in> {0x6e, 0x4e, 0x30} then Some (Inr False)
          else if c \<in> {0x6f, 0x4f}
          then do {
            c \<leftarrow> rd m (s + 1);
            Some (if c \<in> {0x6e, 0x4e} then Inr True else if c \<in> {0x66, 0x46} then Inr False else Inl (- EINVAL)) }
          else Some (Inl (- EINVAL)) })"

text \<open>The versions that read the string from user space: \<open>cfu n\<close> is the number of bytes \<^verbatim>\<open>copy_from_user\<close> could not copy. The
  buffer holds a sign, the digits of the type in base 2, a newline and the terminator.\<close>

definition from_user :: "(nat \<Rightarrow> nat) \<Rightarrow> nat \<Rightarrow> mem \<Rightarrow> nat \<Rightarrow> nat \<Rightarrow> mem option" where
  "from_user cfu bufsize um s cnt = (let cnt = min cnt (bufsize - 1) in if cfu cnt \<noteq> 0 then None else Some (load cnt s um @ [0]))"

definition kstrto_from_user ::
  "(mem \<Rightarrow> nat \<Rightarrow> u32 \<Rightarrow> (int + 'a::len word) option) \<Rightarrow> (nat \<Rightarrow> nat) \<Rightarrow> mem \<Rightarrow> nat \<Rightarrow> nat \<Rightarrow> u32 \<Rightarrow> (int + 'a word) option" where
  "kstrto_from_user g cfu um s cnt base =
     (case from_user cfu (1 + LENGTH('a) + 1 + 1) um s cnt of None \<Rightarrow> Some (Inl (- EFAULT)) | Some buf \<Rightarrow> g buf 0 base)"

definition kstrtobool_from_user :: "(nat \<Rightarrow> nat) \<Rightarrow> mem \<Rightarrow> nat \<Rightarrow> nat \<Rightarrow> (int + bool) option" where
  "kstrtobool_from_user cfu um s cnt =
     (case from_user cfu 4 um s cnt of None \<Rightarrow> Some (Inl (- EFAULT)) | Some buf \<Rightarrow> kstrtobool buf (Some 0))"

text \<open>The obsolete functions: the value and the place where the number ends.\<close>

definition simple_strtoull :: "mem \<Rightarrow> nat \<Rightarrow> u32 \<Rightarrow> (u64 \<times> nat) option" where
  "simple_strtoull m cp base = do {
     (cp, base) \<leftarrow> parse_integer_fixup_radix m cp base;
     (rv, res) \<leftarrow> parse_integer m cp base;
     Some (res, cp + unat (rv AND NOT KSTRTOX_OVERFLOW)) }"

definition simple_strtoul :: "mem \<Rightarrow> nat \<Rightarrow> u32 \<Rightarrow> (u32 \<times> nat) option" where
  "simple_strtoul m cp base = map_option (\<lambda>(r, e). (ucast r, e)) (simple_strtoull m cp base)"

definition simple_strtol :: "mem \<Rightarrow> nat \<Rightarrow> u32 \<Rightarrow> (u32 \<times> nat) option" where
  "simple_strtol m cp base = do {
     c \<leftarrow> rd m cp;
     if c = 0x2d then map_option (\<lambda>(r, e). (- r, e)) (simple_strtoul m (cp + 1) base) else simple_strtoul m cp base }"

definition simple_strtoll :: "mem \<Rightarrow> nat \<Rightarrow> u32 \<Rightarrow> (u64 \<times> nat) option" where
  "simple_strtoll m cp base = do {
     c \<leftarrow> rd m cp;
     if c = 0x2d then map_option (\<lambda>(r, e). (- r, e)) (simple_strtoull m (cp + 1) base) else simple_strtoull m cp base }"

section \<open>Lemmas: parsing digits\<close>

declare parse_loop.simps [simp del]

text \<open>The digits of a base, and the number a sequence of digits denotes.\<close>

definition is_digit :: "u32 \<Rightarrow> u8 \<Rightarrow> bool" where
  "is_digit base c \<longleftrightarrow> (case digit_value c of None \<Rightarrow> False | Some v \<Rightarrow> v < base)"

definition digits :: "u32 \<Rightarrow> u8 list \<Rightarrow> u8 list" where
  "digits base xs = takeWhile (is_digit base) xs"

definition num_value :: "u32 \<Rightarrow> nat \<Rightarrow> u8 list \<Rightarrow> nat" where
  "num_value base n ds = foldl (\<lambda>n c. n * unat base + unat (the (digit_value c))) n ds"

lemma num_value_simps [simp]: "num_value base n [] = n" "num_value base n (d # ds) = num_value base (n * unat base + unat (the (digit_value d))) ds"
  by (simp_all add: num_value_def)

lemma num_value_mono: "base \<noteq> 0 \<Longrightarrow> n \<le> num_value base n ds"
proof (induction ds arbitrary: n)
  case (Cons d ds)
  have "0 < unat base" using Cons.prems by (simp add: unat_gt_0)
  then have "n \<le> n * unat base" by simp
  then show ?case using Cons.IH [OF Cons.prems, of "n * unat base + unat (the (digit_value d))"] unfolding num_value_simps by linarith
qed simp

text \<open>The number of characters with the overflow bit.\<close>

definition counted :: "nat \<Rightarrow> bool \<Rightarrow> u32" where
  "counted n ov = (if ov then of_nat n OR KSTRTOX_OVERFLOW else of_nat n)"

lemma bit_KSTRTOX_OVERFLOW: "bit KSTRTOX_OVERFLOW i \<longleftrightarrow> i = 31"
proof -
  have e: "KSTRTOX_OVERFLOW = 2 ^ 31" by (simp add: KSTRTOX_OVERFLOW_def)
  show ?thesis unfolding e bit_exp_iff by auto
qed

lemma not_bit_31: "n < 2 ^ 31 \<Longrightarrow> \<not> bit (of_nat n :: u32) 31"
proof -
  assume "n < 2 ^ 31"
  then have "unat (of_nat n :: u32) < 2 ^ 31" by (simp add: unat_of_nat_32)
  then have "\<not> bit (unat (of_nat n :: u32)) 31" by (simp add: bit_iff_odd)
  then show ?thesis by (simp add: bit_unsigned_iff)
qed

lemma counted_sum: "n < 2 ^ 31 \<Longrightarrow> counted n True = of_nat n + KSTRTOX_OVERFLOW"
  unfolding counted_def if_True by (rule disjunctive_add [symmetric]) (metis bit_KSTRTOX_OVERFLOW not_bit_31)

lemma counted_Suc: "Suc n < 2 ^ 31 \<Longrightarrow> counted n ov + 1 = counted (Suc n) ov"
  using counted_sum [of n] counted_sum [of "Suc n"] by (cases ov) (simp_all, simp add: counted_def)

lemma counted_or: "counted n ov OR KSTRTOX_OVERFLOW = counted n True"
  by (cases ov) (simp_all add: counted_def or.assoc)

lemma counted_test:
  assumes "n < 2 ^ 31"
  shows "counted n ov AND KSTRTOX_OVERFLOW = 0 \<longleftrightarrow> \<not> ov" "\<not> ov \<Longrightarrow> unat (counted n ov) = n"
    "unat (counted n ov AND NOT KSTRTOX_OVERFLOW) = n"
proof -
  have b: "bit (counted n ov) i \<longleftrightarrow> bit (of_nat n :: u32) i \<or> i = 31 \<and> ov" for i
    by (auto simp: counted_def bit_or_iff bit_KSTRTOX_OVERFLOW)
  have "counted n ov AND KSTRTOX_OVERFLOW = (if ov then KSTRTOX_OVERFLOW else 0)"
    using not_bit_31 [OF assms] by (intro bit_word_eqI) (auto simp: bit_and_iff b bit_KSTRTOX_OVERFLOW)
  then show "counted n ov AND KSTRTOX_OVERFLOW = 0 \<longleftrightarrow> \<not> ov" by (simp add: KSTRTOX_OVERFLOW_def)
  show "\<not> ov \<Longrightarrow> unat (counted n ov) = n" using assms by (simp add: counted_def unat_of_nat_32)
  have "counted n ov AND NOT KSTRTOX_OVERFLOW = of_nat n"
    using not_bit_31 [OF assms] by (intro bit_word_eqI) (auto simp: bit_and_iff bit_not_iff b bit_KSTRTOX_OVERFLOW)
  then show "unat (counted n ov AND NOT KSTRTOX_OVERFLOW) = n" using assms by (simp add: unat_of_nat_32)
qed

lemma unat_ucast_64: "unat (ucast (x :: u32) :: u64) = unat x"
  using unat_less_32 [of x] by (simp add: unsigned_ucast_eq take_bit_nat_eq_self)

lemma top_bits: "res AND push_bit 60 (NOT 0) \<noteq> 0 \<longleftrightarrow> 2 ^ 60 \<le> unat (res :: u64)"
proof -
  have "res AND push_bit 60 (NOT 0) = 0 \<longleftrightarrow> take_bit 60 res = res"
    by (auto simp: bit_eq_iff bit_and_iff bit_take_bit_iff bit_not_iff bit_mask_iff)
  also have "\<dots> \<longleftrightarrow> unat (take_bit 60 res) = unat res" by (simp add: word_unat_eq_iff)
  also have "\<dots> \<longleftrightarrow> unat res < 2 ^ 60" by (simp add: unsigned_take_bit_eq take_bit_nat_eq_self_iff)
  finally show ?thesis by linarith
qed

text \<open>The test for overflow is exact for bases up to 16, although it is made for large values only.\<close>

lemma overflow_test:
  fixes res :: u64 and base val :: u32
  assumes "base \<noteq> 0" "base \<le> 16" "val < base"
  shows "res AND push_bit 60 (NOT 0) \<noteq> 0 \<and> res > (- 1 - ucast val) div ucast base \<longleftrightarrow> 2 ^ 64 \<le> unat res * unat base + unat val"
proof -
  let ?b = "unat base" and ?v = "unat val" and ?r = "unat res"
  have b: "0 < ?b" "?b \<le> 16" "?v < ?b" using assms by (simp_all add: unat_gt_0 word_le_nat_alt word_less_nat_alt)
  have mx: "unat (- 1 :: u64) = 2 ^ 64 - 1" by (simp add: unsigned_minus_1_eq_mask mask_eq_exp_minus_1)
  have "ucast val \<le> (- 1 :: u64)" by simp
  then have "unat (- 1 - ucast val :: u64) = 2 ^ 64 - 1 - ?v" by (simp only: unat_sub mx unat_ucast_64)
  then have "(- 1 - ucast val) div ucast base < res \<longleftrightarrow> (2 ^ 64 - 1 - ?v) div ?b < ?r"
    by (simp only: word_less_nat_alt unat_div_distrib unat_ucast_64)
  also have "\<dots> \<longleftrightarrow> 2 ^ 64 - 1 - ?v < ?r * ?b" using b(1) by (rule div_less_iff_less_mult)
  also have "\<dots> \<longleftrightarrow> 2 ^ 64 \<le> ?r * ?b + ?v" using b by auto
  finally have t: "(- 1 - ucast val) div ucast base < res \<longleftrightarrow> 2 ^ 64 \<le> ?r * ?b + ?v" .
  have "2 ^ 60 \<le> ?r" if "2 ^ 64 \<le> ?r * ?b + ?v"
  proof (rule ccontr)
    assume "\<not> 2 ^ 60 \<le> ?r"
    then have "?r * ?b \<le> (2 ^ 60 - 1) * 16" using b(2) by (intro mult_le_mono) auto
    then show False using that b by simp
  qed
  then show ?thesis using t unfolding top_bits by blast
qed

lemma parse_loop_str:
  assumes "base \<noteq> 0" "base \<le> 16"
  shows "str_at m s xs \<Longrightarrow> k + length xs < 2 ^ 31 \<Longrightarrow> unat res = n mod 2 ^ 64 \<Longrightarrow>
    parse_loop m s base res (counted k (2 ^ 64 \<le> n)) =
      Some (counted (k + length (digits base xs)) (2 ^ 64 \<le> num_value base n (digits base xs)), of_nat (num_value base n (digits base xs)))"
proof (induction xs arbitrary: s k n res)
  case Nil
  have "res = of_nat (unat res)" by simp
  also have "\<dots> = of_nat n" unfolding Nil.prems(3) by (simp add: word_of_nat_eq_iff take_bit_eq_mod)
  finally show ?case using Nil.prems(1) by (simp add: parse_loop.simps digits_def)
next
  case (Cons c xs)
  have c: "rd m s = Some c" "c \<noteq> 0" "str_at m (s + 1) xs" using Cons.prems(1) by auto
  show ?case
  proof (cases "is_digit base c")
    case True
    then obtain v where v: "digit_value c = Some v" "v < base" by (auto simp: is_digit_def split: option.splits)
    let ?n = "n * unat base + unat v" and ?r = "res * ucast base + ucast v"
    have r: "unat ?r = ?n mod 2 ^ 64"
      unfolding unat_word_ariths unat_ucast_64 Cons.prems(3) by (simp add: mod_add_left_eq mod_mult_left_eq)
    have ov: "2 ^ 64 \<le> ?n \<longleftrightarrow> 2 ^ 64 \<le> n \<or> 2 ^ 64 \<le> unat res * unat base + unat v"
    proof (cases "2 ^ 64 \<le> n")
      case True
      have "0 < unat base" using assms(1) by (simp add: unat_gt_0)
      then have "n \<le> n * unat base" by simp
      then show ?thesis using True by linarith
    next
      case False
      then show ?thesis using Cons.prems(3) by simp
    qed
    define rv where "rv = (if res AND push_bit 60 (NOT 0) \<noteq> 0 \<and> res > (- 1 - ucast v) div ucast base
      then counted k (2 ^ 64 \<le> n) OR KSTRTOX_OVERFLOW else counted k (2 ^ 64 \<le> n))"
    have "rv = counted k (2 ^ 64 \<le> ?n)" unfolding rv_def overflow_test [OF assms v(2)] ov by (auto simp: counted_or)
    then have rv: "rv + 1 = counted (Suc k) (2 ^ 64 \<le> ?n)" using counted_Suc Cons.prems(2) by simp
    have "parse_loop m s base res (counted k (2 ^ 64 \<le> n)) = parse_loop m (s + 1) base ?r (rv + 1)"
      using c v(1) v(2) [THEN not_le [THEN iffD2]] by (subst parse_loop.simps) (simp add: rv_def Let_def)
    also have "\<dots> = Some (counted (Suc k + length (digits base xs)) (2 ^ 64 \<le> num_value base ?n (digits base xs)), of_nat (num_value base ?n (digits base xs)))"
      unfolding rv using Cons.prems(2) by (intro Cons.IH [OF c(3) _ r]) simp
    finally show ?thesis using True v by (simp add: digits_def)
  next
    case False
    have "res = of_nat (unat res)" by simp
    also have "\<dots> = of_nat n" unfolding Cons.prems(3) by (simp add: word_of_nat_eq_iff take_bit_eq_mod)
    finally show ?thesis using False c by (subst parse_loop.simps) (auto simp: digits_def is_digit_def not_less split: option.splits)
  qed
qed

section \<open>The conversions on strings\<close>

text \<open>The base and the digits after the prefix, and the result of a conversion, as functions of the characters.\<close>

definition radix_of :: "u32 \<Rightarrow> u8 list \<Rightarrow> u32" where
  "radix_of base xs =
     (if base \<noteq> 0 then base
      else case xs of
          c0 # c1 # c2 # _ \<Rightarrow> if c0 = 0x30 then if fast_tolower c1 = 0x78 \<and> isxdigit c2 then 16 else 8 else 10
        | c0 # _ \<Rightarrow> if c0 = 0x30 then 8 else 10
        | [] \<Rightarrow> 10)"

definition skip_prefix :: "u32 \<Rightarrow> u8 list \<Rightarrow> u8 list" where
  "skip_prefix base xs =
     (case xs of c0 # c1 # ys \<Rightarrow> if base = 16 \<and> c0 = 0x30 \<and> fast_tolower c1 = 0x78 then ys else xs | _ \<Rightarrow> xs)"

definition unsigned_of :: "u32 \<Rightarrow> u8 list \<Rightarrow> int + nat" where
  "unsigned_of base xs =
     (let b = radix_of base xs; ys = skip_prefix b xs; ds = digits b ys; rest = drop (length ds) ys; n = num_value b 0 ds
      in if 2 ^ 64 \<le> n then Inl (- ERANGE)
         else if ds = [] \<or> rest \<notin> {[], [0x0a]} then Inl (- EINVAL)
         else Inr n)"

lemma fast_tolower_x: "fast_tolower 0 \<noteq> 0x78"
  by (simp add: fast_tolower_def)

lemma isxdigit_0: "\<not> isxdigit 0"
  by (simp add: isxdigit_iff isdigit_def)

lemma fixup_radix_str:
  assumes "str_at m s xs"
  shows "parse_integer_fixup_radix m s base =
    Some (s + (length xs - length (skip_prefix (radix_of base xs) xs)), radix_of base xs)"
    "str_at m (s + (length xs - length (skip_prefix (radix_of base xs) xs))) (skip_prefix (radix_of base xs) xs)"
proof -
  consider "xs = []" | c0 where "xs = [c0]" | c0 c1 where "xs = [c0, c1]" | c0 c1 c2 ys where "xs = c0 # c1 # c2 # ys"
    by (metis neq_Nil_conv)
  then show "parse_integer_fixup_radix m s base = Some (s + (length xs - length (skip_prefix (radix_of base xs) xs)), radix_of base xs)"
    by cases (use assms in \<open>auto simp: parse_integer_fixup_radix_def skip_prefix_def radix_of_def fast_tolower_x isxdigit_0\<close>)
  have "skip_prefix b xs = drop (length xs - length (skip_prefix b xs)) xs" for b
    by (auto simp: skip_prefix_def split: list.splits)
  then show "str_at m (s + (length xs - length (skip_prefix (radix_of base xs) xs))) (skip_prefix (radix_of base xs) xs)"
    using str_at_drop [OF assms, of "length xs - length (skip_prefix (radix_of base xs) xs)"] by simp
qed

lemma radix_of_range: "base \<le> 16 \<Longrightarrow> radix_of base xs \<noteq> 0 \<and> radix_of base xs \<le> 16"
  by (auto simp: radix_of_def split: list.splits)

lemma length_digits: "length (digits b xs) \<le> length xs"
  by (simp add: digits_def length_takeWhile_le)

lemma parse_integer_str:
  assumes "base \<noteq> 0" "base \<le> 16" "str_at m s xs" "length xs < 2 ^ 31"
  shows "parse_integer m s base =
    Some (counted (length (digits base xs)) (2 ^ 64 \<le> num_value base 0 (digits base xs)), of_nat (num_value base 0 (digits base xs)))"
proof -
  have "counted 0 (2 ^ 64 \<le> (0 :: nat)) = 0" by (simp add: counted_def)
  then show ?thesis using parse_loop_str [OF assms(1-3), of 0 0 0] assms(4) by (simp add: parse_integer_def)
qed

lemma kstrtoull_body_str:
  assumes "str_at m s xs" "length xs < 2 ^ 31" "base \<le> 16"
  shows "kstrtoull_body m s base = Some (map_sum id of_nat (unsigned_of base xs))"
proof -
  define b where "b = radix_of base xs"
  define ys where "ys = skip_prefix b xs"
  define t where "t = s + (length xs - length ys)"
  define ds where "ds = digits b ys"
  note fx = fixup_radix_str [OF assms(1), of base, folded b_def, folded ys_def, folded t_def]
  have b: "b \<noteq> 0" "b \<le> 16" using radix_of_range [OF assms(3)] by (simp_all add: b_def)
  have ly: "length ys \<le> length xs" by (auto simp: ys_def skip_prefix_def split: list.splits)
  then have l: "length ys < 2 ^ 31" "length ds < 2 ^ 31" using assms(2) length_digits [of b ys] unfolding ds_def by linarith+
  note pi = parse_integer_str [OF b fx(2) l(1), folded ds_def]
  have rest: "str_at m (t + length ds) (drop (length ds) ys)" using str_at_drop [OF fx(2) length_digits [of b ys]] by (simp add: ds_def)
  have z: "counted (length ds) False = 0 \<longleftrightarrow> ds = []"
    using counted_test(2) [OF l(2), of False] by (metis length_0_conv unat_eq_zero)
  have u: "unsigned_of base xs = (if 2 ^ 64 \<le> num_value b 0 ds then Inl (- ERANGE)
      else if ds = [] \<or> drop (length ds) ys \<notin> {[], [0x0a]} then Inl (- EINVAL) else Inr (num_value b 0 ds))"
    by (simp add: unsigned_of_def Let_def b_def ys_def ds_def)
  show ?thesis
  proof (cases "2 ^ 64 \<le> num_value b 0 ds")
    case True
    then show ?thesis using fx(1) pi counted_test(1) [OF l(2), of True] u by (simp add: kstrtoull_body_def)
  next
    case False
    then show ?thesis using fx(1) pi counted_test [OF l(2), of False] u rest z
      by (cases "drop (length ds) ys" rule: remdups_adj.cases) (auto simp: kstrtoull_body_def Let_def)
  qed
qed

definition strip_plus :: "u8 list \<Rightarrow> u8 list" where
  "strip_plus xs = (case xs of c # ys \<Rightarrow> if c = 0x2b then ys else xs | [] \<Rightarrow> [])"

text \<open>The result for a type with values below (signed: from \<open>- bound\<close> up to) a bound.\<close>

definition below :: "nat \<Rightarrow> int + nat \<Rightarrow> int + nat" where
  "below bound r = (case r of Inl e \<Rightarrow> Inl e | Inr n \<Rightarrow> if n < bound then Inr n else Inl (- ERANGE))"

definition within :: "int \<Rightarrow> int + int \<Rightarrow> int + int" where
  "within bound r = (case r of Inl e \<Rightarrow> Inl e | Inr n \<Rightarrow> if - bound \<le> n \<and> n < bound then Inr n else Inl (- ERANGE))"

definition signed_of :: "u32 \<Rightarrow> u8 list \<Rightarrow> int + int" where
  "signed_of base xs =
     (case xs of c # ys \<Rightarrow> if c = 0x2d then map_sum id (\<lambda>n. - int n) (unsigned_of base ys) else map_sum id int (unsigned_of base (strip_plus xs))
      | [] \<Rightarrow> map_sum id int (unsigned_of base []))"

lemma unsigned_of_bound: "unsigned_of base xs = Inr n \<Longrightarrow> n < 2 ^ 64"
  by (auto simp: unsigned_of_def Let_def split: if_splits)

lemma kstrtoull_str:
  assumes "str_at m s xs" "length xs < 2 ^ 31" "base \<le> 16"
  shows "kstrtoull m s base = Some (map_sum id of_nat (unsigned_of base (strip_plus xs)))"
proof (cases xs)
  case Nil
  then show ?thesis using assms kstrtoull_body_str [OF assms] by (simp add: kstrtoull_def strip_plus_def)
next
  case (Cons c ys)
  then have "str_at m (s + 1) ys" "length ys < 2 ^ 31" "rd m s = Some c" using assms(1,2) by auto
  then show ?thesis using kstrtoull_body_str [OF assms] kstrtoull_body_str [of m "s + 1" ys base] assms(3) Cons
    by (simp add: kstrtoull_def strip_plus_def)
qed

lemma simple_strtoull_str:
  assumes "str_at m s xs" "length xs < 2 ^ 31" "base \<le> 16"
  shows "simple_strtoull m s base =
    (let b = radix_of base xs; ys = skip_prefix b xs; ds = digits b ys
     in Some (of_nat (num_value b 0 ds), s + (length xs - length ys) + length ds))"
proof -
  let ?b = "radix_of base xs"
  let ?ys = "skip_prefix ?b xs"
  have b: "?b \<noteq> 0" "?b \<le> 16" using radix_of_range assms(3) by auto
  have l: "length ?ys \<le> length xs" by (auto simp: skip_prefix_def split: list.splits)
  then have "length ?ys < 2 ^ 31" using assms(2) by linarith
  moreover have "length (digits ?b ?ys) < 2 ^ 31" using length_digits [of ?b ?ys] l assms(2) by linarith
  ultimately show ?thesis using parse_integer_str [OF b fixup_radix_str(2) [OF assms(1)]] fixup_radix_str(1) [OF assms(1), of base]
    by (simp add: simple_strtoull_def Let_def counted_test(3))
qed

lemma unat_of_nat_64: "n < 2 ^ 64 \<Longrightarrow> unat (of_nat n :: u64) = n"
  by (simp add: unsigned_of_nat take_bit_nat_eq_self)

lemma kstrtoull_unat:
  assumes "str_at m s xs" "length xs < 2 ^ 31" "base \<le> 16"
  shows "map_option (map_sum id unat) (kstrtoull m s base) = Some (unsigned_of base (strip_plus xs))"
  using kstrtoull_str [OF assms] unsigned_of_bound by (cases "unsigned_of base (strip_plus xs)") (auto simp: unat_of_nat_64)

lemma narrow_unsigned_unat:
  assumes "LENGTH('a::len) \<le> 64" "map_option (map_sum id unat) r = Some u"
  shows "map_option (map_sum id unat) (narrow_unsigned r :: (int + 'a word) option) = Some (below (2 ^ LENGTH('a)) u)"
proof -
  obtain x where x: "r = Some x" "u = map_sum id unat x" using assms(2) by auto
  have "unat (ucast (ucast t :: 'a word) :: u64) = take_bit LENGTH('a) (unat t)" for t :: u64
    using assms(1) by (simp add: unsigned_ucast_eq min_def take_bit_take_bit unsigned_take_bit_eq)
  then have "t = ucast (ucast t :: 'a word) \<longleftrightarrow> unat t < 2 ^ LENGTH('a)" for t :: u64
    by (metis take_bit_nat_eq_self_iff word_unat_eq_iff)
  moreover have "unat (ucast t :: 'a word) = unat t" if "unat t < 2 ^ LENGTH('a)" for t :: u64
    using that by (simp add: unsigned_ucast_eq take_bit_nat_eq_self)
  ultimately show ?thesis using x by (cases x) (auto simp: narrow_unsigned_def below_def)
qed

lemma sint_of_int_64: "- (2 ^ 63) \<le> k \<Longrightarrow> k < 2 ^ 63 \<Longrightarrow> sint (of_int k :: u64) = k"
  by (simp add: signed_of_int signed_take_bit_int_eq_self)

lemma of_int_2_64: "(of_int (k - 2 ^ 64) :: u64) = of_int k"
proof -
  have "of_int (2 ^ 64) = (0::u64)" unfolding of_int_power of_int_numeral by (subst exp_eq_zero_iff) simp
  then show ?thesis unfolding of_int_diff by (rule subst [where P = "\<lambda>x. of_int k - x = of_int k", OF sym]) simp
qed

lemma sint_of_int_64_wrap: "2 ^ 63 \<le> k \<Longrightarrow> k < 2 ^ 64 \<Longrightarrow> sint (of_int k :: u64) = k - 2 ^ 64"
  using sint_of_int_64 [of "k - 2 ^ 64"] unfolding of_int_2_64 by simp

lemma sint_pos_64: "n < 2 ^ 64 \<Longrightarrow> sint (of_nat n :: u64) = (if n < 2 ^ 63 then int n else int n - 2 ^ 64)"
  using sint_of_int_64 [of "int n"] sint_of_int_64_wrap [of "int n"] by auto

lemma sint_neg_64: "n < 2 ^ 64 \<Longrightarrow> sint (- of_nat n :: u64) = (if n \<le> 2 ^ 63 then - int n else 2 ^ 64 - int n)"
proof -
  assume n: "n < 2 ^ 64"
  have "(- of_nat n :: u64) = of_int (- int n)" by simp
  moreover have "of_int (- int n) = (of_int (2 ^ 64 - int n) :: u64)" using of_int_2_64 [of "2 ^ 64 - int n"] by simp
  ultimately show ?thesis using sint_of_int_64 [of "- int n"] sint_of_int_64 [of "2 ^ 64 - int n"] n
    by (cases "n \<le> 2 ^ 63") (simp_all only:, auto)
qed

lemma kstrtoll_sint:
  assumes "str_at m s xs" "length xs < 2 ^ 31" "base \<le> 16"
  shows "map_option (map_sum id sint) (kstrtoll m s base) = Some (within (2 ^ 63) (signed_of base xs))"
proof (cases "\<exists>ys. xs = 0x2d # ys")
  case True
  then obtain ys where ys: "xs = 0x2d # ys" by blast
  then have "str_at m (s + 1) ys" "length ys < 2 ^ 31" "rd m s = Some 0x2d" using assms(1,2) by auto
  then show ?thesis using kstrtoull_body_str [of m "s + 1" ys base] assms(3) ys unsigned_of_bound [of base ys]
    by (cases "unsigned_of base ys") (auto simp: kstrtoll_def signed_of_def within_def sint_neg_64)
next
  case False
  then have "signed_of base xs = map_sum id int (unsigned_of base (strip_plus xs))"
    by (cases xs) (auto simp: signed_of_def strip_plus_def)
  moreover have "\<exists>c. rd m s = Some c \<and> c \<noteq> 0x2d" using assms(1) False by (cases xs) auto
  ultimately show ?thesis using kstrtoull_str [OF assms] unsigned_of_bound [of base "strip_plus xs"]
    by (cases "unsigned_of base (strip_plus xs)") (auto simp: kstrtoll_def within_def sint_pos_64)
qed

lemma narrow_signed_sint:
  assumes "LENGTH('a::len) \<le> 64" "map_option (map_sum id sint) r = Some u"
  shows "map_option (map_sum id sint) (narrow_signed r :: (int + 'a word) option) = Some (within (2 ^ (LENGTH('a) - 1)) u)"
proof -
  obtain x where x: "r = Some x" "u = map_sum id sint x" using assms(2) by auto
  let ?k = "LENGTH('a) - Suc 0"
  have k: "?k \<le> 63" using assms(1) by simp
  have s: "sint (ucast t :: 'a word) = signed_take_bit ?k (sint t)" for t :: u64
    unfolding signed_ucast_eq using k by (simp add: sint_uint [of t] min_def)
  have "sint (scast (ucast t :: 'a word) :: u64) = signed_take_bit ?k (sint t)" for t :: u64
    using k assms(1) by (cases "LENGTH('a) = 64") (simp_all add: signed_scast_eq s min_def)
  then have "t = scast (ucast t :: 'a word) \<longleftrightarrow> signed_take_bit ?k (sint t) = sint t" for t :: u64
    by (metis signed_word_eqI)
  then show ?thesis using x s by (cases x) (auto simp: narrow_signed_def within_def signed_take_bit_int_eq_self_iff)
qed

lemma str_at_list: "0 \<notin> set xs \<Longrightarrow> str_at (p @ xs @ 0 # q) (length p) xs"
  by (intro str_atI) (auto simp: nth_append)

section \<open>The functions of one contract\<close>

text \<open>The result of a conversion to a type of \<open>w\<close> bits.\<close>

definition unsigned_result :: "nat \<Rightarrow> u32 \<Rightarrow> u8 list \<Rightarrow> int + nat" where
  "unsigned_result w base xs = below (2 ^ w) (unsigned_of base (strip_plus xs))"

definition signed_result :: "nat \<Rightarrow> u32 \<Rightarrow> u8 list \<Rightarrow> int + int" where
  "signed_result w base xs = within (2 ^ (w - 1)) (signed_of base xs)"

text \<open>What a conversion function promises: on a string of characters its result, read by \<open>val\<close>, is that of \<open>spec\<close>.\<close>

locale conversion =
  fixes f :: "mem \<Rightarrow> nat \<Rightarrow> u32 \<Rightarrow> (int + 'a::len word) option"
    and val :: "'a word \<Rightarrow> 'v"
    and spec :: "u32 \<Rightarrow> u8 list \<Rightarrow> int + 'v"
  assumes on_string: "str_at m s xs \<Longrightarrow> length xs < 2 ^ 31 \<Longrightarrow> base \<le> 16 \<Longrightarrow>
    map_option (map_sum id val) (f m s base) = Some (spec base xs)"
begin

lemma from_user:
  assumes "cfu (min cnt (LENGTH('a) + 2)) = 0" "s + cnt \<le> length um" "0 \<notin> set (load cnt s um)" "base \<le> 16" "LENGTH('a) \<le> 64"
  shows "map_option (map_sum id val) (kstrto_from_user f cfu um s cnt base) = Some (spec base (load (min cnt (LENGTH('a) + 2)) s um))"
proof -
  let ?n = "min cnt (LENGTH('a) + 2)"
  let ?xs = "load ?n s um"
  have sub: "?xs = take ?n (load cnt s um)" by (simp add: load_def min_def)
  have "0 \<notin> set ?xs" unfolding sub using assms(3) by (meson in_set_takeD)
  then have "str_at (?xs @ [0]) 0 ?xs" using str_at_list [of ?xs "[]" "[]"] by simp
  moreover have "length ?xs < 2 ^ 31" using assms(5) by (simp add: load_def)
  ultimately have "map_option (map_sum id val) (f (?xs @ [0]) 0 base) = Some (spec base ?xs)" using assms(4) by (rule on_string)
  then show ?thesis using assms(1) by (simp add: kstrto_from_user_def from_user_def)
qed

lemma bad_address: "cfu (min cnt (LENGTH('a) + 2)) \<noteq> 0 \<Longrightarrow> kstrto_from_user f cfu um s cnt base = Some (Inl (- EFAULT))"
  by (simp add: kstrto_from_user_def from_user_def)

lemma from_user_result:
  assumes "s + cnt \<le> length um" "0 \<notin> set (load cnt s um)" "base \<le> 16" "n = LENGTH('a) + 2" "n \<le> 66"
  shows "map_option (map_sum id val) (kstrto_from_user f cfu um s cnt base) =
    Some (if cfu (min cnt n) \<noteq> 0 then Inl (- EFAULT) else spec base (load (min cnt n) s um))"
  using from_user [of cfu cnt s um base] bad_address [of cfu cnt um s base] assms by simp

end

lemma kstrtoull_result:
  "str_at m s xs \<Longrightarrow> length xs < 2 ^ 31 \<Longrightarrow> base \<le> 16 \<Longrightarrow> map_option (map_sum id unat) (kstrtoull m s base) = Some (unsigned_result 64 base xs)"
  using kstrtoull_unat [of m s xs base] unsigned_of_bound [of base "strip_plus xs"]
  by (cases "unsigned_of base (strip_plus xs)") (auto simp: unsigned_result_def below_def)

lemmas narrow_unsigned_result = narrow_unsigned_unat [OF _ kstrtoull_unat, folded unsigned_result_def]
lemmas narrow_signed_result = narrow_signed_sint [OF _ kstrtoll_sint]
lemmas narrow_defs = kstrtoul_def kstrtol_def kstrtouint_def kstrtoint_def kstrtou16_def kstrtos16_def kstrtou8_def kstrtos8_def

lemma within_within: "b \<le> c \<Longrightarrow> within b (within c r) = within b r"
  by (auto simp: within_def split: sum.splits)

interpretation ull: conversion kstrtoull unat "unsigned_result 64"
  by unfold_locales (rule kstrtoull_result)

interpretation ll: conversion kstrtoll sint "signed_result 64"
  using kstrtoll_sint by unfold_locales (simp add: signed_result_def)

interpretation ul: conversion kstrtoul unat "unsigned_result 32"
  using narrow_unsigned_result [where 'a = 32] by unfold_locales (simp add: narrow_defs)

interpretation sl: conversion kstrtol sint "signed_result 32"
  using narrow_signed_result [where 'a = 32] by unfold_locales (simp add: narrow_defs signed_result_def within_within)



interpretation u16: conversion kstrtou16 unat "unsigned_result 16"
  using narrow_unsigned_result [where 'a = 16] by unfold_locales (simp add: narrow_defs)

interpretation s16: conversion kstrtos16 sint "signed_result 16"
  using narrow_signed_result [where 'a = 16] by unfold_locales (simp add: narrow_defs signed_result_def within_within)

interpretation u8: conversion kstrtou8 unat "unsigned_result 8"
  using narrow_unsigned_result [where 'a = 8] by unfold_locales (simp add: narrow_defs)

interpretation s8: conversion kstrtos8 sint "signed_result 8"
  using narrow_signed_result [where 'a = 8] by unfold_locales (simp add: narrow_defs signed_result_def within_within)

section \<open>Properties\<close>




text \<open>C28: the functions that take the string from user space convert its first characters, two more than the type has bits, and ignore the
  rest; so a number written with leading zeros is cut within its digits and a different number is returned. A failed copy is \<open>- EFAULT\<close>.\<close>

theorem kstrto_from_user_cut:
  assumes "s + cnt \<le> length um" "0 \<notin> set (load cnt s um)" "base \<le> 16"
  shows "map_option (map_sum id unat) (kstrto_from_user kstrtoull cfu um s cnt base) =
      Some (if cfu (min cnt 66) \<noteq> 0 then Inl (- EFAULT) else unsigned_result 64 base (load (min cnt 66) s um))
    \<and> map_option (map_sum id unat) (kstrto_from_user kstrtoul cfu um s cnt base) =
      Some (if cfu (min cnt 34) \<noteq> 0 then Inl (- EFAULT) else unsigned_result 32 base (load (min cnt 34) s um))
    \<and> map_option (map_sum id unat) (kstrto_from_user kstrtou16 cfu um s cnt base) =
      Some (if cfu (min cnt 18) \<noteq> 0 then Inl (- EFAULT) else unsigned_result 16 base (load (min cnt 18) s um))
    \<and> map_option (map_sum id unat) (kstrto_from_user kstrtou8 cfu um s cnt base) =
      Some (if cfu (min cnt 10) \<noteq> 0 then Inl (- EFAULT) else unsigned_result 8 base (load (min cnt 10) s um))
    \<and> map_option (map_sum id sint) (kstrto_from_user kstrtoll cfu um s cnt base) =
      Some (if cfu (min cnt 66) \<noteq> 0 then Inl (- EFAULT) else signed_result 64 base (load (min cnt 66) s um))
    \<and> map_option (map_sum id sint) (kstrto_from_user kstrtol cfu um s cnt base) =
      Some (if cfu (min cnt 34) \<noteq> 0 then Inl (- EFAULT) else signed_result 32 base (load (min cnt 34) s um))
    \<and> map_option (map_sum id sint) (kstrto_from_user kstrtos16 cfu um s cnt base) =
      Some (if cfu (min cnt 18) \<noteq> 0 then Inl (- EFAULT) else signed_result 16 base (load (min cnt 18) s um))
    \<and> map_option (map_sum id sint) (kstrto_from_user kstrtos8 cfu um s cnt base) =
      Some (if cfu (min cnt 10) \<noteq> 0 then Inl (- EFAULT) else signed_result 8 base (load (min cnt 10) s um))"
  using ull.from_user_result [OF assms, of 66 cfu] ul.from_user_result [OF assms, of 34 cfu] u16.from_user_result [OF assms, of 18 cfu]
    u8.from_user_result [OF assms, of 10 cfu] ll.from_user_result [OF assms, of 66 cfu] sl.from_user_result [OF assms, of 34 cfu]
    s16.from_user_result [OF assms, of 18 cfu] s8.from_user_result [OF assms, of 10 cfu]
  by (intro conjI) simp_all

lemma fifteen: "unsigned_result 8 10 (replicate 9 0x30 @ [0x31]) = Inr 1" "unsigned_result 8 10 (replicate 9 0x30 @ [0x31, 0x35]) = Inr 15"
proof -
  let ?z = "replicate 9 0x30 :: u8 list"
  have "radix_of 10 (?z @ [0x31]) = 10" "skip_prefix 10 (?z @ [0x31]) = ?z @ [0x31]" "strip_plus (?z @ [0x31]) = ?z @ [0x31]"
    "digits 10 (?z @ [0x31]) = ?z @ [0x31]" "num_value 10 0 (?z @ [0x31]) = 1"
    by code_simp+
  then show "unsigned_result 8 10 (?z @ [0x31]) = Inr 1" by (simp add: unsigned_result_def unsigned_of_def below_def)
  have "radix_of 10 (?z @ [0x31, 0x35]) = 10" "skip_prefix 10 (?z @ [0x31, 0x35]) = ?z @ [0x31, 0x35]"
    "strip_plus (?z @ [0x31, 0x35]) = ?z @ [0x31, 0x35]" "digits 10 (?z @ [0x31, 0x35]) = ?z @ [0x31, 0x35]"
    "num_value 10 0 (?z @ [0x31, 0x35]) = 15"
    by code_simp+
  then show "unsigned_result 8 10 (?z @ [0x31, 0x35]) = Inr 15" by (simp add: unsigned_result_def unsigned_of_def below_def)
qed

theorem kstrto_from_user_cut_witness:
  "map_option (map_sum id unat) (kstrto_from_user kstrtou8 (\<lambda>n. 0) (replicate 9 0x30 @ [0x31, 0x35]) 0 11 10) = Some (Inr 1)
   \<and> unsigned_result 8 10 (replicate 9 0x30 @ [0x31, 0x35]) = Inr 15"
proof -
  let ?um = "replicate 9 0x30 @ [0x31, 0x35] :: mem"
  have l: "load 10 0 ?um = replicate 9 0x30 @ [0x31]" by code_simp
  have c: "0 + 11 \<le> length ?um" "0 \<notin> set (load 11 0 ?um)" "(10 :: u32) \<le> 16" by code_simp+
  have m: "min 11 10 = (10 :: nat)" by simp
  note cut = kstrto_from_user_cut [OF c, of "\<lambda>n. 0", THEN conjunct2, THEN conjunct2, THEN conjunct2, THEN conjunct1]
  then show ?thesis unfolding m l fifteen by (simp only: simp_thms if_False)
qed

end
