(* ===== verification/Number_Format.thy ===== *)
theory Number_Format
  imports String_Copy Kstrtox
begin

text \<open>
  Printing numbers and strings: the number and string conversions of \<^verbatim>\<open>lib/vsprintf.c\<close>, with the
  decimal conversion for machines with 32-bit \<^verbatim>\<open>long\<close>.

  The local array \<^verbatim>\<open>tmp\<close> is a memory of its own whose initial contents are an argument, so that the
  lemmas show that no uninitialised byte reaches the output. The output buffer is in the memory of \<open>String_Lib\<close>; as in the
  source, a character is stored only below \<open>end\<close>, and the position advances in any case.
\<close>

section \<open>Decimal conversion\<close>

definition decpair :: "u16 list" where
  "decpair = map (\<lambda>x. (of_nat (x mod 10) OR push_bit 8 (of_nat (x div 10))) + 0x3030) [0..<100]"

text \<open>\<^verbatim>\<open>*((u16 *)buf) = decpair[i]\<close>.\<close>

definition put_pair :: "mem \<Rightarrow> nat \<Rightarrow> u32 \<Rightarrow> mem option" where
  "put_pair m buf i =
     (if unat i < 100 then let d = decpair ! unat i in store_checked buf [ucast d, ucast (drop_bit 8 d)] m else None)"

text \<open>The code at the label \<^verbatim>\<open>out_r\<close>.\<close>

definition put_dec_out :: "mem \<Rightarrow> nat \<Rightarrow> u32 \<Rightarrow> (mem \<times> nat) option" where
  "put_dec_out m buf r = do { m \<leftarrow> put_pair m buf r; Some (m, buf + (if r < 10 then 1 else 2)) }"

definition put_dec_trunc8 :: "mem \<Rightarrow> nat \<Rightarrow> u32 \<Rightarrow> (mem \<times> nat) option" where
  "put_dec_trunc8 m buf r =
     (if r < 100 then put_dec_out m buf r
      else do {
        let q = ucast (drop_bit 32 (ucast r * 0x28f5c29 :: u64));
        m \<leftarrow> put_pair m buf (r - 100 * q);
        let buf = buf + 2;
        if q < 100 then put_dec_out m buf q
        else do {
          let r = ucast (drop_bit 32 (ucast q * 0x28f5c29 :: u64));
          m \<leftarrow> put_pair m buf (q - 100 * r);
          let buf = buf + 2;
          if r < 100 then put_dec_out m buf r
          else do {
            let q = drop_bit 19 (r * 0x147b);
            m \<leftarrow> put_pair m buf (r - 100 * q);
            put_dec_out m (buf + 2) q } } })"

definition put_dec_full4 :: "mem \<Rightarrow> nat \<Rightarrow> u32 \<Rightarrow> mem option" where
  "put_dec_full4 m buf r = do {
     let q = drop_bit 19 (r * 0x147b);
     m \<leftarrow> put_pair m buf (r - 100 * q);
     put_pair m (buf + 2) q }"

definition put_dec_helper4 :: "mem \<Rightarrow> nat \<Rightarrow> u32 \<Rightarrow> (mem \<times> u32) option" where
  "put_dec_helper4 m buf x = do {
     let q = ucast (drop_bit 43 (ucast x * 0x346DC5D7 :: u64));
     m \<leftarrow> put_dec_full4 m buf (x - q * 10000);
     Some (m, q) }"

text \<open>The loop that drops the zeros in front of the number, which are at the end of the buffer.\<close>

fun strip_zeros :: "mem \<Rightarrow> nat \<Rightarrow> nat option" where
  "strip_zeros m 0 = None"
| "strip_zeros m (Suc buf) = do { c \<leftarrow> rd m buf; if c = 0x30 then strip_zeros m buf else Some (Suc buf) }"

definition put_dec :: "mem \<Rightarrow> nat \<Rightarrow> u64 \<Rightarrow> (mem \<times> nat) option" where
  "put_dec m buf n =
     (if n < 100 * 1000 * 1000 then put_dec_trunc8 m buf (ucast n)
      else do {
        let d1 = drop_bit 16 (ucast n :: u32);
        let h = (ucast (drop_bit 32 n) :: u32);
        let d2 = h AND 0xffff;
        let d3 = drop_bit 16 h;
        let q = 656 * d3 + 7296 * d2 + 5536 * d1 + ((ucast n :: u32) AND 0xffff);
        (m, q) \<leftarrow> put_dec_helper4 m buf q;
        let q = q + 7671 * d3 + 9496 * d2 + 6 * d1;
        (m, q) \<leftarrow> put_dec_helper4 m (buf + 4) q;
        let q = q + 4749 * d3 + 42 * d2;
        (m, q) \<leftarrow> put_dec_helper4 m (buf + 8) q;
        let q = q + 281 * d3;
        let buf = buf + 12;
        if q \<noteq> 0 then put_dec_trunc8 m buf q else map_option (\<lambda>buf. (m, buf)) (strip_zeros m buf) })"

fun copy_reversed :: "mem \<Rightarrow> nat \<Rightarrow> nat \<Rightarrow> mem \<Rightarrow> mem option" where
  "copy_reversed tmp buf 0 m = Some m"
| "copy_reversed tmp buf (Suc n) m = do { c \<leftarrow> rd tmp n; m \<leftarrow> wr buf c m; copy_reversed tmp (buf + 1) n m }"

definition num_to_str :: "mem \<Rightarrow> mem \<Rightarrow> nat \<Rightarrow> int \<Rightarrow> u64 \<Rightarrow> (nat \<times> mem) option" where
  "num_to_str tmp m buf size' num = do {
     (tmp, len) \<leftarrow>
       (if num \<le> 9 then do { tmp \<leftarrow> wr 0 (0x30 + ucast num) tmp; Some (tmp, 1) }
        else put_dec tmp 0 num);
     if int len > size' then Some (0, m)
     else do { m \<leftarrow> copy_reversed tmp buf len m; Some (len, m) } }"

section \<open>Lemmas: decimal digits\<close>

text \<open>The digit characters of a number, the lowest first: the lowest \<open>k\<close> of them, and all of them.\<close>

definition digit_char :: "nat \<Rightarrow> u8" where
  "digit_char n = 0x30 + of_nat (n mod 10)"

fun dec_low :: "nat \<Rightarrow> nat \<Rightarrow> u8 list" where
  "dec_low 0 n = []"
| "dec_low (Suc k) n = digit_char n # dec_low k (n div 10)"

fun dec :: "nat \<Rightarrow> u8 list" where
  "dec n = (if n < 10 then [digit_char n] else digit_char n # dec (n div 10))"

declare dec.simps [simp del]

lemma length_dec_low [simp]: "length (dec_low k n) = k"
  by (induction k arbitrary: n) auto

lemma dec_low_append: "dec_low (j + k) n = dec_low j n @ dec_low k (n div 10 ^ j)"
  by (induction j arbitrary: n) (auto simp: div_mult2_eq)

lemma dec_split: "10 ^ k \<le> n \<Longrightarrow> dec n = dec_low k n @ dec (n div 10 ^ k)"
proof (induction k arbitrary: n)
  case (Suc k)
  then have "10 ^ k \<le> n div 10" by (simp add: less_eq_div_iff_mult_less_eq mult.commute)
  moreover have "1 \<le> (10 :: nat) ^ k" by simp
  ultimately have "1 \<le> n div 10" by linarith
  then have "\<not> n < 10" by auto
  then show ?case using Suc.IH [OF \<open>10 ^ k \<le> n div 10\<close>] by (subst dec.simps) (simp add: div_mult2_eq)
qed simp

lemma dec_low_mod: "dec_low k (n mod 10 ^ k) = dec_low k n"
proof (induction k arbitrary: n)
  case (Suc k)
  have d: "n mod 10 ^ Suc k mod 10 = n mod 10" by (simp add: mod_mod_cancel)
  have "n mod 10 ^ Suc k div 10 = (n div 10) mod 10 ^ k"
    by (simp add: mod_mult2_eq)
  then show ?case using Suc.IH [of "n div 10"] by (simp add: digit_char_def mod_mod_cancel)
qed simp

lemma dec_pad: "n < 10 ^ k \<Longrightarrow> 0 < k \<Longrightarrow> \<exists>z. dec_low k n = dec n @ replicate z 0x30"
proof (induction k arbitrary: n)
  case (Suc k)
  have z: "dec_low j 0 = replicate j 0x30" for j by (induction j) (auto simp: digit_char_def)
  show ?case
  proof (cases "n < 10")
    case True
    then show ?thesis by (auto simp: dec.simps [of n] z)
  next
    case False
    then have "0 < k" using Suc.prems by (cases k) auto
    moreover have "n div 10 < 10 ^ k" using Suc.prems by (simp add: less_mult_imp_div_less mult.commute)
    ultimately show ?thesis using Suc.IH [of "n div 10"] False by (auto simp: dec.simps [of n])
  qed
qed simp

lemma dec_nonempty [simp]: "dec n \<noteq> []"
  by (simp add: dec.simps [of n])

lemma digit_char_0: "digit_char n = 0x30 \<longleftrightarrow> n mod 10 = 0"
proof -
  have "2 ^ 8 dvd n mod 10 \<longleftrightarrow> n mod 10 = 0" by (auto dest: dvd_imp_le simp: linorder_not_less)
  then show ?thesis by (simp add: digit_char_def word_of_nat_eq_0_iff)
qed

lemma last_dec: "0 < n \<Longrightarrow> List.last (dec n) \<noteq> 0x30"
proof (induction n rule: dec.induct)
  case (1 n)
  show ?case
  proof (cases "n < 10")
    case True
    then show ?thesis using 1(2) by (simp add: dec.simps [of n] digit_char_0)
  next
    case False
    then show ?thesis using 1 by (simp add: dec.simps [of n])
  qed
qed

section \<open>Lemmas: division by multiplication\<close>

lemma div_by_mult:
  fixes x c d e :: nat
  assumes "c * d = 2 ^ k + e" "x div d * e + x mod d * c < 2 ^ k"
  shows "x * c div 2 ^ k = x div d"
proof -
  have "x * c = (x div d * d + x mod d) * c" by simp
  also have "\<dots> = x div d * (c * d) + x mod d * c" by (simp only: ring_distribs) simp
  also have "\<dots> = 2 ^ k * (x div d) + (x div d * e + x mod d * c)" unfolding assms(1) by (simp add: ring_distribs)
  finally show ?thesis using assms(2) by simp
qed

lemma div_100_long: "x < 10 ^ 8 \<Longrightarrow> x * 0x28f5c29 div 2 ^ 32 = x div (100 :: nat)"
proof (rule div_by_mult [where e = 4])
  assume "x < 10 ^ 8"
  then have "x div 100 \<le> 999999" "x mod 100 \<le> 99" by auto
  then show "x div 100 * 4 + x mod 100 * 0x28f5c29 < 2 ^ 32" by simp
qed simp

lemma div_100_short: "x < 10 ^ 4 \<Longrightarrow> x * 0x147b div 2 ^ 19 = x div (100 :: nat)"
proof (rule div_by_mult [where e = 12])
  assume "x < 10 ^ 4"
  then have "x div 100 \<le> 99" "x mod 100 \<le> 99" by auto
  then show "x div 100 * 12 + x mod 100 * 0x147b < 2 ^ 19" by simp
qed simp

text \<open>The bound that the comment on \<^verbatim>\<open>put_dec_helper4\<close> gives is exact.\<close>

lemma div_10000: "x < 1128869999 \<Longrightarrow> x * 0x346DC5D7 div 2 ^ 43 = x div (10000 :: nat)"
proof (rule div_by_mult [where e = 7792])
  assume x: "x < 1128869999"
  define q r where "q = x div 10000" and "r = x mod 10000"
  have "x = q * 10000 + r" "r \<le> 9999" by (simp_all add: q_def r_def)
  then have "q \<le> 112885 \<and> r \<le> 9999 \<or> q = 112886 \<and> r \<le> 9998" using x by linarith
  then have "q * 7792 + r * 0x346DC5D7 < 2 ^ 43" by auto
  then show "x div 10000 * 7792 + x mod 10000 * 0x346DC5D7 < 2 ^ 43" unfolding q_def r_def .
qed simp

lemma div_10000_sharp: "(1128869999 :: nat) * 0x346DC5D7 div 2 ^ 43 \<noteq> 1128869999 div 10000"
  by simp

lemma unat_mul_shift_64:
  fixes x :: u32 and c :: u64
  assumes "unat c < 2 ^ 32"
  shows "unat (drop_bit k (ucast x * c)) = unat x * unat c div 2 ^ k"
proof -
  have "unat x * unat c < 2 ^ 32 * 2 ^ 32" using unat_less_32 [of x] assms by (intro mult_strict_mono) auto
  then have "unat x * unat c < 2 ^ 64" by simp
  then have "unat (ucast x * c) = unat x * unat c" unfolding unat_word_ariths unat_ucast_64 by simp
  moreover have "unat (drop_bit k w) = unat w div 2 ^ k" for w :: u64
    by (subst unat_drop_bit_eq) (rule drop_bit_eq_div)
  ultimately show ?thesis by simp
qed

lemma ucast_mul_shift:
  fixes x :: u32 and c :: u64
  assumes "unat c < 2 ^ 32" "unat x * unat c div 2 ^ k = y" "y < 2 ^ 32"
  shows "(ucast (drop_bit k (ucast x * c)) :: u32) = of_nat y"
proof -
  have "(ucast (drop_bit k (ucast x * c)) :: u32) = of_nat (unat (drop_bit k (ucast x * c)))" by (simp add: unsigned_of_nat)
  then show ?thesis unfolding unat_mul_shift_64 [OF assms(1)] assms(2) .
qed

section \<open>Lemmas: the decimal conversion\<close>

lemma decpair_bytes:
  assumes "x < 100"
  shows "[ucast (decpair ! x), ucast (drop_bit 8 (decpair ! x))] = dec_low 2 x"
proof -
  have "map (\<lambda>d. [ucast d, ucast (drop_bit 8 d)]) decpair = map (dec_low 2) [0..<100]" by code_simp
  then have "map (\<lambda>d. [ucast d, ucast (drop_bit 8 d)]) decpair ! x = dec_low 2 x" using assms by simp
  moreover have "length decpair = 100" by (simp add: decpair_def)
  ultimately show ?thesis using assms by simp
qed

lemma put_pair_store: "x < 100 \<Longrightarrow> buf + 2 \<le> length m \<Longrightarrow> put_pair m buf (of_nat x) = Some (store buf (dec_low 2 x) m)"
  by (simp add: put_pair_def unat_of_nat_32 decpair_bytes store_checked_def Let_def)

lemma word_rem_32: "(of_nat x :: u32) - c * of_nat (x div unat c) = of_nat (x mod unat c)"
proof -
  have "(of_nat x :: u32) = of_nat (unat c * (x div unat c) + x mod unat c)" by simp
  also have "\<dots> = of_nat (unat c) * of_nat (x div unat c) + of_nat (x mod unat c)" by (simp only: of_nat_add of_nat_mult)
  also have "of_nat (unat c) = c" by simp
  finally show ?thesis by (simp only: add_diff_cancel_left')
qed

lemma word_rem_100: "(of_nat x :: u32) - 100 * of_nat (x div 100) = of_nat (x mod 100)"
  using word_rem_32 [of x 100] by simp

lemma word_rem_10000: "(of_nat x :: u32) - of_nat (x div 10000) * 10000 = of_nat (x mod 10000)"
  using word_rem_32 [of x 10000] by (simp add: mult.commute)

lemma quot_100_long: "x < 10 ^ 8 \<Longrightarrow> (ucast (drop_bit 32 (ucast (of_nat x :: u32) * 0x28f5c29 :: u64)) :: u32) = of_nat (x div 100)"
  by (rule ucast_mul_shift) (use div_100_long [of x] in \<open>simp_all add: unat_of_nat_32\<close>)

lemma quot_10000: "x < 1128869999 \<Longrightarrow> (ucast (drop_bit 43 (ucast (of_nat x :: u32) * 0x346DC5D7 :: u64)) :: u32) = of_nat (x div 10000)"
  by (rule ucast_mul_shift) (use div_10000 [of x] in \<open>simp_all add: unat_of_nat_32\<close>)

lemma quot_100_short: "x < 10 ^ 4 \<Longrightarrow> drop_bit 19 (of_nat x * 0x147b :: u32) = of_nat (x div 100)"
proof -
  assume x: "x < 10 ^ 4"
  have "unat (of_nat x * 0x147b :: u32) = x * 0x147b" using x by (simp add: unat_word_ariths unat_of_nat_32)
  then have "unat (drop_bit 19 (of_nat x * 0x147b :: u32)) = x div 100" unfolding unat_drop_bit_32 using div_100_short [OF x] by simp
  then have "(of_nat (unat (drop_bit 19 (of_nat x * 0x147b :: u32))) :: u32) = of_nat (x div 100)" by (rule arg_cong)
  then show ?thesis by simp
qed

lemma less_of_nat_32: "x < 2 ^ 32 \<Longrightarrow> unat c = d \<Longrightarrow> (of_nat x :: u32) < c \<longleftrightarrow> x < d"
  by (simp add: word_less_nat_alt unat_of_nat_32)

lemma dec_2: "x < 100 \<Longrightarrow> dec_low 2 x = dec x @ (if x < 10 then [0x30] else [])"
  by (auto simp: numeral_2_eq_2 dec.simps [of x] dec.simps [of "x div 10"] digit_char_def)

lemma dec_100: "100 \<le> n \<Longrightarrow> dec n = dec_low 2 (n mod 100) @ dec (n div 100)"
  using dec_split [of 2 n] dec_low_mod [of 2 n] by simp

lemma length_dec_2: "x < 100 \<Longrightarrow> length (dec x) = (if x < 10 then 1 else 2)"
  by (auto simp: dec.simps [of x] dec.simps [of "x div 10"])

text \<open>The characters that the conversion stores: pairs of digits, so there may be a zero after the last one.\<close>

definition dec_even :: "nat \<Rightarrow> u8 list" where
  "dec_even n = dec n @ (if odd (length (dec n)) then [0x30] else [])"

lemma dec_even_2: "x < 100 \<Longrightarrow> dec_even x = dec_low 2 x"
  by (simp add: dec_even_def dec_2 length_dec_2)

lemma dec_even_100: "100 \<le> x \<Longrightarrow> dec_even x = dec_low 2 (x mod 100) @ dec_even (x div 100)"
  by (simp add: dec_even_def dec_100)

lemma put_dec_out_store:
  "x < 100 \<Longrightarrow> buf + 2 \<le> length m \<Longrightarrow> put_dec_out m buf (of_nat x) = Some (store buf (dec_even x) m, buf + length (dec x))"
  by (simp add: put_dec_out_def put_pair_store dec_even_2 length_dec_2 less_of_nat_32 [where d = 10])

lemma store_next: "b = a + length xs \<Longrightarrow> a + length xs + length ys \<le> length m \<Longrightarrow> store b ys (store a xs m) = store a (xs @ ys) m"
  using store_store [of a xs m ys] by simp

lemma length_dec_100: "100 \<le> n \<Longrightarrow> length (dec n) = 2 + length (dec (n div 100))"
  by (simp add: dec_100)

lemma put_dec_trunc8_store:
  assumes "x < 10 ^ 8" "buf + 8 \<le> length m"
  shows "put_dec_trunc8 m buf (of_nat x) = Some (store buf (dec_even x) m, buf + length (dec x))"
proof -
  let ?y = "x div 100" let ?z = "?y div 100" let ?w = "?z div 100"
  have b: "?y < 10 ^ 6" "?z < 10 ^ 4" "?w < 100" "?y < 10 ^ 8" using assms(1) by auto
  have lt: "(of_nat x :: u32) < 100 \<longleftrightarrow> x < 100" "(of_nat ?y :: u32) < 100 \<longleftrightarrow> ?y < 100" "(of_nat ?z :: u32) < 100 \<longleftrightarrow> ?z < 100"
    using assms(1) b by (simp_all add: less_of_nat_32 [where d = 100])
  note quot = quot_100_long [OF assms(1)] quot_100_long [OF b(4)] quot_100_short [OF b(2)]
  note ev = dec_even_100 dec_even_2 put_dec_out_store put_pair_store store_next length_dec_100 word_rem_100
  consider "x < 100" | "100 \<le> x" "?y < 100" | "100 \<le> x" "100 \<le> ?y" "?z < 100" | "100 \<le> x" "100 \<le> ?y" "100 \<le> ?z" by linarith
  then show ?thesis
  proof cases
    case 1
    then show ?thesis using assms(2) by (simp add: put_dec_trunc8_def lt put_dec_out_store)
  next
    case 2
    then show ?thesis using assms(2) unfolding put_dec_trunc8_def lt quot Let_def by (simp add: ev)
  next
    case 3
    then show ?thesis using assms(2) unfolding put_dec_trunc8_def lt quot Let_def by (simp add: ev)
  next
    case 4
    then show ?thesis using assms(2) b(3) unfolding put_dec_trunc8_def lt quot Let_def by (simp add: ev)
  qed
qed

lemma dec_low_4: "dec_low 4 (x mod 10000) = dec_low 2 (x mod 10000 mod 100) @ dec_low 2 (x mod 10000 div 100)"
  using dec_low_append [of 2 2 "x mod 10000"] dec_low_mod [of 2 "x mod 10000"] by simp

lemma put_dec_full4_store: "x < 10000 \<Longrightarrow> buf + 4 \<le> length m \<Longrightarrow> put_dec_full4 m buf (of_nat x) = Some (store buf (dec_low 4 x) m)"
  using dec_low_4 [of x] by (simp add: put_dec_full4_def quot_100_short word_rem_100 put_pair_store store_next)

lemma put_dec_helper4_store:
  "x < 1128869999 \<Longrightarrow> buf + 4 \<le> length m \<Longrightarrow>
   put_dec_helper4 m buf (of_nat x) = Some (store buf (dec_low 4 x) m, of_nat (x div 10000))"
  using put_dec_full4_store [of "x mod 10000" buf m] dec_low_mod [of 4 x]
  unfolding put_dec_helper4_def quot_10000 Let_def word_rem_10000 by simp

lemma unat_and_ffff: "unat (x AND 0xffff :: u32) = unat x mod 2 ^ 16"
proof -
  have "x AND 0xffff = take_bit 16 x" by (simp add: take_bit_eq_mask mask_eq_exp_minus_1)
  then have "unat (x AND 0xffff) = take_bit 16 (unat x)" by (simp only: unsigned_take_bit_eq)
  then show ?thesis unfolding take_bit_eq_mod .
qed

lemma unat_ucast_32: "unat (ucast (n :: u64) :: u32) = unat n mod 2 ^ 32"
  by (simp add: unsigned_ucast_eq take_bit_eq_mod)

lemma unat_drop_bit_64: "unat (drop_bit k (x :: u64)) = unat x div 2 ^ k"
  by (subst unat_drop_bit_eq) (rule drop_bit_eq_div)

lemma of_nat_unatI: "unat (x :: u32) = y \<Longrightarrow> x = of_nat y"
  by auto

lemma put_dec_pieces:
  fixes n :: u64
  shows "drop_bit 16 (ucast n :: u32) = of_nat (unat n div 2 ^ 16 mod 2 ^ 16)"
    "(ucast n :: u32) AND 0xffff = of_nat (unat n mod 2 ^ 16)"
    "(ucast (drop_bit 32 n) :: u32) AND 0xffff = of_nat (unat n div 2 ^ 32 mod 2 ^ 16)"
    "drop_bit 16 (ucast (drop_bit 32 n) :: u32) = of_nat (unat n div 2 ^ 48)"
proof (rule_tac [!] of_nat_unatI)
  have m: "x mod 2 ^ 32 mod 2 ^ 16 = x mod (2 ^ 16 :: nat)" "x mod 2 ^ 32 div 2 ^ 16 = x div 2 ^ 16 mod (2 ^ 16 :: nat)" for x
    using mod_mult2_eq [of x "2 ^ 16" "2 ^ 16"] by (simp_all add: mod_mod_cancel)
  have "unat n < 2 ^ 64" using unsigned_less [of n, where 'a = nat] by simp
  then have h: "unat n div 2 ^ 32 mod 2 ^ 32 = unat n div 2 ^ 32" by simp
  show "unat (drop_bit 16 (ucast n :: u32)) = unat n div 2 ^ 16 mod 2 ^ 16" unfolding unat_drop_bit_32 unat_ucast_32 m ..
  show "unat ((ucast n :: u32) AND 0xffff) = unat n mod 2 ^ 16" unfolding unat_and_ffff unat_ucast_32 m ..
  show "unat ((ucast (drop_bit 32 n) :: u32) AND 0xffff) = unat n div 2 ^ 32 mod 2 ^ 16"
    unfolding unat_and_ffff unat_ucast_32 unat_drop_bit_64 m ..
  show "unat (drop_bit 16 (ucast (drop_bit 32 n) :: u32)) = unat n div 2 ^ 48"
    unfolding unat_drop_bit_32 unat_ucast_32 unat_drop_bit_64 h by (simp flip: div_mult2_eq)
qed

text \<open>The column sums in base 10000.\<close>

lemma column:
  fixes a b :: nat
  assumes "N = a + 10000 * b"
  shows "dec_low 4 N = dec_low 4 a" "N div 10000 = a div 10000 + b"
proof -
  have "N mod 10 ^ 4 = a mod 10 ^ 4" using assms by simp
  then show "dec_low 4 N = dec_low 4 a" using dec_low_mod [of 4 N] dec_low_mod [of 4 a] by simp
  show "N div 10000 = a div 10000 + b" using assms by simp
qed

lemma columns:
  fixes d0 d1 d2 d3 :: nat
  assumes "N = d0 + 2 ^ 16 * d1 + 2 ^ 32 * d2 + 2 ^ 48 * d3"
    and "q0 = 656 * d3 + 7296 * d2 + 5536 * d1 + d0"
    and "q1 = q0 div 10000 + 7671 * d3 + 9496 * d2 + 6 * d1"
    and "q2 = q1 div 10000 + 4749 * d3 + 42 * d2"
    and "q3 = q2 div 10000 + 281 * d3"
  shows "dec_low 12 N = dec_low 4 q0 @ dec_low 4 q1 @ dec_low 4 q2" "N div 10 ^ 12 = q3"
proof -
  have n0: "N = q0 + 10000 * (7671 * d3 + 9496 * d2 + 6 * d1 + 10000 * (4749 * d3 + 42 * d2 + 10000 * (281 * d3)))"
    using assms(1,2) by simp
  have n1: "N div 10000 = q1 + 10000 * (4749 * d3 + 42 * d2 + 10000 * (281 * d3))" using column(2) [OF n0] assms(3) by simp
  have n2: "N div 10000 div 10000 = q2 + 10000 * (281 * d3)" using column(2) [OF n1] assms(4) by simp
  have "dec_low 12 N = dec_low 4 N @ dec_low 4 (N div 10000) @ dec_low 4 (N div 10000 div 10000)"
    using dec_low_append [of 4 8 N] dec_low_append [of 4 4 "N div 10000"] by simp
  then show "dec_low 12 N = dec_low 4 q0 @ dec_low 4 q1 @ dec_low 4 q2" using column(1) [OF n0] column(1) [OF n1] column(1) [OF n2] by simp
  have "N div 10000 div 10000 div 10000 = q3" using column(2) [OF n2] assms(5) by simp
  then show "N div 10 ^ 12 = q3" by (simp flip: div_mult2_eq)
qed

lemma strip_zeros_store:
  assumes "buf + length xs + z \<le> length m" "xs \<noteq> []" "List.last xs \<noteq> 0x30"
  shows "strip_zeros (store buf (xs @ replicate z 0x30) m) (buf + length xs + z) = Some (buf + length xs)"
proof -
  let ?m = "store buf (xs @ replicate z 0x30) m"
  have rd: "rd ?m (buf + length xs + j) = Some 0x30" if "j < z" for j using assms(1) that by (simp add: rd_def nth_store nth_append)
  have "strip_zeros ?m (buf + length xs + j) = Some (buf + length xs)" if "j \<le> z" for j
    using that
  proof (induction j)
    case 0
    obtain ys y where y: "xs = ys @ [y]" using assms(2) by (metis rev_exhaust)
    then have "rd ?m (buf + length ys) = Some y" using assms(1) by (simp add: rd_def nth_store nth_append)
    then show ?case using y assms(3) by simp
  next
    case (Suc j)
    then show ?case using rd [of j] by simp
  qed
  then show ?thesis by simp
qed

lemma unat_less_64: "unat (n :: u64) < 2 ^ 64"
  using unsigned_less [of n, where 'a = nat] by simp

lemma put_dec_large:
  fixes n :: u64
  assumes "10 ^ 8 \<le> unat n" "buf + 20 \<le> length m"
  shows "put_dec m buf n =
    (if unat n div 10 ^ 12 \<noteq> 0 then put_dec_trunc8 (store buf (dec_low 12 (unat n)) m) (buf + 12) (of_nat (unat n div 10 ^ 12))
     else map_option (\<lambda>b. (store buf (dec_low 12 (unat n)) m, b)) (strip_zeros (store buf (dec_low 12 (unat n)) m) (buf + 12)))"
proof -
  let ?N = "unat n"
  define d0 d1 d2 d3 where d: "d0 = ?N mod 2 ^ 16" "d1 = ?N div 2 ^ 16 mod 2 ^ 16" "d2 = ?N div 2 ^ 32 mod 2 ^ 16" "d3 = ?N div 2 ^ 48"
  have db: "d0 < 2 ^ 16" "d1 < 2 ^ 16" "d2 < 2 ^ 16" by (simp_all add: d)
  have d3: "d3 < 2 ^ 16" using unat_less_64 [of n] by (simp add: d less_mult_imp_div_less)
  define q0 where q0: "q0 = 656 * d3 + 7296 * d2 + 5536 * d1 + d0"
  define q1 where q1: "q1 = q0 div 10000 + 7671 * d3 + 9496 * d2 + 6 * d1"
  define q2 where q2: "q2 = q1 div 10000 + 4749 * d3 + 42 * d2"
  define q3 where q3: "q3 = q2 div 10000 + 281 * d3"
  have "?N = ?N mod 2 ^ 16 + 2 ^ 16 * (?N div 2 ^ 16 mod 2 ^ 16 + 2 ^ 16 * (?N div 2 ^ 16 div 2 ^ 16 mod 2 ^ 16 + 2 ^ 16 * (?N div 2 ^ 16 div 2 ^ 16 div 2 ^ 16)))"
    by simp
  then have N: "?N = d0 + 2 ^ 16 * d1 + 2 ^ 32 * d2 + 2 ^ 48 * d3" unfolding d by (simp flip: div_mult2_eq add: algebra_simps)
  note col = columns [OF N q0 q1 q2 q3]
  have b: "q0 < 1128869999" "q1 < 1128869999" "q2 < 1128869999" using db d3 by (simp_all add: q0 q1 q2)
  have w0: "656 * of_nat d3 + 7296 * of_nat d2 + 5536 * of_nat d1 + of_nat d0 = (of_nat q0 :: u32)" by (simp add: q0)
  have w1: "of_nat (q0 div 10000) + 7671 * of_nat d3 + 9496 * of_nat d2 + 6 * of_nat d1 = (of_nat q1 :: u32)" by (simp add: q1)
  have w2: "of_nat (q1 div 10000) + 4749 * of_nat d3 + 42 * of_nat d2 = (of_nat q2 :: u32)" by (simp add: q2)
  have w3: "of_nat (q2 div 10000) + 281 * of_nat d3 = (of_nat q3 :: u32)" by (simp add: q3)
  have "q3 < 2 ^ 32" using b(3) d3 by (simp add: q3)
  then have z: "(of_nat q3 :: u32) \<noteq> 0 \<longleftrightarrow> q3 \<noteq> 0" by (cases "q3 = 0") (auto simp: word_of_nat_eq_0_iff dest: dvd_imp_le)
  have small: "\<not> n < 100 * 1000 * 1000" using assms(1) by (simp add: word_less_nat_alt)
  show ?thesis unfolding put_dec_def Let_def put_dec_pieces(3,4) unfolding put_dec_pieces(1,2) d [symmetric] w0 col
    using small assms(2) by (simp add: put_dec_helper4_store b w1 w2 w3 z store_next)
qed

lemma put_dec_store:
  fixes n :: u64
  assumes "buf + 20 \<le> length m"
  shows "\<exists>z. put_dec m buf n = Some (store buf (dec (unat n) @ z) m, buf + length (dec (unat n))) \<and> length (dec (unat n) @ z) \<le> 20"
proof -
  let ?N = "unat n"
  have len: "length (dec_even x) \<le> 8" if x: "x < 10 ^ 8" for x
  proof -
    obtain z where "dec_low 8 x = dec x @ replicate z 0x30" using dec_pad [OF x] by auto
    then have "length (dec x) \<le> 8" by (metis length_append length_dec_low le_add1)
    moreover have "odd (length (dec x)) \<Longrightarrow> length (dec x) \<noteq> 8" by auto
    ultimately show ?thesis by (auto simp: dec_even_def)
  qed
  consider "?N < 10 ^ 8" | "10 ^ 8 \<le> ?N" "?N < 10 ^ 12" | "10 ^ 12 \<le> ?N" by linarith
  then show ?thesis
  proof cases
    case 1
    then have "n < 100 * 1000 * 1000" "(ucast n :: u32) = of_nat ?N" by (simp_all add: word_less_nat_alt)
    then show ?thesis using put_dec_trunc8_store [OF 1, of buf m] assms len [OF 1]
      by (intro exI [of _ "if odd (length (dec ?N)) then [0x30] else []"]) (simp add: put_dec_def dec_even_def)
  next
    case 2
    obtain z where z: "dec_low 12 ?N = dec ?N @ replicate z 0x30" using dec_pad [OF 2(2)] by auto
    then have l: "length (dec ?N) + z = 12" by (metis length_append length_dec_low length_replicate)
    have "0 < ?N" using 2(1) by (cases "?N = 0") auto
    then have "strip_zeros (store buf (dec_low 12 ?N) m) (buf + 12) = Some (buf + length (dec ?N))"
      using strip_zeros_store [of buf "dec ?N" z m] last_dec [of ?N] l assms unfolding z by (simp add: add.assoc)
    then show ?thesis using put_dec_large [OF 2(1) assms] 2(2) z l by auto
  next
    case 3
    define d where d: "d = ?N div 10 ^ 12"
    have "?N div 10 ^ 12 < 10 ^ 8" using unat_less_64 [of n] by (simp add: div_less_iff_less_mult)
    then have small: "d < 10 ^ 8" by (simp only: d)
    have "?N div 10 ^ 12 \<noteq> 0" using 3 by (simp add: div_eq_0_iff)
    then have "d \<noteq> 0" by (simp only: d not_False_eq_True)
    moreover have "10 ^ 8 \<le> ?N" using 3 by simp
    ultimately have "put_dec m buf n = put_dec_trunc8 (store buf (dec_low 12 ?N) m) (buf + 12) (of_nat d)"
      using put_dec_large [of n buf m] assms unfolding d [symmetric] by simp
    then show ?thesis using put_dec_trunc8_store [OF small, of "buf + 12" "store buf (dec_low 12 ?N) m"]
        dec_split [OF 3, folded d] len [OF small] assms
      by (intro exI [of _ "if odd (length (dec d)) then [0x30] else []"]) (simp add: store_next dec_even_def)
  qed
qed

lemma copy_reversed_store:
  assumes "n \<le> length tmp"
  shows "buf + n \<le> length m \<Longrightarrow> copy_reversed tmp buf n m = Some (store buf (rev (take n tmp)) m)"
  using assms
proof (induction n arbitrary: buf m)
  case (Suc n)
  then have "copy_reversed tmp (buf + 1) n (m[buf := tmp ! n]) = Some (store (buf + 1) (rev (take n tmp)) (m[buf := tmp ! n]))" by simp
  then show ?case using Suc.prems by (simp add: rd_def wr_def store_Cons take_Suc_conv_app_nth)
qed simp

lemma length_dec_64: "length (dec (unat (n :: u64))) \<le> 20"
  using put_dec_store [of 0 "replicate 20 0" n] by auto

lemma num_to_str_spec:
  assumes "length tmp = 24" "int (length (dec (unat num))) \<le> size' \<Longrightarrow> buf + length (dec (unat num)) \<le> length m"
  shows "num_to_str tmp m buf size' num =
    Some (if int (length (dec (unat num))) > size' then (0, m) else (length (dec (unat num)), store buf (rev (dec (unat num))) m))"
proof (cases "num \<le> 9")
  case True
  then have n: "unat num < 10" by (simp add: word_le_nat_alt)
  then have d: "dec (unat num) = [0x30 + ucast num]" by (simp add: dec.simps [of "unat num"] digit_char_def)
  obtain t where "tmp = t # tl tmp" using assms(1) by (cases tmp) auto
  then have "wr 0 (0x30 + ucast num) tmp = Some ((0x30 + ucast num) # tl tmp)" by (metis list_update_code(2) wr_Some_iff length_greater_0_conv list.distinct(1))
  then show ?thesis using True assms(2) copy_reversed_store [of 1 "(0x30 + ucast num) # tl tmp" buf m] d
    by (auto simp: num_to_str_def)
next
  case False
  obtain z where z: "put_dec tmp 0 num = Some (store 0 (dec (unat num) @ z) tmp, length (dec (unat num)))" "length (dec (unat num) @ z) \<le> 20"
    using put_dec_store [of 0 tmp num] assms(1) by auto
  have "take (length (dec (unat num))) (store 0 (dec (unat num) @ z) tmp) = dec (unat num)" by (simp add: store_def)
  then show ?thesis using False z assms copy_reversed_store [of "length (dec (unat num))" "store 0 (dec (unat num) @ z) tmp" buf m]
    by (auto simp: num_to_str_def)
qed

section \<open>Reading a printed number back\<close>

lemma digit_value_char: "digit_value (digit_char n) = Some (of_nat (n mod 10))"
proof -
  have "map (\<lambda>d. digit_value (digit_char d)) [0..<10] = map (\<lambda>d. Some (of_nat d)) [0..<10]" by code_simp
  then have "map (\<lambda>d. digit_value (digit_char d)) [0..<10] ! (n mod 10) = map (\<lambda>d. Some (of_nat d)) [0..<10] ! (n mod 10)" by simp
  then show ?thesis by (simp add: digit_char_def)
qed

lemma digit_char_plain: "digit_char n \<noteq> 0" "digit_char n \<noteq> 0x2b" "is_digit 10 (digit_char n)"
proof -
  have "list_all (\<lambda>d. digit_char d \<noteq> 0 \<and> digit_char d \<noteq> 0x2b) [0..<10]" by code_simp
  then have "digit_char (n mod 10) \<noteq> 0 \<and> digit_char (n mod 10) \<noteq> 0x2b" by (simp only: list_all_iff set_upt) simp
  then show "digit_char n \<noteq> 0" "digit_char n \<noteq> 0x2b" by (simp_all add: digit_char_def)
  show "is_digit 10 (digit_char n)" by (simp add: is_digit_def digit_value_char word_less_nat_alt unat_of_nat_32)
qed

lemma dec_chars: "c \<in> set (dec n) \<Longrightarrow> \<exists>d. c = digit_char d"
proof (induction n rule: dec.induct)
  case (1 n)
  then show ?case by (cases "n < 10") (auto simp: dec.simps [of n])
qed

lemma num_value_snoc: "num_value b k (xs @ [c]) = num_value b k xs * unat b + unat (the (digit_value c))"
  by (simp add: num_value_def)

lemma num_value_dec: "num_value 10 0 (rev (dec n)) = n"
proof (induction n rule: dec.induct)
  case (1 n)
  have u: "unat (of_nat (n mod 10) :: u32) = n mod 10" by (simp add: unat_of_nat_32)
  show ?case
  proof (cases "n < 10")
    case True
    then show ?thesis using u by (simp add: dec.simps [of n] digit_value_char)
  next
    case False
    then show ?thesis using 1 u by (simp add: dec.simps [of n] num_value_snoc digit_value_char)
  qed
qed

lemma unsigned_of_dec: "n < 2 ^ 64 \<Longrightarrow> unsigned_of 10 (strip_plus (rev (dec n))) = Inr n"
proof -
  assume n: "n < 2 ^ 64"
  have "strip_plus (rev (dec n)) = rev (dec n)"
    using dec_chars [of _ n] digit_char_plain(2) by (auto simp: strip_plus_def split: list.splits) (metis list.set_intros(1) set_rev)
  moreover have "digits 10 (rev (dec n)) = rev (dec n)"
    unfolding digits_def by (rule takeWhile_eq_all_conv [THEN iffD2]) (use dec_chars [of _ n] digit_char_plain(3) in auto)
  moreover have "skip_prefix 10 (rev (dec n)) = rev (dec n)" "radix_of 10 (rev (dec n)) = 10"
    by (auto simp: skip_prefix_def radix_of_def split: list.splits)
  ultimately show ?thesis using n num_value_dec [of n] by (simp add: unsigned_of_def)
qed

text \<open>C29: \<^verbatim>\<open>num_to_str\<close>, which divides by multiplications with reciprocals and writes two digits at a time, writes the decimal
  digits of every 64-bit number as repeated division by ten gives them, whatever its local array held before, or returns 0 if they do not fit; a
  number printed so and terminated is read back by \<^verbatim>\<open>kstrtoull\<close>.\<close>

theorem num_to_str_reads_back:
  assumes "length tmp = 24" "buf + 20 < length m"
  shows "let ds = rev (dec (unat num)) in
    num_to_str tmp m buf size' num = Some (if int (length ds) > size' then (0, m) else (length ds, store buf ds m)) \<and>
    num_value 10 0 ds = unat num \<and>
    kstrtoull ((store buf ds m)[buf + length ds := 0]) buf 10 = Some (Inr num)"
proof -
  let ?ds = "rev (dec (unat num))"
  have l: "length ?ds \<le> 20" using length_dec_64 by simp
  have z: "0 \<notin> set ?ds" using dec_chars [of 0 "unat num"] digit_char_plain(1) by auto
  have "(store buf ?ds m)[buf + length ?ds := 0] = store buf (?ds @ [0]) m" using l assms(2) by (intro store_update) linarith
  then have s: "str_at ((store buf ?ds m)[buf + length ?ds := 0]) buf ?ds" using str_at_store [of buf ?ds m] l z assms(2) by simp
  moreover have "length ?ds < 2 ^ 31" using l by simp
  ultimately have "kstrtoull ((store buf ?ds m)[buf + length ?ds := 0]) buf 10 = Some (map_sum id of_nat (Inr (unat num)))"
    unfolding unsigned_of_dec [OF unat_less_64, symmetric] by (rule kstrtoull_str) simp
  then show ?thesis using num_to_str_spec [OF assms(1), of num size' buf m] num_value_dec assms(2) l by (simp add: Let_def)
qed

lemma dec_witness: "length (dec 305419896) = 9"
  by (simp add: dec.simps)

theorem num_to_str_reads_back_witness:
  "\<exists>m'. num_to_str (replicate 24 0xff) (replicate 32 0) 1 10 305419896 = Some (9, m') \<and> kstrtoull (m'[10 := 0]) 1 10 = Some (Inr 305419896)"
  using num_to_str_reads_back [of "replicate 24 0xff" 1 "replicate 32 0" 305419896 10] by (simp add: Let_def dec_witness)

end
