(* ===== verification/Printf_Fields.thy ===== *)
theory Printf_Fields
  imports Number_Format
begin

text \<open>
  The conversions of numbers and strings of \<^verbatim>\<open>lib/vsprintf.c\<close>: \<^verbatim>\<open>number\<close>, \<^verbatim>\<open>string\<close> and the padding of fields.

  Every function takes the position in the output and its \<open>end\<close>, stores the characters that are below \<open>end\<close>, and
  returns the position after all of them. The contract that they share, the text that would be written without a bound, is the locale
  \<open>emitter\<close> below.
\<close>

section \<open>Definitions\<close>

definition SIGN :: u8 where "SIGN = 1"
definition LEFT :: u8 where "LEFT = 2"
definition PLUS :: u8 where "PLUS = 4"
definition SPACE :: u8 where "SPACE = 8"
definition ZEROPAD :: u8 where "ZEROPAD = 16"
definition SMALL :: u8 where "SMALL = 32"
definition SPECIAL :: u8 where "SPECIAL = 64"

datatype format_type =
    FORMAT_TYPE_NONE | FORMAT_TYPE_WIDTH | FORMAT_TYPE_PRECISION | FORMAT_TYPE_CHAR | FORMAT_TYPE_STR | FORMAT_TYPE_PTR
  | FORMAT_TYPE_PERCENT_CHAR | FORMAT_TYPE_INVALID | FORMAT_TYPE_LONG_LONG | FORMAT_TYPE_ULONG | FORMAT_TYPE_LONG
  | FORMAT_TYPE_UBYTE | FORMAT_TYPE_BYTE | FORMAT_TYPE_USHORT | FORMAT_TYPE_SHORT | FORMAT_TYPE_UINT | FORMAT_TYPE_INT
  | FORMAT_TYPE_SIZE_T | FORMAT_TYPE_PTRDIFF

text \<open>\<^verbatim>\<open>struct printf_spec\<close>; the signed bit-fields are integers that fit 24 and 16 bits.\<close>

record printf_spec =
  spec_type :: format_type
  field_width :: int
  spec_flags :: u8
  spec_base :: u8
  precision :: int

definition hex_asc_upper :: "u8 list" where
  "hex_asc_upper = [0x30, 0x31, 0x32, 0x33, 0x34, 0x35, 0x36, 0x37, 0x38, 0x39, 0x41, 0x42, 0x43, 0x44, 0x45, 0x46]"

text \<open>\<^verbatim>\<open>if (buf < end) *buf = c; ++buf\<close>.\<close>

definition put_char :: "nat \<Rightarrow> u8 \<Rightarrow> mem \<times> nat \<Rightarrow> (mem \<times> nat) option" where
  "put_char e c = (\<lambda>(m, buf). do { m \<leftarrow> (if buf < e then wr buf c m else Some m); Some (m, buf + 1) })"

text \<open>\<^verbatim>\<open>while (--field_width >= 0)\<close>: the loop also leaves the counter below zero.\<close>

function pad_loop :: "nat \<Rightarrow> u8 \<Rightarrow> int \<Rightarrow> mem \<times> nat \<Rightarrow> (int \<times> mem \<times> nat) option" where
  "pad_loop e c fw s =
     (if fw - 1 \<ge> 0 then do { s \<leftarrow> put_char e c s; pad_loop e c (fw - 1) s }
      else Some (fw - 1, s))"
  by pat_completeness auto
termination
  by (relation "measure (\<lambda>(e, c, fw, s). nat fw)") auto

text \<open>\<^verbatim>\<open>while (i <= --precision)\<close>.\<close>

function precision_loop :: "nat \<Rightarrow> int \<Rightarrow> int \<Rightarrow> mem \<times> nat \<Rightarrow> (mem \<times> nat) option" where
  "precision_loop e i p s =
     (if i \<le> p - 1 then do { s \<leftarrow> put_char e 0x30 s; precision_loop e i (p - 1) s } else Some s)"
  by pat_completeness auto
termination
  by (relation "measure (\<lambda>(e, i, p, s). nat (p - i))") auto

fun digits_loop :: "nat \<Rightarrow> mem \<Rightarrow> nat \<Rightarrow> mem \<times> nat \<Rightarrow> (mem \<times> nat) option" where
  "digits_loop e tmp 0 s = Some s"
| "digits_loop e tmp (Suc i) s = do { c \<leftarrow> rd tmp i; s \<leftarrow> put_char e c s; digits_loop e tmp i s }"

text \<open>The loop for bases 8 and 16.\<close>

function radix_loop :: "mem \<Rightarrow> nat \<Rightarrow> u64 \<Rightarrow> u8 \<Rightarrow> u8 \<Rightarrow> (mem \<times> nat) option" where
  "radix_loop tmp i num base locase = do {
     c \<leftarrow> rd hex_asc_upper (unat ((ucast num :: u8) AND (base - 1)));
     tmp \<leftarrow> wr i (c OR locase) tmp;
     let num' = drop_bit (if base = 16 then 4 else 3) num;
     if num' \<noteq> 0 then radix_loop tmp (i + 1) num' base locase else Some (tmp, i + 1) }"
  by pat_completeness auto
termination
proof (relation "measure (\<lambda>(tmp, i, num, base, locase). unat num)", goal_cases)
  case (2 tmp i num base locase)
  let ?k = "if base = (16 :: u8) then 4 else (3 :: nat)"
  have "num \<noteq> 0" using 2 by auto
  then have "0 < unat num" by (simp add: unat_gt_0)
  then have "unat num div 2 ^ ?k < unat num" by simp
  then show ?case using 2 by (auto simp: unat_drop_bit_64)
qed simp

text \<open>The parts of \<^verbatim>\<open>number\<close>: the sign character with what is left of the number and the field, and the digits in reverse order.\<close>

definition number_sign :: "u8 \<Rightarrow> u64 \<Rightarrow> int \<Rightarrow> u8 \<times> u64 \<times> int" where
  "number_sign flags num fw =
     (if flags AND SIGN \<noteq> 0
      then if sint num < 0 then (0x2d, - num, fw - 1)
           else if flags AND PLUS \<noteq> 0 then (0x2b, num, fw - 1)
           else if flags AND SPACE \<noteq> 0 then (0x20, num, fw - 1)
           else (0, num, fw)
      else (0, num, fw))"

definition number_digits :: "mem \<Rightarrow> u64 \<Rightarrow> u8 \<Rightarrow> u8 \<Rightarrow> (mem \<times> nat) option" where
  "number_digits tmp num base locase =
     (if num < ucast base then do { c \<leftarrow> rd hex_asc_upper (unat num); tmp \<leftarrow> wr 0 (c OR locase) tmp; Some (tmp, 1) }
      else if base \<noteq> 10 then radix_loop tmp 0 num base locase
      else put_dec tmp 0 num)"

definition number :: "mem \<Rightarrow> mem \<Rightarrow> nat \<Rightarrow> nat \<Rightarrow> u64 \<Rightarrow> printf_spec \<Rightarrow> (mem \<times> nat) option" where
  "number tmp m buf e num spec = do {
     let base = spec_base spec;
     let need_pfx = (spec_flags spec AND SPECIAL \<noteq> 0 \<and> base \<noteq> 10);
     let is_zero = (num = 0);
     let locase = spec_flags spec AND SMALL;
     let flags = (if spec_flags spec AND LEFT \<noteq> 0 then spec_flags spec AND NOT ZEROPAD else spec_flags spec);
     let (sign, num, fw) = number_sign flags num (field_width spec);
     let fw = (if need_pfx then if base = 16 then fw - 2 else if \<not> is_zero then fw - 1 else fw else fw);
     (tmp, i) \<leftarrow> number_digits tmp num base locase;
     let prec = (if int i > precision spec then int i else precision spec);
     let fw = fw - prec;
     (fw, s) \<leftarrow> (if flags AND (ZEROPAD OR LEFT) = 0 then pad_loop e 0x20 fw (m, buf) else Some (fw, m, buf));
     s \<leftarrow> (if sign \<noteq> 0 then put_char e sign s else Some s);
     s \<leftarrow> (if need_pfx \<and> (base = 16 \<or> \<not> is_zero) then put_char e 0x30 s else Some s);
     s \<leftarrow> (if need_pfx \<and> base = 16 then put_char e (0x58 OR locase) s else Some s);
     (fw, s) \<leftarrow> (if flags AND LEFT = 0 then pad_loop e (0x20 + (flags AND ZEROPAD)) fw s else Some (fw, s));
     s \<leftarrow> precision_loop e (int i) prec s;
     s \<leftarrow> digits_loop e tmp i s;
     (fw, s) \<leftarrow> pad_loop e 0x20 fw s;
     Some s }"

definition special_hex_number :: "mem \<Rightarrow> mem \<Rightarrow> nat \<Rightarrow> nat \<Rightarrow> u64 \<Rightarrow> int \<Rightarrow> (mem \<times> nat) option" where
  "special_hex_number tmp m buf e num size' =
     number tmp m buf e num
       \<lparr>spec_type = FORMAT_TYPE_PTR, field_width = 2 + 2 * size', spec_flags = SPECIAL OR SMALL OR ZEROPAD, spec_base = 16, precision = - 1\<rparr>"

definition move_right :: "nat \<Rightarrow> nat \<Rightarrow> nat \<Rightarrow> nat \<Rightarrow> mem \<Rightarrow> mem option" where
  "move_right buf e len spaces m =
     (if buf \<ge> e then Some m
      else let sz = e - buf
           in if sz \<le> spaces then memset buf 0x20 sz m
              else do {
                m \<leftarrow> (if len \<noteq> 0 then memmove (buf + spaces) buf (if len > sz - spaces then sz - spaces else len) m else Some m);
                memset buf 0x20 spaces m })"

text \<open>\<^verbatim>\<open>while (spaces--)\<close>.\<close>

fun spaces_loop :: "nat \<Rightarrow> nat \<Rightarrow> mem \<times> nat \<Rightarrow> (mem \<times> nat) option" where
  "spaces_loop e 0 s = Some s"
| "spaces_loop e (Suc spaces) s = do { s \<leftarrow> put_char e 0x20 s; spaces_loop e spaces s }"

definition widen_string :: "mem \<Rightarrow> nat \<Rightarrow> nat \<Rightarrow> nat \<Rightarrow> printf_spec \<Rightarrow> (mem \<times> nat) option" where
  "widen_string m buf n e spec =
     (if int n \<ge> field_width spec then Some (m, buf)
      else let spaces = nat (field_width spec - int n)
           in if spec_flags spec AND LEFT = 0
              then map_option (\<lambda>m. (m, buf + spaces)) (move_right (buf - n) e n spaces m)
              else spaces_loop e spaces (m, buf))"

text \<open>The loop of \<^verbatim>\<open>string\<close>; \<open>src\<close> reads the next byte of the string.\<close>

fun string_loop :: "(mem \<Rightarrow> nat \<Rightarrow> u8 option) \<Rightarrow> nat \<Rightarrow> nat \<Rightarrow> nat \<Rightarrow> nat \<Rightarrow> mem \<times> nat \<Rightarrow> ((mem \<times> nat) \<times> nat) option" where
  "string_loop src e lim k len s =
     (if lim = 0 then Some (s, len)
      else do {
        c \<leftarrow> src (fst s) k;
        if c = 0 then Some (s, len)
        else do { s \<leftarrow> put_char e c s; string_loop src e (lim - 1) (k + 1) (len + 1) s } })"

declare pad_loop.simps [simp del] precision_loop.simps [simp del] radix_loop.simps [simp del] string_loop.simps [simp del]

text \<open>\<^verbatim>\<open>"(null)"\<close>.\<close>

definition null_string :: "u8 list" where
  "null_string = [0x28, 0x6e, 0x75, 0x6c, 0x6c, 0x29]"

definition literal :: "u8 list \<Rightarrow> mem \<Rightarrow> nat \<Rightarrow> u8 option" where
  "literal xs m k = rd (xs @ [0]) k"

text \<open>\<^verbatim>\<open>string\<close> on the bytes that \<open>src\<close> reads, and on an address.\<close>

definition string_from :: "(mem \<Rightarrow> nat \<Rightarrow> u8 option) \<Rightarrow> mem \<Rightarrow> nat \<Rightarrow> nat \<Rightarrow> printf_spec \<Rightarrow> (mem \<times> nat) option" where
  "string_from src m buf e spec = do {
     let lim = unat (of_int (precision spec) :: u32);
     ((m, buf), len) \<leftarrow> string_loop src e lim 0 0 (m, buf);
     widen_string m buf len e spec }"

definition string_field :: "mem \<Rightarrow> nat \<Rightarrow> nat \<Rightarrow> nat \<Rightarrow> printf_spec \<Rightarrow> (mem \<times> nat) option" where
  "string_field m buf e s spec = string_from (if s < PAGE_BYTES then literal null_string else (\<lambda>m k. rd m (s + k))) m buf e spec"

section \<open>Writing a text below a bound\<close>

definition emit :: "nat \<Rightarrow> u8 list \<Rightarrow> mem \<times> nat \<Rightarrow> mem \<times> nat" where
  "emit e xs = (\<lambda>(m, buf). (store buf (take (e - buf) xs) m, buf + length xs))"

lemma emit_Nil [simp]: "emit e [] s = s"
  by (simp add: emit_def split: prod.splits)

lemma length_emit [simp]: "e \<le> length (fst s) \<Longrightarrow> length (fst (emit e xs s)) = length (fst s)"
proof -
  assume e: "e \<le> length (fst s)"
  obtain m buf where s: "s = (m, buf)" by (cases s)
  show ?thesis
  proof (cases "buf \<le> e")
    case True
    then have "buf + length (take (e - buf) xs) \<le> length m" using e s by simp
    then show ?thesis using s by (simp add: emit_def)
  qed (simp add: s emit_def)
qed

lemma snd_emit [simp]: "snd (emit e xs s) = snd s + length xs"
  by (simp add: emit_def split: prod.splits)

lemma emit_emit [simp]: "e \<le> length (fst s) \<Longrightarrow> emit e ys (emit e xs s) = emit e (xs @ ys) s"
proof -
  assume e: "e \<le> length (fst s)"
  obtain m buf where s: "s = (m, buf)" by (cases s)
  show ?thesis
  proof (cases "buf + length xs \<le> e")
    case True
    then show ?thesis using e s by (simp add: emit_def store_next)
  next
    case False
    then show ?thesis using s by (simp add: emit_def)
  qed
qed

lemma put_char_emit [simp]: "e \<le> length (fst s) \<Longrightarrow> put_char e c s = Some (emit e [c] s)"
  using store_Cons [of "snd s" "fst s" "[]" c] by (cases s) (auto simp: put_char_def emit_def wr_def)

lemma pad_loop_emit: "e \<le> length (fst s) \<Longrightarrow> pad_loop e c fw s = Some (min fw 0 - 1, emit e (replicate (nat fw) c) s)"
proof (induction e c fw s rule: pad_loop.induct)
  case (1 e c fw s)
  show ?case
  proof (cases "fw - 1 \<ge> 0")
    case True
    then have "nat fw = Suc (nat (fw - 1))" by linarith
    then show ?thesis using 1 True by (subst pad_loop.simps) simp
  qed (use 1(2) in \<open>simp add: pad_loop.simps [of e c fw]\<close>)
qed

lemma precision_loop_emit: "e \<le> length (fst s) \<Longrightarrow> precision_loop e i p s = Some (emit e (replicate (nat (p - i)) 0x30) s)"
proof (induction e i p s rule: precision_loop.induct)
  case (1 e i p s)
  show ?case
  proof (cases "i \<le> p - 1")
    case True
    then have "nat (p - i) = Suc (nat (p - 1 - i))" by linarith
    then show ?thesis using 1 True by (subst precision_loop.simps) simp
  qed (use 1(2) in \<open>simp add: precision_loop.simps [of e i p]\<close>)
qed

lemma digits_loop_emit: "e \<le> length (fst s) \<Longrightarrow> i \<le> length tmp \<Longrightarrow> digits_loop e tmp i s = Some (emit e (rev (take i tmp)) s)"
  by (induction i arbitrary: s) (simp_all add: rd_def take_Suc_conv_app_nth)

lemma spaces_loop_emit: "e \<le> length (fst s) \<Longrightarrow> spaces_loop e n s = Some (emit e (replicate n 0x20) s)"
  by (induction n arbitrary: s) simp_all

section \<open>The digits of a number in a base\<close>

fun ndigits :: "nat \<Rightarrow> nat \<Rightarrow> nat list" where
  "ndigits b n = (if n < b \<or> b < 2 then [n] else n mod b # ndigits b (n div b))"

declare ndigits.simps [simp del]

definition digit_glyph :: "u8 \<Rightarrow> nat \<Rightarrow> u8" where
  "digit_glyph locase d = hex_asc_upper ! d OR locase"

lemma length_ndigits: "n < b ^ k \<Longrightarrow> 0 < k \<Longrightarrow> length (ndigits b n) \<le> k"
proof (induction k arbitrary: n)
  case (Suc k)
  show ?case
  proof (cases "n < b \<or> b < 2")
    case False
    then have "0 < k" using Suc.prems by (cases k) auto
    moreover have "n div b < b ^ k" using Suc.prems by (simp add: less_mult_imp_div_less mult.commute)
    ultimately show ?thesis using Suc.IH False by (subst ndigits.simps) auto
  qed (simp add: ndigits.simps [of b n])
qed simp

lemma ndigits_less: "2 \<le> b \<Longrightarrow> d \<in> set (ndigits b n) \<Longrightarrow> d < b"
proof (induction b n rule: ndigits.induct)
  case (1 b n)
  then show ?case by (cases "n < b") (auto simp: ndigits.simps [of b n])
qed

lemma dec_ndigits: "dec n = map (\<lambda>d. 0x30 + of_nat d) (ndigits 10 n)"
proof (induction n rule: dec.induct)
  case (1 n)
  then show ?case by (cases "n < 10") (simp_all add: dec.simps [of n] ndigits.simps [of 10 n] digit_char_def)
qed

lemma digit_glyph_dec:
  assumes "d < 10" "locase = 0 \<or> locase = 0x20"
  shows "digit_glyph locase d = 0x30 + of_nat d"
proof -
  have "map (digit_glyph 0) [0..<10] = map (\<lambda>d. 0x30 + of_nat d) [0..<10]" "map (digit_glyph 0x20) [0..<10] = map (\<lambda>d. 0x30 + of_nat d) [0..<10]"
    by code_simp+
  then have "map (digit_glyph locase) [0..<10] ! d = map (\<lambda>d. 0x30 + of_nat d) [0..<10] ! d" using assms(2) by metis
  then show ?thesis using assms(1) by simp
qed

lemma dec_glyphs: "locase = 0 \<or> locase = 0x20 \<Longrightarrow> dec n = map (digit_glyph locase) (ndigits 10 n)"
  using ndigits_less [of 10] by (auto simp: dec_ndigits digit_glyph_dec intro!: map_cong)

lemma radix_mask:
  fixes num :: u64
  assumes "base = 8 \<or> base = (16 :: u8)"
  shows "unat ((ucast num :: u8) AND (base - 1)) = unat num mod unat base"
    "unat (drop_bit (if base = 16 then 4 else 3) num) = unat num div unat base"
proof -
  have m: "(8 - 1 :: u8) = mask 3" "(16 - 1 :: u8) = mask 4" by (simp_all add: mask_eq_exp_minus_1)
  have t: "unat (take_bit k (ucast num :: u8)) = unat num mod 2 ^ k" if "k \<le> 8" for k
  proof -
    have "unat (take_bit k (ucast num :: u8)) = take_bit k (take_bit 8 (unat num))" by (simp only: unsigned_take_bit_eq unsigned_ucast_eq) simp
    then show ?thesis using that by (simp only: take_bit_take_bit min_absorb1 take_bit_eq_mod [of k])
  qed
  show "unat ((ucast num :: u8) AND (base - 1)) = unat num mod unat base"
    using assms by (elim disjE) (simp_all only: m take_bit_eq_mask [symmetric] t, simp_all)
  show "unat (drop_bit (if base = 16 then 4 else 3) num) = unat num div unat base"
    using assms by (elim disjE) (simp_all only: unat_drop_bit_64, simp_all)
qed

lemma rd_hex_asc_upper: "d < 16 \<Longrightarrow> rd hex_asc_upper d = Some (hex_asc_upper ! d)"
  by (simp add: rd_def hex_asc_upper_def)

lemma radix_loop_store:
  assumes "base = 8 \<or> base = (16 :: u8)"
  shows "i + length (ndigits (unat base) (unat num)) \<le> length tmp \<Longrightarrow>
    radix_loop tmp i num base locase =
      Some (store i (map (digit_glyph locase) (ndigits (unat base) (unat num))) tmp, i + length (ndigits (unat base) (unat num)))"
proof (induction "unat num" arbitrary: num i tmp rule: less_induct)
  case less
  let ?b = "unat base" and ?n = "unat num" and ?num' = "drop_bit (if base = 16 then 4 else 3) num"
  note mask = radix_mask [OF assms, of num]
  have b: "2 \<le> ?b" "?b \<le> 16" using assms by auto
  let ?c = "digit_glyph locase (?n mod ?b)"
  have "?n mod ?b < 16" using b by (meson mod_less_divisor order_less_le_trans zero_less_numeral order_less_le_trans)
  then have step: "radix_loop tmp i num base locase = (if ?num' \<noteq> 0 then radix_loop (tmp[i := ?c]) (i + 1) ?num' base locase else Some (tmp[i := ?c], i + 1))"
    if "i < length tmp" using that mask(1) by (subst radix_loop.simps) (simp add: rd_hex_asc_upper wr_def digit_glyph_def Let_def)
  show ?case
  proof (cases "?n < ?b")
    case True
    then have "?num' = 0" using mask(2) by (simp add: unat_eq_zero)
    then show ?thesis using True less.prems step b store_Cons [of i tmp "[]" ?c] by (simp add: ndigits.simps [of ?b ?n])
  next
    case False
    then have nd: "ndigits ?b ?n = ?n mod ?b # ndigits ?b (?n div ?b)" using b by (subst ndigits.simps) simp
    have "?n div ?b \<noteq> 0" using False b by (simp add: div_eq_0_iff)
    then have nz: "?num' \<noteq> 0" using mask(2) by auto
    have "unat ?num' < ?n" unfolding mask(2) using False b by simp
    then have "radix_loop (tmp[i := ?c]) (i + 1) ?num' base locase =
        Some (store (i + 1) (map (digit_glyph locase) (ndigits ?b (?n div ?b))) (tmp[i := ?c]), i + 1 + length (ndigits ?b (?n div ?b)))"
      using less.hyps [of ?num' "i + 1" "tmp[i := ?c]"] less.prems unfolding mask(2) nd by simp
    then show ?thesis using step nz less.prems nd by (simp add: store_Cons)
  qed
qed

lemma number_digits_result:
  assumes "length tmp = 24" "base = 8 \<or> base = 10 \<or> base = 16" "locase = 0 \<or> locase = 0x20"
  shows "\<exists>tmp'. number_digits tmp num base locase = Some (tmp', length (ndigits (unat base) (unat num))) \<and>
    length (ndigits (unat base) (unat num)) \<le> length tmp' \<and>
    take (length (ndigits (unat base) (unat num))) tmp' = map (digit_glyph locase) (ndigits (unat base) (unat num))"
proof -
  let ?b = "unat base" and ?n = "unat num"
  have len: "length (ndigits ?b ?n) \<le> 22"
  proof (rule length_ndigits)
    have "(8 :: nat) ^ 22 \<le> ?b ^ 22" using assms(2) by (intro power_mono) auto
    then show "?n < ?b ^ 22" using unat_less_64 [of num] by simp
  qed simp
  have lt: "num < ucast base \<longleftrightarrow> ?n < ?b" using assms(2) by (auto simp: word_less_nat_alt)
  consider "?n < ?b" | "\<not> ?n < ?b" "base \<noteq> 10" | "\<not> ?n < ?b" "base = 10" by blast
  then show ?thesis
  proof cases
    case 1
    then have "ndigits ?b ?n = [?n]" "?n < 16" using assms(2) by (auto simp: ndigits.simps [of ?b ?n])
    then show ?thesis using 1 lt assms(1) by (cases tmp) (auto simp: number_digits_def rd_hex_asc_upper wr_def digit_glyph_def)
  next
    case 2
    then have b: "base = 8 \<or> base = 16" using assms(2) by blast
    have fit: "0 + length (ndigits ?b ?n) \<le> length tmp" using len assms(1) by simp
    show ?thesis using 2 lt radix_loop_store [OF b fit, of locase] fit by (auto simp: number_digits_def store_def)
  next
    case 3
    obtain z where z: "put_dec tmp 0 num = Some (store 0 (dec ?n @ z) tmp, length (dec ?n))" "length (dec ?n @ z) \<le> 20"
      using put_dec_store [of 0 tmp num] assms(1) by auto
    have "dec ?n = map (digit_glyph locase) (ndigits ?b ?n)" using 3(2) dec_glyphs [OF assms(3)] by simp
    then show ?thesis using 3 lt z by (auto simp: number_digits_def store_def)
  qed
qed

section \<open>The text of a number\<close>

definition sign_text :: "u8 \<Rightarrow> u64 \<Rightarrow> u8 list" where
  "sign_text f num =
     (if f AND SIGN = 0 then [] else if sint num < 0 then [0x2d]
      else if f AND PLUS \<noteq> 0 then [0x2b] else if f AND SPACE \<noteq> 0 then [0x20] else [])"

definition prefix_text :: "u8 \<Rightarrow> u8 \<Rightarrow> u64 \<Rightarrow> u8 list" where
  "prefix_text f base num =
     (if f AND SPECIAL = 0 then [] else if base = 16 then [0x30, 0x58 OR (f AND SMALL)] else if base = 8 \<and> num \<noteq> 0 then [0x30] else [])"

definition magnitude :: "u8 \<Rightarrow> u64 \<Rightarrow> nat" where
  "magnitude f num = (if f AND SIGN \<noteq> 0 then nat \<bar>sint num\<bar> else unat num)"

definition digits_text :: "u8 \<Rightarrow> u8 \<Rightarrow> u64 \<Rightarrow> u8 list" where
  "digits_text f base num = rev (map (digit_glyph (f AND SMALL)) (ndigits (unat base) (magnitude f num)))"

definition number_text :: "u64 \<Rightarrow> printf_spec \<Rightarrow> u8 list" where
  "number_text num spec =
     (let f = spec_flags spec;
          sign = sign_text f num;
          prefix = prefix_text f (spec_base spec) num;
          ds = digits_text f (spec_base spec) num;
          body = replicate (nat (precision spec) - length ds) 0x30 @ ds;
          w = nat (field_width spec - int (length sign + length prefix + length body))
      in if f AND LEFT \<noteq> 0 then sign @ prefix @ body @ replicate w 0x20
         else if f AND ZEROPAD \<noteq> 0 then sign @ prefix @ replicate w 0x30 @ body
         else replicate w 0x20 @ sign @ prefix @ body)"

lemma flag_values: "x AND SMALL = 0 \<or> x AND SMALL = (0x20 :: u8)" "x AND ZEROPAD = 0 \<or> x AND ZEROPAD = (0x10 :: u8)"
proof -
  have e: "SMALL = 2 ^ 5" "ZEROPAD = 2 ^ 4" by (simp_all add: SMALL_def ZEROPAD_def)
  have a: "x AND 2 ^ k = (if bit x k then 2 ^ k else 0)" for x :: u8 and k by (rule bit_word_eqI) (auto simp: bit_and_iff bit_exp_iff)
  show "x AND SMALL = 0 \<or> x AND SMALL = 0x20" "x AND ZEROPAD = 0 \<or> x AND ZEROPAD = 0x10" unfolding e a by simp_all
qed

lemma left_flags:
  "(x AND NOT ZEROPAD) AND SIGN = x AND SIGN" "(x AND NOT ZEROPAD) AND PLUS = x AND PLUS" "(x AND NOT ZEROPAD) AND SPACE = x AND SPACE"
  "(x AND NOT ZEROPAD) AND LEFT = x AND LEFT" "(x AND NOT ZEROPAD) AND ZEROPAD = (0 :: u8)"
  by (simp_all add: and.assoc SIGN_def PLUS_def SPACE_def LEFT_def ZEROPAD_def)

lemma zeropad_or_left: "x AND (ZEROPAD OR LEFT) = 0 \<longleftrightarrow> x AND ZEROPAD = 0 \<and> x AND LEFT = (0 :: u8)"
  by (simp add: bit.conj_disj_distrib or_eq_0_iff)

lemma unat_neg_sint: "sint (x :: u64) < 0 \<Longrightarrow> unat (- x) = nat (- sint x)"
proof -
  assume n: "sint x < 0"
  have "- (2 ^ 63) \<le> sint x" using sint_ge [of x] by simp
  then have "take_bit 64 (- sint x) = - sint x" using n by (simp add: take_bit_int_eq_self)
  then have "uint (of_int (- sint x) :: u64) = - sint x" by (simp only: unsigned_of_int) (simp add: n less_imp_le)
  then have "uint (- x) = - sint x" by simp
  then show ?thesis by (metis unat_eq_nat_uint)
qed

lemma nonneg_sint: "0 \<le> sint (x :: u64) \<Longrightarrow> unat x = nat (sint x)"
proof -
  assume n: "0 \<le> sint x"
  have "sint x < 2 ^ 63" using sint_lt [of x] by simp
  then have "take_bit 64 (sint x) = sint x" using n by (simp add: take_bit_int_eq_self)
  then have "uint (of_int (sint x) :: u64) = sint x" by (simp only: unsigned_of_int) (simp add: n less_imp_le)
  then have "uint x = sint x" by simp
  then show ?thesis by (metis unat_eq_nat_uint)
qed

lemma number_sign_parts:
  "\<exists>c num'. number_sign (if f AND LEFT \<noteq> 0 then f AND NOT ZEROPAD else f) num fw = (c, num', fw - int (length (sign_text f num))) \<and>
    sign_text f num = (if c \<noteq> 0 then [c] else []) \<and> unat num' = magnitude f num"
  using unat_neg_sint [of num] nonneg_sint [of num]
  by (auto simp: number_sign_def sign_text_def magnitude_def left_flags)

lemma emit_if: "e \<le> length (fst s) \<Longrightarrow> (if P then put_char e c s else Some s) = Some (emit e (if P then [c] else []) s)"
  by simp

lemma prefix_parts:
  "base = 8 \<or> base = 10 \<or> base = 16 \<Longrightarrow>
   prefix_text f base num =
     (if (f AND SPECIAL \<noteq> 0 \<and> base \<noteq> 10) \<and> (base = 16 \<or> num \<noteq> 0) then [0x30] else []) @
     (if (f AND SPECIAL \<noteq> 0 \<and> base \<noteq> 10) \<and> base = 16 then [0x58 OR (f AND SMALL)] else [])"
  by (auto simp: prefix_text_def)

lemma prefix_width:
  assumes "base = 8 \<or> base = 10 \<or> base = 16"
  shows "(if f AND SPECIAL \<noteq> 0 \<and> base \<noteq> 10 then if base = 16 then fw - 2 else if num \<noteq> 0 then fw - 1 else fw else fw) =
    fw - int (length (prefix_text f base num))"
  using assms by (auto simp: prefix_text_def)

lemma number_emit:
  assumes "length tmp = 24" "spec_base spec = 8 \<or> spec_base spec = 10 \<or> spec_base spec = 16" "e \<le> length m"
  shows "number tmp m buf e num spec = Some (emit e (number_text num spec) (m, buf))"
proof -
  let ?f = "spec_flags spec" and ?b = "spec_base spec"
  let ?flags = "if ?f AND LEFT \<noteq> 0 then ?f AND NOT ZEROPAD else ?f"
  obtain c num' where sg: "number_sign ?flags num (field_width spec) = (c, num', field_width spec - int (length (sign_text ?f num)))"
    "sign_text ?f num = (if c \<noteq> 0 then [c] else [])" "unat num' = magnitude ?f num"
    using number_sign_parts by blast
  let ?ds = "digits_text ?f ?b num"
  obtain tmp' where dg: "number_digits tmp num' ?b (?f AND SMALL) = Some (tmp', length ?ds)" "length ?ds \<le> length tmp'" "rev (take (length ?ds) tmp') = ?ds"
    using number_digits_result [OF assms(1,2) flag_values(1), of num' ?f] unfolding sg(3) by (auto simp: digits_text_def)
  define prec where "prec = (if int (length ?ds) > precision spec then int (length ?ds) else precision spec)"
  let ?body = "replicate (nat (precision spec) - length ?ds) 0x30 @ ?ds"
  have lb: "int (length ?body) = prec" "nat (prec - int (length ?ds)) = nat (precision spec) - length ?ds" by (auto simp: prec_def)
  define fw where "fw = field_width spec - int (length (sign_text ?f num)) - int (length (prefix_text ?f ?b num)) - prec"
  have w: "field_width spec - int (length (sign_text ?f num) + length (prefix_text ?f ?b num) + length ?body) = fw"
    using lb(1) by (simp add: fw_def)
  define pre0 preX where pre: "pre0 = ((?f AND SPECIAL \<noteq> 0 \<and> ?b \<noteq> 10) \<and> (?b = 16 \<or> num \<noteq> 0))" "preX = ((?f AND SPECIAL \<noteq> 0 \<and> ?b \<noteq> 10) \<and> ?b = 16)"
  have pt: "prefix_text ?f ?b num = (if pre0 then [0x30] else []) @ (if preX then [0x58 OR (?f AND SMALL)] else [])"
    unfolding pre using assms(2) by (rule prefix_parts)
  have run: "number tmp m buf e num spec = do {
     (fw, s) \<leftarrow> (if ?flags AND (ZEROPAD OR LEFT) = 0 then pad_loop e 0x20 fw (m, buf) else Some (fw, m, buf));
     s \<leftarrow> (if c \<noteq> 0 then put_char e c s else Some s);
     s \<leftarrow> (if pre0 then put_char e 0x30 s else Some s);
     s \<leftarrow> (if preX then put_char e (0x58 OR (?f AND SMALL)) s else Some s);
     (fw, s) \<leftarrow> (if ?flags AND LEFT = 0 then pad_loop e (0x20 + (?flags AND ZEROPAD)) fw s else Some (fw, s));
     s \<leftarrow> precision_loop e (int (length ?ds)) prec s;
     s \<leftarrow> digits_loop e tmp' (length ?ds) s;
     (fw, s) \<leftarrow> pad_loop e 0x20 fw s;
     Some s }"
    unfolding number_def Let_def sg(1) prod.case prefix_width [OF assms(2)] dg(1) prec_def fw_def pre by simp
  note steps = run pt sg(2) emit_if pad_loop_emit precision_loop_emit digits_loop_emit dg(2,3) lb(2) left_flags zeropad_or_left
  have tx: "number_text num spec =
     (if ?f AND LEFT \<noteq> 0 then sign_text ?f num @ prefix_text ?f ?b num @ ?body @ replicate (nat fw) 0x20
      else if ?f AND ZEROPAD \<noteq> 0 then sign_text ?f num @ prefix_text ?f ?b num @ replicate (nat fw) 0x30 @ ?body
      else replicate (nat fw) 0x20 @ sign_text ?f num @ prefix_text ?f ?b num @ ?body)"
    unfolding number_text_def Let_def w ..
  consider "?f AND LEFT \<noteq> 0" | "?f AND LEFT = 0" "?f AND ZEROPAD = 0x10" | "?f AND LEFT = 0" "?f AND ZEROPAD = 0" using flag_values(2) by blast
  then show ?thesis
    by cases (use assms(3) in \<open>simp_all add: steps tx\<close>)
qed

section \<open>The text of a string\<close>

text \<open>The characters that a string conversion limited to \<open>lim\<close> characters finds at an address; the terminator is needed only below the limit.\<close>

definition chars_at :: "mem \<Rightarrow> nat \<Rightarrow> nat \<Rightarrow> u8 list \<Rightarrow> bool" where
  "chars_at m s lim xs \<longleftrightarrow> 0 \<notin> set xs \<and> length xs \<le> lim \<and> (\<forall>i < length xs. rd m (s + i) = Some (xs ! i)) \<and>
     (length xs < lim \<longrightarrow> rd m (s + length xs) = Some 0)"

definition pad_text :: "printf_spec \<Rightarrow> u8 list \<Rightarrow> u8 list" where
  "pad_text spec xs =
     (let sp = replicate (nat (field_width spec - int (length xs))) 0x20 in if spec_flags spec AND LEFT \<noteq> 0 then xs @ sp else sp @ xs)"

lemma string_loop_emit:
  "e \<le> length (fst s) \<Longrightarrow> 0 \<notin> set xs \<Longrightarrow> length xs \<le> lim \<Longrightarrow>
   (\<And>ys i. i < length xs \<Longrightarrow> src (fst (emit e ys s)) (k + i) = Some (xs ! i)) \<Longrightarrow>
   (\<And>ys. length xs < lim \<Longrightarrow> src (fst (emit e ys s)) (k + length xs) = Some 0) \<Longrightarrow>
   string_loop src e lim k len s = Some (emit e xs s, len + length xs)"
proof (induction xs arbitrary: lim k len s)
  case Nil
  then show ?case using Nil.prems(5) [of "[]"] by (subst string_loop.simps) simp
next
  case (Cons x xs)
  have x: "src (fst s) k = Some x" "x \<noteq> 0" using Cons.prems(4) [of 0 "[]"] Cons.prems(2) by auto
  have "string_loop src e (lim - 1) (k + 1) (len + 1) (emit e [x] s) = Some (emit e xs (emit e [x] s), len + 1 + length xs)"
  proof (rule Cons.IH)
    show "src (fst (emit e ys (emit e [x] s))) (k + 1 + i) = Some (xs ! i)" if "i < length xs" for ys i
      using Cons.prems(4) [of "Suc i" "x # ys"] Cons.prems(1) that by simp
    show "src (fst (emit e ys (emit e [x] s))) (k + 1 + length xs) = Some 0" if "length xs < lim - 1" for ys
      using Cons.prems(5) [of "x # ys"] Cons.prems(1) that by simp
  qed (use Cons.prems(1-3) in auto)
  then show ?case using Cons.prems(1,3) x by (subst string_loop.simps) simp
qed

lemma rd_emit: "e \<le> length m \<Longrightarrow> a < buf \<or> e \<le> a \<Longrightarrow> rd (fst (emit e ys (m, buf))) a = rd m a"
proof (cases "buf \<le> e")
  case True
  assume e: "e \<le> length m" and a: "a < buf \<or> e \<le> a"
  have "buf + length (take (e - buf) ys) \<le> length m" "buf + length (take (e - buf) ys) \<le> e" using True e by auto
  then show ?thesis using a nth_store [of buf "take (e - buf) ys" m a] by (auto simp: rd_def emit_def)
qed (simp add: emit_def)

lemma store_before: "a + length xs + length ys \<le> length m \<Longrightarrow> store a xs (store (a + length xs) ys m) = store a (xs @ ys) m"
  by (simp add: store_def min_def add.assoc)

lemma store_cover: "a + length ys \<le> length m \<Longrightarrow> length xs \<le> length ys \<Longrightarrow> store a ys (store a xs m) = store a ys m"
proof -
  assume a: "a + length ys \<le> length m" "length xs \<le> length ys"
  then have "min (length m) a = a" by linarith
  then show ?thesis using a by (simp add: store_def add.commute)
qed

lemma move_right_emit:
  assumes "e \<le> length m"
  shows "move_right buf e (length xs) spaces (fst (emit e xs (m, buf))) = Some (fst (emit e (replicate spaces 0x20 @ xs) (m, buf)))"
proof (cases "buf < e")
  case True
  let ?sz = "e - buf"
  let ?m1 = "store buf (take ?sz xs) m"
  have l1: "length ?m1 = length m" using True assms by simp
  show ?thesis
  proof (cases "?sz \<le> spaces")
    case sz: True
    have "store buf (replicate ?sz 0x20) ?m1 = store buf (replicate ?sz 0x20) m" using True assms by (intro store_cover) auto
    then show ?thesis using True sz assms l1 by (simp add: move_right_def emit_def memset_store min_def)
  next
    case sz: False
    define k where "k = min (length xs) (?sz - spaces)"
    have b: "buf + spaces + k \<le> e" "k \<le> length xs" "k \<le> ?sz" using sz True by (auto simp: k_def)
    have ld: "load k buf ?m1 = take k xs"
      using b True assms by (intro nth_equalityI) (auto simp: nth_load l1 nth_store)
    have mm: "memmove (buf + spaces) buf k ?m1 = Some (store (buf + spaces) (take k xs) ?m1)"
      using memcpy_forward [of "buf + spaces" k ?m1 buf] memmove_backward [of "buf + spaces" k ?m1 buf] b assms l1 ld
      by (cases "spaces = 0") (simp_all add: memmove_def)
    let ?m2 = "store (buf + spaces) (take k xs) ?m1"
    have l2: "length ?m2 = length m" using b assms l1 by simp
    have "memset buf 0x20 spaces ?m2 = Some (store buf (replicate spaces 0x20) ?m2)" using b assms l2 by (intro memset_store) simp
    moreover have "store buf (replicate spaces 0x20) ?m2 = store buf (replicate spaces 0x20 @ take k xs) m"
      using store_before [of buf "replicate spaces 0x20" "take k xs" ?m1] store_cover [of buf "replicate spaces 0x20 @ take k xs" m "take ?sz xs"]
        True b assms l1 by (simp add: k_def)
    moreover have "take ?sz (replicate spaces 0x20 @ xs) = replicate spaces 0x20 @ take k xs" using sz by (simp add: k_def min_def)
    moreover have "length xs \<noteq> 0 \<Longrightarrow> (if length xs > ?sz - spaces then ?sz - spaces else length xs) = k" "length xs = 0 \<Longrightarrow> ?m2 = ?m1"
      by (auto simp: k_def)
    ultimately show ?thesis using True sz mm unfolding move_right_def emit_def Let_def by (cases "length xs = 0") simp_all
  qed
qed (simp add: move_right_def emit_def)

lemma widen_string_emit:
  assumes "e \<le> length m" "emit e xs (m, buf) = (m1, buf1)"
  shows "widen_string m1 buf1 (length xs) e spec = Some (emit e (pad_text spec xs) (m, buf))"
proof -
  have b: "buf1 = buf + length xs" "m1 = fst (emit e xs (m, buf))" using assms(2) snd_emit [of e xs "(m, buf)"] by simp_all
  let ?sp = "nat (field_width spec - int (length xs))"
  consider "int (length xs) \<ge> field_width spec" | "int (length xs) < field_width spec" "spec_flags spec AND LEFT = 0"
    | "int (length xs) < field_width spec" "spec_flags spec AND LEFT \<noteq> 0" by linarith
  then show ?thesis
  proof cases
    case 1
    then show ?thesis using assms(2) by (simp add: widen_string_def pad_text_def)
  next
    case 2
    then show ?thesis using move_right_emit [OF assms(1), of buf xs ?sp] b
      by (auto simp: widen_string_def pad_text_def Let_def intro!: prod_eqI)
  next
    case 3
    have "spaces_loop e ?sp (m1, buf1) = Some (emit e (xs @ replicate ?sp 0x20) (m, buf))"
      using spaces_loop_emit [of e "emit e xs (m, buf)" ?sp] length_emit [of e "(m, buf)" xs] emit_emit [of e "(m, buf)" _ xs, unfolded assms(2)] assms by simp
    then show ?thesis using 3 by (simp add: widen_string_def pad_text_def Let_def)
  qed
qed

lemma string_from_emit:
  assumes "e \<le> length m" "0 \<notin> set xs" "lim = unat (of_int (precision spec) :: u32)" "length xs \<le> lim"
    and "\<And>ys i. i < length xs \<Longrightarrow> src (fst (emit e ys (m, buf))) i = Some (xs ! i)"
    and "\<And>ys. length xs < lim \<Longrightarrow> src (fst (emit e ys (m, buf))) (length xs) = Some 0"
  shows "string_from src m buf e spec = Some (emit e (pad_text spec xs) (m, buf))"
proof -
  have "string_loop src e lim 0 0 (m, buf) = Some (emit e xs (m, buf), 0 + length xs)"
    by (rule string_loop_emit) (use assms in auto)
  then show ?thesis using widen_string_emit [OF assms(1)] assms(3)
    by (cases "emit e xs (m, buf)") (simp add: string_from_def Let_def)
qed

lemma string_literal_emit:
  assumes "e \<le> length m" "0 \<notin> set xs"
  shows "string_from (literal xs) m buf e spec = Some (emit e (pad_text spec (take (unat (of_int (precision spec) :: u32)) xs)) (m, buf))"
  by (rule string_from_emit) (use assms in \<open>auto simp: literal_def rd_def nth_append dest: in_set_takeD\<close>)

lemma string_field_emit:
  assumes "e \<le> length m" "lim = unat (of_int (precision spec) :: u32)"
    and "if s < PAGE_BYTES then xs = take lim null_string else chars_at m s lim xs \<and> (s + length xs < buf \<or> e \<le> s)"
  shows "string_field m buf e s spec = Some (emit e (pad_text spec xs) (m, buf))"
proof (cases "s < PAGE_BYTES")
  case True
  have "0 \<notin> set null_string" by (simp add: null_string_def)
  then show ?thesis using string_literal_emit [OF assms(1), of null_string buf spec] True assms(2,3) by (simp add: string_field_def)
next
  case False
  then have c: "chars_at m s lim xs" "s + length xs < buf \<or> e \<le> s" using assms(3) by auto
  have "rd (fst (emit e ys (m, buf))) (s + i) = rd m (s + i)" if "i \<le> length xs" for ys i
    using c(2) that assms(1) by (intro rd_emit) auto
  then have "string_from (\<lambda>m k. rd m (s + k)) m buf e spec = Some (emit e (pad_text spec xs) (m, buf))"
    using c(1) assms(1,2) by (intro string_from_emit [where lim = lim]) (auto simp: chars_at_def)
  then show ?thesis using False by (simp add: string_field_def)
qed

section \<open>The contract of the conversions\<close>

text \<open>
  A conversion with an argument: where its precondition holds for the bound, the memory and the position, it writes its text as far as the
  bound allows. From that follow what the callers rely on.
\<close>

locale emitter =
  fixes pre :: "'a \<Rightarrow> nat \<Rightarrow> mem \<times> nat \<Rightarrow> bool"
    and f :: "'a \<Rightarrow> nat \<Rightarrow> mem \<times> nat \<Rightarrow> (mem \<times> nat) option"
    and out :: "'a \<Rightarrow> u8 list"
  assumes emits: "e \<le> length (fst s) \<Longrightarrow> pre a e s \<Longrightarrow> f a e s = Some (emit e (out a) s)"
begin

lemma returns: "e \<le> length m \<Longrightarrow> pre a e (m, buf) \<Longrightarrow> \<exists>m'. f a e (m, buf) = Some (m', buf + length (out a))"
  using emits [of e "(m, buf)" a] by (auto simp: emit_def)

lemma within_bound:
  assumes "e \<le> length m" "pre a e (m, buf)" "f a e (m, buf) = Some (m', buf')" "p < buf \<or> e \<le> p"
  shows "length m' = length m \<and> rd m' p = rd m p"
proof -
  have "m' = fst (emit e (out a) (m, buf))" using emits [of e "(m, buf)" a] assms(1-3) by (metis fst_conv option.inject)
  then show ?thesis using length_emit [of e "(m, buf)" "out a"] rd_emit [OF assms(1,4), of "out a"] assms(1) by simp
qed

lemma written:
  assumes "e \<le> length m" "pre a e (m, buf)" "f a e (m, buf) = Some (m', buf')" "buf \<le> e"
  shows "load (min (e - buf) (length (out a))) buf m' = take (e - buf) (out a)"
proof -
  have "m' = store buf (take (e - buf) (out a)) m" using emits [of e "(m, buf)" a] assms by (auto simp: emit_def)
  moreover have "buf + length (take (e - buf) (out a)) \<le> length m" using assms(1,4) by simp
  ultimately show ?thesis by (simp add: store_def load_def min_def)
qed

end

interpretation num: emitter
  "\<lambda>(tmp, n, spec) e s. length tmp = 24 \<and> (spec_base spec = 8 \<or> spec_base spec = 10 \<or> spec_base spec = 16)"
  "\<lambda>(tmp, n, spec) e (m, buf). number tmp m buf e n spec"
  "\<lambda>(tmp, n, spec). number_text n spec"
  by unfold_locales (auto simp: number_emit split: prod.splits)

interpretation str: emitter
  "\<lambda>(s, xs, spec) e (m, buf). if s < PAGE_BYTES then xs = take (unat (of_int (precision spec) :: u32)) null_string
     else chars_at m s (unat (of_int (precision spec) :: u32)) xs \<and> (s + length xs < buf \<or> e \<le> s)"
  "\<lambda>(s, xs, spec) e (m, buf). string_field m buf e s spec"
  "\<lambda>(s, xs, spec). pad_text spec xs"
  by unfold_locales (auto simp: string_field_emit split: prod.splits)

lemma field_length:
  fixes a b p d :: nat
  shows "a + (b + (p - d + d)) + nat (fw - int (a + b + (p - d + d))) = max (nat fw) (a + b + max p d)"
proof -
  have "t + nat (fw - int t) = max (nat fw) t" for t :: nat by linarith
  moreover have "p - d + d = max p d" by linarith
  ultimately show ?thesis by (simp add: add.assoc)
qed

lemma length_number_text:
  "length (number_text num spec) = max (nat (field_width spec))
     (length (sign_text (spec_flags spec) num) + length (prefix_text (spec_flags spec) (spec_base spec) num) +
      max (nat (precision spec)) (length (digits_text (spec_flags spec) (spec_base spec) num)))"
  unfolding field_length [symmetric] by (simp add: number_text_def Let_def)

section \<open>Properties\<close>

text \<open>C30: \<^verbatim>\<open>number\<close> writes the text of the number (sign, prefix, digits to the precision, padded to the field width on the side and with the
  character that the flags say) as far as it fits below \<open>end\<close>, changes nothing else, and returns the position after the whole text, which is as
  long as the field, or as its contents if these are longer; the result does not depend on what the local array held before.\<close>

theorem number_output:
  assumes "length tmp = 24" "spec_base spec = 8 \<or> spec_base spec = 10 \<or> spec_base spec = 16" "e \<le> length m"
  shows "let t = number_text num spec; f = spec_flags spec;
      content = length (sign_text f num) + length (prefix_text f (spec_base spec) num) + max (nat (precision spec)) (length (digits_text f (spec_base spec) num)) in
    number tmp m buf e num spec = Some (store buf (take (e - buf) t) m, buf + length t) \<and>
    length t = max (nat (field_width spec)) content"
  using num.emits [of e "(m, buf)" "(tmp, num, spec)"] assms length_number_text [of num spec] by (simp add: emit_def Let_def)

lemma hex_text: "number_text 0xbeef \<lparr>spec_type = FORMAT_TYPE_UINT, field_width = 8, spec_flags = SPECIAL OR SMALL OR ZEROPAD, spec_base = 16, precision = - 1\<rparr> = [0x30, 0x78, 0x30, 0x30, 0x62, 0x65, 0x65, 0x66]"
  by (simp add: number_text_def sign_text_def prefix_text_def digits_text_def magnitude_def ndigits.simps digit_glyph_def hex_asc_upper_def
      SPECIAL_def SMALL_def ZEROPAD_def LEFT_def SIGN_def) (simp add: numeral_2_eq_2)

theorem number_output_witness:
  "number (replicate 24 0xff) (replicate 9 0) 1 6 0xbeef \<lparr>spec_type = FORMAT_TYPE_UINT, field_width = 8, spec_flags = SPECIAL OR SMALL OR ZEROPAD, spec_base = 16, precision = - 1\<rparr> = Some ([0, 0x30, 0x78, 0x30, 0x30, 0x62, 0, 0, 0], 9)"
proof -
  let ?spec = "\<lparr>spec_type = FORMAT_TYPE_UINT, field_width = 8, spec_flags = SPECIAL OR SMALL OR ZEROPAD, spec_base = 16, precision = - 1\<rparr>"
  have "number (replicate 24 0xff) (replicate 9 0) 1 6 0xbeef ?spec = Some (store 1 (take (6 - 1) (number_text 0xbeef ?spec)) (replicate 9 0), 1 + length (number_text 0xbeef ?spec))"
    using number_output [where tmp = "replicate 24 0xff" and spec = ?spec and e = 6 and m = "replicate 9 0" and num = "0xbeef" and buf = 1]
    by (simp add: Let_def)
  also have "\<dots> = Some ([0, 0x30, 0x78, 0x30, 0x30, 0x62, 0, 0, 0], 9)" unfolding hex_text by code_simp
  finally show ?thesis .
qed

text \<open>C31: \<^verbatim>\<open>string\<close> writes the characters of the string up to the precision, \<^verbatim>\<open>(null)\<close> for a pointer into the first page, padded to the field width.
  A string aligned to the right is first written to the left and then moved, which also gives the text as far as it fits when the
  buffer ends within the spaces or within the string.\<close>

theorem string_output:
  assumes "e \<le> length m" "lim = unat (of_int (precision spec) :: u32)"
    and "if s < PAGE_BYTES then xs = take lim null_string else chars_at m s lim xs \<and> (s + length xs < buf \<or> e \<le> s)"
  shows "let t = pad_text spec xs in
    string_field m buf e s spec = Some (store buf (take (e - buf) t) m, buf + length t) \<and> length t = max (nat (field_width spec)) (length xs)"
  using str.emits [of e "(m, buf)" "(s, xs, spec)"] assms
  by (auto simp: emit_def Let_def pad_text_def max_def)

theorem string_output_witness:
  "string_field (replicate 4096 0 @ [0x41, 0x42, 0x43, 0]) 0 4 4096 \<lparr>spec_type = FORMAT_TYPE_STR, field_width = 6, spec_flags = 0, spec_base = 10, precision = - 1\<rparr> =
   Some (store 0 [0x20, 0x20, 0x20, 0x41] (replicate 4096 0 @ [0x41, 0x42, 0x43, 0]), 6)"
proof -
  let ?m = "replicate 4096 0 @ [0x41, 0x42, 0x43, 0] :: mem" and ?spec = "\<lparr>spec_type = FORMAT_TYPE_STR, field_width = 6, spec_flags = 0, spec_base = 10, precision = - 1\<rparr>"
  have lim: "unat (of_int (precision ?spec) :: u32) = 4294967295" by (simp add: unsigned_minus_1_eq_mask mask_eq_exp_minus_1)
  have "rd ?m 4096 = Some 0x41" "rd ?m 4097 = Some 0x42" "rd ?m 4098 = Some 0x43" "rd ?m 4099 = Some 0" by (simp_all add: rd_def nth_append)
  then have "chars_at ?m 4096 4294967295 [0x41, 0x42, 0x43]" by (auto simp: chars_at_def less_Suc_eq numeral_3_eq_3)
  moreover have "pad_text ?spec [0x41, 0x42, 0x43] = [0x20, 0x20, 0x20, 0x41, 0x42, 0x43]" by (simp add: pad_text_def numeral_3_eq_3)
  ultimately show ?thesis using string_output [of 4 ?m 4294967295 ?spec 4096 "[0x41, 0x42, 0x43]" 0]
    unfolding lim by (simp add: Let_def PAGE_BYTES_def)
qed

end
