(* ===== verification/Spec2Isabelle.thy ===== *)
theory Spec2Isabelle
  imports Iommu_Helper Bitmap_Remap Cma List_Sort Kfifo_Records String_Copy Kstrtox Printf_Fields
begin

text \<open>
  \<^bold>\<open>A verification library for parts of the Linux 4.9.77 kernel of the MT8512 (32-bit ARM).\<close>

  The repository is a whole kernel tree. This library models the self-contained part of it on which
  the rest of the kernel rests: the boot memory allocator and the contiguous memory allocator with the bitmaps, bit
  searches and rounding macros below them, and the general-purpose components of \<^verbatim>\<open>lib/\<close> (sorting, FIFO, strings,
  character classes, number conversion). Every definition keeps the name of the C function it translates; leading
  underscores are dropped, and names that clash get a suffix.

  \<^bold>\<open>Conventions.\<close> The configuration is that of \<^verbatim>\<open>mt8512_defconfig\<close>: ARMv7, little endian, \<^verbatim>\<open>unsigned long\<close> and
  \<^verbatim>\<open>phys_addr_t\<close> of 32 bits, efficient unaligned access, no node map and no LPAE. Machine integers are words of their width
  and wrap around; array indices and byte counts that never exceed an array are natural numbers. An access outside an array, a
  failed \<^verbatim>\<open>BUG_ON\<close> and an exhausted bound are the value \<open>None\<close>; an \<^verbatim>\<open>errno\<close> result is a negative \<^typ>\<open>int\<close>. Loops are
  recursive functions with a termination proof; where the C loop need not end, the recursion has a bound and a theorem says which
  bound is enough. Locks, memory barriers, debug output and statistics have no counterpart: the model is sequential. Code that is
  not part of a component (the page allocator, \<^verbatim>\<open>kmalloc\<close>, the comparison functions of the callers, copies from and to user space)
  is a parameter, and its documented behaviour is a hypothesis of the theorems that need it.

  \<^bold>\<open>Foundations.\<close> \<open>Kernel_Prelude\<close>: machine types, \<^verbatim>\<open>errno\<close> values, \<^verbatim>\<open>ALIGN\<close>, \<^verbatim>\<open>round_up\<close> and the other macros of
  \<^verbatim>\<open>include/linux/kernel.h\<close>, and the lemmas on lists and words that all theories share. \<open>Byte_Memory\<close>: arrays of bytes, with
  checked reads and writes. \<open>Bit_Ops\<close>: \<^verbatim>\<open>__set_bit\<close>, \<^verbatim>\<open>test_bit\<close> and their relatives, \<^verbatim>\<open>fls\<close>, \<^verbatim>\<open>ffs\<close>, \<^verbatim>\<open>ffz\<close>
  (\<^verbatim>\<open>include/asm-generic/bitops/non-atomic.h\<close>, \<^verbatim>\<open>arch/arm/include/asm/bitops.h\<close>). \<open>Hamming_Weight\<close>: \<^verbatim>\<open>lib/hweight.c\<close>.

  \<^bold>\<open>Bitmaps.\<close> A bitmap is a list of 32-bit words. \<open>Find_Bit\<close> (\<^verbatim>\<open>lib/find_bit.c\<close>; ARM replaces some searches by assembly, the
  generic versions are modelled): the searches return the least or greatest set or clear bit. \<open>Bitmap\<close>, \<open>Bitmap_Alloc\<close> and
  \<open>Bitmap_Remap\<close> (\<^verbatim>\<open>lib/bitmap.c\<close>): the operations as operations on sets of bits, the search for a free aligned area and the
  allocation of regions, and the renumbering functions. \<open>Iommu_Helper\<close> (\<^verbatim>\<open>lib/iommu-helper.c\<close>): allocation of I/O address areas over
  that search, through the interface \<open>area_search\<close>.

  \<^bold>\<open>Boot memory.\<close> (\<^verbatim>\<open>mm/memblock.c\<close>) The state is a record of the two region arrays, the direction and the limit. \<open>Memblock\<close>:
  regions, insertion, removal, merging, and the invariant: sorted, disjoint, without wrap-around, minimal. \<open>Memblock_Range\<close>: isolation
  of ranges. \<open>Memblock_Find\<close> and \<open>Memblock_Search\<close>: the iterators over free ranges in both directions and the search for memory.
  \<open>Memblock_Ops\<close>: growing the arrays, adding, removing, reserving, freeing, marking, refined to updates of the map from addresses to
  flags, through the interface \<open>resizer\<close>; the depth of nested resizing is bounded by \<open>RESIZE_DEPTH\<close>, and the loop that grows an array ends
  within the stated number of rounds. \<open>Memblock_Api\<close> and \<open>Memblock_Facts\<close>: allocation, limits, trimming and queries, and that allocated
  blocks are free memory, aligned, within bounds and disjoint.

  \<^bold>\<open>Contiguous memory.\<close> \<open>Cma\<close> (\<^verbatim>\<open>mm/cma.c\<close>): areas reserved from the boot allocator, activated with a bitmap, allocated and
  released; allocation is safe for every behaviour of the page allocator, which is a parameter.

  \<^bold>\<open>Sorting and searching.\<close> \<open>Sort\<close> (\<^verbatim>\<open>lib/sort.c\<close>, \<^verbatim>\<open>lib/bsearch.c\<close>): heap sort of byte arrays through the interface \<open>swapper\<close>
  that all swap functions keep, and binary search in the sorted array. \<open>List_Sort\<close> (\<^verbatim>\<open>lib/list_sort.c\<close>): the stable merge sort.

  \<^bold>\<open>FIFO.\<close> \<open>Kfifo\<close> and \<open>Kfifo_Records\<close> (\<^verbatim>\<open>lib/kfifo.c\<close>, \<^verbatim>\<open>include/linux/kfifo.h\<close>): the ring buffer refines a bounded queue of elements
  (interface \<open>fifo_queue\<close>) or of records, whatever the values of the free-running indices; partial copies from and to user space.

  \<^bold>\<open>Characters and strings.\<close> \<open>Ctype\<close> (\<^verbatim>\<open>lib/ctype.c\<close>): the table of classes. \<open>String_Lib\<close>, \<open>String_Search\<close> and \<open>String_Copy\<close>
  (\<^verbatim>\<open>lib/string.c\<close>, \<^verbatim>\<open>arch/arm/include/asm/word-at-a-time.h\<close>): all string and memory functions over one memory, so that
  areas may overlap; \<^verbatim>\<open>strlcpy\<close> and \<^verbatim>\<open>strscpy\<close> keep the interface \<open>bounded_copy\<close>.

  \<^bold>\<open>Number conversion.\<close> \<open>Kstrtox\<close> (\<^verbatim>\<open>lib/kstrtox.c\<close>): the ten conversion functions keep the interface \<open>conversion\<close>: their result is that of a
  specification on the characters of the string, with the range of the type; the test for overflow is exact. \<open>Number_Format\<close> (\<^verbatim>\<open>lib/vsprintf.c\<close>): the
  decimal conversion that multiplies by reciprocals equals repeated division, and \<^verbatim>\<open>kstrtoull\<close> reads printed numbers back. \<open>Printf_Fields\<close>
  (\<^verbatim>\<open>lib/vsprintf.c\<close>): \<^verbatim>\<open>number\<close> and \<^verbatim>\<open>string\<close> with precision and padding keep the interface \<open>emitter\<close>: they write their text as far as the
  buffer allows and return where the whole text would end.

  \<^bold>\<open>Not modelled.\<close> Everything whose behaviour is input and output with devices (drivers, sound, the architecture code), concurrent
  state (scheduler, locking, RCU, page cache, slab and page allocator, networking, file systems), hardware clocks and interrupts, and codecs and ciphers whose
  specification is not in the tree. Within the modelled components: the atomic bit operations, the parsers and printers of
  \<^verbatim>\<open>lib/bitmap.c\<close>, the debugfs output and hot-plug variants of \<^verbatim>\<open>mm/memblock.c\<close>, the scatter-gather set-up
  of \<^verbatim>\<open>lib/kfifo.c\<close>, and the format decoder and the \<open>%p\<close> extensions of \<^verbatim>\<open>lib/vsprintf.c\<close>.
\<close>

end
